(* ===== verification/Prelude.thy ===== *)
theory Prelude imports Main "HOL-Library.Word" begin

text \<open>
  What every component theory shares: the machine integers of the code, its byte strings, the
  result type that renders \<^verbatim>\<open>Result\<close>, panics and endless loops as values, checked vector access,
  the little-endian and big-endian byte codecs, and the lemma collections the proofs run on.
\<close>

unbundle bit_operations_syntax

section \<open>Types and collections\<close>

type_synonym u8 = "8 word"
type_synonym u16 = "16 word"
type_synonym u32 = "32 word"
type_synonym u64 = "64 word"
type_synonym i64 = "64 word"

text \<open>A \<^verbatim>\<open>String\<close> or \<^verbatim>\<open>&str\<close> is its UTF-8 bytes; \<^verbatim>\<open>Vec<u8>\<close>, \<^verbatim>\<open>Bytes\<close> and \<^verbatim>\<open>&[u8]\<close> are byte lists too.\<close>

type_synonym bytes = "u8 list"
type_synonym str = "u8 list"

named_theorems res_simps \<open>equations that run the fallible code of the model\<close>
named_theorems codec_simps \<open>lengths and inverses of the byte codecs\<close>

definition lit :: "string \<Rightarrow> str" where
  "lit s = map (\<lambda>c. word_of_nat (of_char c)) s"

section \<open>Results, panics, loops that do not return\<close>

text \<open>
  \<open>Inl\<close> carries why the code did not produce a value: an \<^verbatim>\<open>Err\<close> of the code's own, a panic
  (an index out of range, a failed \<^verbatim>\<open>unwrap\<close> or \<^verbatim>\<open>assert!\<close>), an \<^verbatim>\<open>usize\<close> subtraction below zero (a
  panic in a debug build, a wrapped value in a release build), or a loop that never returns.
\<close>

datatype fault =
    EndOfBuffer
  | LabelTooLong
  | IoError
  | BadFrameLength
  | ParseError
  | Discarded
  | Panicked
  | Underflow
  | Diverged

type_synonym 'a res = "fault + 'a"

definition and_then :: "'a res \<Rightarrow> ('a \<Rightarrow> 'b res) \<Rightarrow> 'b res" where
  "and_then m f = (case m of Inl e \<Rightarrow> Inl e | Inr x \<Rightarrow> f x)"

lemma and_then_simps [simp, res_simps]:
  "and_then (Inr x) f = f x"
  "and_then (Inl e) f = Inl e"
  by (simp_all add: and_then_def)

lemma and_then_Inr_iff [res_simps]:
  "and_then m f = Inr y \<longleftrightarrow> (\<exists>x. m = Inr x \<and> f x = Inr y)"
  by (cases m) auto

lemma and_then_Inl_iff [res_simps]:
  "and_then m f = Inl e \<longleftrightarrow> m = Inl e \<or> (\<exists>x. m = Inr x \<and> f x = Inl e)"
  by (cases m) auto

lemma and_then_assoc: "and_then (and_then m f) g = and_then m (\<lambda>x. and_then (f x) g)"
  by (cases m) auto

lemma and_then_Inr_right [simp, res_simps]: "and_then m Inr = m"
  by (cases m) auto

lemma and_then_eqI: "(\<And>x. f x = g x) \<Longrightarrow> and_then m f = and_then m g"
  by (cases m) auto

lemma and_then_cong [fundef_cong]:
  "m = m' \<Longrightarrow> (\<And>x. m' = Inr x \<Longrightarrow> f x = f' x) \<Longrightarrow> and_then m f = and_then m' f'"
  by (cases m') auto

text \<open>\<^verbatim>\<open>match r { Ok(x) => .., Err(_) => .. }\<close>: an error is handled, a panic or an endless loop is not.\<close>

fun fatal :: "fault \<Rightarrow> bool" where
  "fatal e \<longleftrightarrow> e = Panicked \<or> e = Underflow \<or> e = Diverged"

definition match_result :: "'a res \<Rightarrow> ('a \<Rightarrow> 'b res) \<Rightarrow> 'b res \<Rightarrow> 'b res" where
  "match_result m ok err = (case m of Inr x \<Rightarrow> ok x | Inl e \<Rightarrow> if fatal e then Inl e else err)"

lemma match_result_simps [simp, res_simps]:
  "match_result (Inr x) ok err = ok x"
  "match_result (Inl e) ok err = (if fatal e then Inl e else err)"
  by (simp_all add: match_result_def)

text \<open>A loop that changes a state for each element and stops at the first fault.\<close>

fun fold_res :: "('s \<Rightarrow> 'a \<Rightarrow> 's res) \<Rightarrow> 's \<Rightarrow> 'a list \<Rightarrow> 's res" where
  "fold_res f s [] = Inr s"
| "fold_res f s (x # xs) = and_then (f s x) (\<lambda>s. fold_res f s xs)"

text \<open>\<^verbatim>\<open>v[i]\<close> and \<^verbatim>\<open>v[i] = x\<close> panic when the index is out of range.\<close>

definition vec_get :: "'a list \<Rightarrow> nat \<Rightarrow> 'a res" where
  "vec_get xs i = (if i < length xs then Inr (xs ! i) else Inl Panicked)"

definition vec_set :: "'a list \<Rightarrow> nat \<Rightarrow> 'a \<Rightarrow> 'a list res" where
  "vec_set xs i x = (if i < length xs then Inr (xs[i := x]) else Inl Panicked)"

lemma vec_get_ok [simp, res_simps]: "i < length xs \<Longrightarrow> vec_get xs i = Inr (xs ! i)"
  by (simp add: vec_get_def)

lemma vec_get_Inr_iff [res_simps]: "vec_get xs i = Inr y \<longleftrightarrow> i < length xs \<and> y = xs ! i"
  by (auto simp: vec_get_def)

lemma vec_set_ok [simp, res_simps]: "i < length xs \<Longrightarrow> vec_set xs i x = Inr (xs[i := x])"
  by (simp add: vec_set_def)

text \<open>\<^verbatim>\<open>opt.unwrap()\<close>.\<close>

definition unwrap :: "'a option \<Rightarrow> 'a res" where
  "unwrap x = (case x of None \<Rightarrow> Inl Panicked | Some v \<Rightarrow> Inr v)"

lemma unwrap_simps [simp, res_simps]: "unwrap (Some v) = Inr v" "unwrap None = Inl Panicked"
  by (simp_all add: unwrap_def)

section \<open>Bytes\<close>

definition be16 :: "u16 \<Rightarrow> bytes" where
  "be16 v = [ucast (drop_bit 8 v), ucast (v AND 0xFF)]"

definition be32 :: "u32 \<Rightarrow> bytes" where
  "be32 v = [ucast (drop_bit 24 v AND 0xFF), ucast (drop_bit 16 v AND 0xFF),
             ucast (drop_bit 8 v AND 0xFF), ucast (v AND 0xFF)]"

definition of_be16 :: "u8 \<Rightarrow> u8 \<Rightarrow> u16" where
  "of_be16 a b = push_bit 8 (ucast a) OR ucast b"

definition of_be32 :: "u8 \<Rightarrow> u8 \<Rightarrow> u8 \<Rightarrow> u8 \<Rightarrow> u32" where
  "of_be32 a b c d = push_bit 24 (ucast a) OR push_bit 16 (ucast b) OR push_bit 8 (ucast c) OR ucast d"

text \<open>
  \<^verbatim>\<open>write_with::<uN>(offset, v, LE)\<close> and \<^verbatim>\<open>read_with::<uN>(offset, LE)\<close>: the \<open>n\<close> bytes of the value,
  least significant first.
\<close>

definition le16 :: "u16 \<Rightarrow> bytes" where
  "le16 v = [ucast v, ucast (drop_bit 8 v)]"

definition le32 :: "u32 \<Rightarrow> bytes" where
  "le32 v = [ucast v, ucast (drop_bit 8 v), ucast (drop_bit 16 v), ucast (drop_bit 24 v)]"

definition le64 :: "u64 \<Rightarrow> bytes" where
  "le64 v = le32 (ucast v) @ le32 (ucast (drop_bit 32 v))"

definition of_le16 :: "u8 \<Rightarrow> u8 \<Rightarrow> u16" where
  "of_le16 a b = ucast a OR push_bit 8 (ucast b)"

definition of_le32 :: "u8 \<Rightarrow> u8 \<Rightarrow> u8 \<Rightarrow> u8 \<Rightarrow> u32" where
  "of_le32 a b c d = ucast a OR push_bit 8 (ucast b) OR push_bit 16 (ucast c) OR push_bit 24 (ucast d)"

text \<open>The eight-byte read takes the slice; the other lengths do not occur (the code checks for 8).\<close>

definition of_le64 :: "bytes \<Rightarrow> u64" where
  "of_le64 bs = ucast (of_le32 (bs ! 0) (bs ! 1) (bs ! 2) (bs ! 3))
     OR push_bit 32 (ucast (of_le32 (bs ! 4) (bs ! 5) (bs ! 6) (bs ! 7)))"

lemma codec_length [simp, codec_simps]:
  "length (be16 v) = 2" "length (be32 w) = 4" "length (le16 v) = 2" "length (le32 w) = 4"
  "length (le64 q) = 8"
  by (simp_all add: be16_def be32_def le16_def le32_def le64_def)

lemma unat_of_nat_less: "n < 2 ^ LENGTH('a) \<Longrightarrow> unat (word_of_nat n :: 'a::len word) = n"
  by (simp add: unat_of_nat take_bit_nat_eq_self)

lemma high_bit_u8 [simp]: "8 \<le> n \<Longrightarrow> \<not> bit (x :: u8) n"
  by (auto dest: bit_imp_le_length)

lemma high_bit_u16 [simp]: "16 \<le> n \<Longrightarrow> \<not> bit (x :: u16) n"
  by (auto dest: bit_imp_le_length)

lemma and_255_take_bit: "(v :: 'a::len word) AND 255 = take_bit 8 v"
  by (simp add: take_bit_eq_mask mask_eq_exp_minus_1)

lemma of_be16_inverse [simp, codec_simps]: "of_be16 (ucast (drop_bit 8 v)) (ucast (v AND 0xFF)) = v"
  unfolding and_255_take_bit of_be16_def
  by (rule bit_word_eqI) (auto simp: bit_simps)

lemma of_be32_inverse [simp, codec_simps]:
  "of_be32 (ucast (drop_bit 24 v AND 0xFF)) (ucast (drop_bit 16 v AND 0xFF))
     (ucast (drop_bit 8 v AND 0xFF)) (ucast (v AND 0xFF)) = v"
  unfolding and_255_take_bit of_be32_def
proof (rule bit_word_eqI)
  fix n assume "n < LENGTH(32)"
  then consider "n < 8" | "8 \<le> n \<and> n < 16" | "16 \<le> n \<and> n < 24" | "24 \<le> n \<and> n < 32" by fastforce
  then show "bit (push_bit 24 (ucast (ucast (take_bit 8 (drop_bit 24 v)) :: u8) :: u32)
      OR push_bit 16 (ucast (ucast (take_bit 8 (drop_bit 16 v)) :: u8))
      OR push_bit 8 (ucast (ucast (take_bit 8 (drop_bit 8 v)) :: u8))
      OR ucast (ucast (take_bit 8 v) :: u8)) n = bit v n"
    by cases (auto simp: bit_simps)
qed

lemma of_le16_inverse [simp, codec_simps]: "of_le16 (ucast v) (ucast (drop_bit 8 v)) = v"
  unfolding of_le16_def
  by (rule bit_word_eqI) (auto simp: bit_simps)

lemma of_le32_inverse [simp, codec_simps]:
  "of_le32 (ucast v) (ucast (drop_bit 8 v)) (ucast (drop_bit 16 v)) (ucast (drop_bit 24 v)) = v"
proof (rule bit_word_eqI)
  fix n assume "n < LENGTH(32)"
  then consider "n < 8" | "8 \<le> n \<and> n < 16" | "16 \<le> n \<and> n < 24" | "24 \<le> n \<and> n < 32" by fastforce
  then show "bit (of_le32 (ucast v) (ucast (drop_bit 8 v)) (ucast (drop_bit 16 v))
      (ucast (drop_bit 24 v))) n = bit v n"
    unfolding of_le32_def by cases (auto simp: bit_simps)
qed

lemma of_le64_inverse [simp, codec_simps]: "of_le64 (le64 v) = v"
proof -
  have "of_le64 (le64 v) = ucast (ucast v :: u32) OR push_bit 32 (ucast (ucast (drop_bit 32 v) :: u32))"
    by (simp add: of_le64_def le64_def le32_def)
  also have "\<dots> = v" by (rule bit_word_eqI) (auto simp: bit_simps)
  finally show ?thesis .
qed

text \<open>Writing into \<^verbatim>\<open>&mut out[off..]\<close>: a panic where the slice is too short.\<close>

definition put_at :: "nat \<Rightarrow> bytes \<Rightarrow> bytes \<Rightarrow> bytes res" where
  "put_at off vs out =
     (if off + length vs \<le> length out then Inr (take off out @ vs @ drop (off + length vs) out)
      else Inl Panicked)"

lemma put_at_ok:
  "off + length vs \<le> length out \<Longrightarrow> put_at off vs out = Inr (take off out @ vs @ drop (off + length vs) out)"
  by (simp add: put_at_def)

lemma put_at_length [res_simps]: "put_at off vs out = Inr out' \<Longrightarrow> length out' = length out"
  by (auto simp: put_at_def split: if_splits)

lemma put_at_end:
  "length pre = off \<Longrightarrow> length vs \<le> n \<Longrightarrow>
   put_at off vs (pre @ replicate n 0) = Inr ((pre @ vs) @ replicate (n - length vs) 0)"
  by (simp add: put_at_def)

text \<open>
  \<^verbatim>\<open>bs.read_with::<uN>(offset, LE).unwrap()\<close>: the value and the new offset, or a panic past the end.
\<close>

definition rd_u8 :: "bytes \<Rightarrow> nat \<Rightarrow> (u8 \<times> nat) res" where
  "rd_u8 bs off = (if off < length bs then Inr (bs ! off, off + 1) else Inl Panicked)"

definition rd_u16 :: "bytes \<Rightarrow> nat \<Rightarrow> (u16 \<times> nat) res" where
  "rd_u16 bs off =
     (if off + 2 \<le> length bs then Inr (of_le16 (bs ! off) (bs ! (off + 1)), off + 2) else Inl Panicked)"

definition rd_u64 :: "bytes \<Rightarrow> nat \<Rightarrow> (u64 \<times> nat) res" where
  "rd_u64 bs off =
     (if off + 8 \<le> length bs then Inr (of_le64 (take 8 (drop off bs)), off + 8) else Inl Panicked)"

lemma rd_u8_append [simp, codec_simps]: "length pre = n \<Longrightarrow> rd_u8 (pre @ v # rest) n = Inr (v, n + 1)"
  by (auto simp: rd_u8_def nth_append)

lemma rd_u16_append [simp, codec_simps]:
  "length pre = n \<Longrightarrow> rd_u16 (pre @ le16 v @ rest) n = Inr (v, n + 2)"
  by (auto simp: rd_u16_def nth_append le16_def)

lemma rd_u64_append [simp, codec_simps]:
  "length pre = n \<Longrightarrow> rd_u64 (pre @ le64 v @ rest) n = Inr (v, n + 8)"
  by (simp add: rd_u64_def)

section \<open>Decimal numbers\<close>

text \<open>\<^verbatim>\<open>{}\<close> of an unsigned integer.\<close>

fun dec_digits :: "nat \<Rightarrow> str" where
  "dec_digits n = (if n < 10 then [48 + word_of_nat n] else dec_digits (n div 10) @ [48 + word_of_nat (n mod 10)])"

declare dec_digits.simps [simp del]

definition digits_value :: "str \<Rightarrow> nat" where
  "digits_value ds = foldl (\<lambda>n d. 10 * n + (unat d - 48)) 0 ds"

lemma unat_digit: "k < 10 \<Longrightarrow> unat (48 + word_of_nat k :: u8) = 48 + k"
  by (subst unat_add_lem [THEN iffD1]) (simp_all add: unat_of_nat_less)

lemma dec_digits_value: "digits_value (dec_digits n) = n"
proof (induction n rule: dec_digits.induct)
  case (1 n)
  show ?case
  proof (cases "n < 10")
    case True
    then show ?thesis by (subst dec_digits.simps) (simp add: digits_value_def unat_digit)
  next
    case False
    then show ?thesis using "1.IH" by (subst dec_digits.simps) (simp add: digits_value_def unat_digit)
  qed
qed

lemma dec_digits_inject [simp]: "dec_digits m = dec_digits n \<longleftrightarrow> m = n"
  by (metis dec_digits_value)

lemma dec_digits_range: "d \<in> set (dec_digits n) \<Longrightarrow> 48 \<le> unat d \<and> unat d \<le> 57"
proof (induction n rule: dec_digits.induct)
  case (1 n)
  show ?case
  proof (cases "n < 10")
    case True
    then have "d = 48 + word_of_nat n" using "1.prems" by (subst (asm) dec_digits.simps) simp
    then show ?thesis using True by (simp only: unat_digit) simp
  next
    case False
    then consider "d \<in> set (dec_digits (n div 10))" | "d = 48 + word_of_nat (n mod 10)"
      using "1.prems" by (subst (asm) dec_digits.simps) auto
    then show ?thesis
    proof cases
      case 1
      then show ?thesis using "1.IH" False by simp
    next
      case 2
      then show ?thesis using unat_digit [of "n mod 10"] by simp
    qed
  qed
qed

end
