(* ===== verification/Net_Addr.thy ===== *)
theory Net_Addr imports Prelude begin

text \<open>
  The address types of \<^verbatim>\<open>std::net\<close> as the code uses them: octets and segments, the conversions to
  \<^verbatim>\<open>u32\<close>, and the loopback and multicast tests the forwarder applies before it feeds an address to
  the kernel's sets.
\<close>

datatype ipv4_addr = Ipv4Addr u8 u8 u8 u8

datatype ipv6_addr = Ipv6Addr u16 u16 u16 u16 u16 u16 u16 u16

datatype ip_addr = V4 ipv4_addr | V6 ipv6_addr

datatype socket_addr = SocketAddr (sa_ip: ip_addr) (sa_port: u16)

fun octets4 :: "ipv4_addr \<Rightarrow> bytes" where
  "octets4 (Ipv4Addr a b c d) = [a, b, c, d]"

fun segments :: "ipv6_addr \<Rightarrow> u16 list" where
  "segments (Ipv6Addr a b c d e f g h) = [a, b, c, d, e, f, g, h]"

definition octets6 :: "ipv6_addr \<Rightarrow> bytes" where
  "octets6 a = concat (map be16 (segments a))"

fun is_ipv4 :: "ip_addr \<Rightarrow> bool" where
  "is_ipv4 (V4 a) = True"
| "is_ipv4 (V6 a) = False"

text \<open>\<^verbatim>\<open>u32::from(Ipv4Addr)\<close> and \<^verbatim>\<open>Ipv4Addr::from(u32)\<close>: the octets, most significant first.\<close>

fun ipv4_to_u32 :: "ipv4_addr \<Rightarrow> u32" where
  "ipv4_to_u32 (Ipv4Addr a b c d) = of_be32 a b c d"

definition ipv4_of_u32 :: "u32 \<Rightarrow> ipv4_addr" where
  "ipv4_of_u32 v = Ipv4Addr (ucast (drop_bit 24 v)) (ucast (drop_bit 16 v)) (ucast (drop_bit 8 v)) (ucast v)"

fun v4_is_loopback :: "ipv4_addr \<Rightarrow> bool" where
  "v4_is_loopback (Ipv4Addr a b c d) \<longleftrightarrow> a = 127"

fun v4_is_multicast :: "ipv4_addr \<Rightarrow> bool" where
  "v4_is_multicast (Ipv4Addr a b c d) \<longleftrightarrow> 224 \<le> a \<and> a \<le> 239"

definition v6_is_loopback :: "ipv6_addr \<Rightarrow> bool" where
  "v6_is_loopback a \<longleftrightarrow> segments a = [0, 0, 0, 0, 0, 0, 0, 1]"

fun v6_is_multicast :: "ipv6_addr \<Rightarrow> bool" where
  "v6_is_multicast (Ipv6Addr a b c d e f g h) \<longleftrightarrow> a AND 0xff00 = 0xff00"

lemma length_octets [simp, codec_simps]:
  "length (octets4 a) = 4" "length (segments b) = 8" "length (octets6 b) = 16"
  by (cases a; cases b; simp add: octets6_def)+

lemma ipv4_u32_inverse [simp, codec_simps]: "ipv4_of_u32 (ipv4_to_u32 a) = a"
  by (cases a) (auto simp: ipv4_of_u32_def of_be32_def bit_simps intro!: bit_word_eqI)

end
