(* ===== verification/Lws_Msg.thy ===== *)
theory Lws_Msg imports Prelude begin

text \<open>
  \<^verbatim>\<open>src/lws/msg.rs\<close>: the buffers the transports read into and write from. \<open>rmessage\<close> is the frame
  being received, \<open>tmessage\<close> a chunk of a proxied TCP stream, \<open>wmessage\<close> an outgoing message with its
  cursor. The locale \<open>buf_mut\<close> is what an \<^verbatim>\<open>unsafe impl BufMut\<close> owes its caller: what is written stays
  inside the allocation.
\<close>

section \<open>Messages being received\<close>

definition DEFAULT_CAP :: nat where "DEFAULT_CAP = 8096"
definition HEAD_SIZE :: nat where "HEAD_SIZE = 2"

text \<open>The buffer is \<^verbatim>\<open>Some\<close> as long as a transport owns the message; its consumer takes it out.\<close>

record rmessage =
  rm_buf :: bytes
  rm_cached_length :: u16
  rm_error :: "fault option"

definition rmessage_new :: rmessage where
  "rmessage_new = \<lparr>rm_buf = [], rm_cached_length = 0, rm_error = None\<rparr>"

definition rm_is_completed :: "rmessage \<Rightarrow> bool" where
  "rm_is_completed m \<longleftrightarrow>
     (if rm_error m \<noteq> None then True
      else 0 < rm_cached_length m \<and> rm_cached_length m = word_of_nat (length (rm_buf m)))"

definition rm_remaining_mut :: "rmessage \<Rightarrow> nat res" where
  "rm_remaining_mut m =
     (if rm_error m \<noteq> None then Inr 0
      else if length (rm_buf m) < HEAD_SIZE then Inr (HEAD_SIZE - length (rm_buf m))
      else if unat (rm_cached_length m) < length (rm_buf m) then Inl Underflow
      else Inr (unat (rm_cached_length m) - length (rm_buf m)))"

text \<open>
  \<^verbatim>\<open>advance_mut(cnt)\<close>, with the \<open>cnt\<close> bytes the caller has put behind the vector's end: the length
  now covers them.
\<close>

definition rm_advance_mut :: "rmessage \<Rightarrow> bytes \<Rightarrow> rmessage" where
  "rm_advance_mut m written =
     (let vec = rm_buf m @ written;
          m = m\<lparr>rm_buf := vec\<rparr>
      in if rm_cached_length m = 0 \<and> HEAD_SIZE \<le> length vec then
           (let cached = of_le16 (vec ! 0) (vec ! 1);
                m = m\<lparr>rm_cached_length := cached\<rparr>
            in if cached = 0 \<or> word_of_nat DEFAULT_CAP < cached
               then m\<lparr>rm_error := Some BadFrameLength\<rparr> else m)
         else m)"

section \<open>Chunks of a TCP stream\<close>

record tmessage =
  tm_buf :: bytes
  tm_capacity :: nat

definition TMESSAGE_KEEP :: nat where "TMESSAGE_KEEP = 7"

definition tmessage_new :: tmessage where
  "tmessage_new = \<lparr>tm_buf = replicate TMESSAGE_KEEP 0, tm_capacity = DEFAULT_CAP\<rparr>"

definition tm_remaining_mut :: "tmessage \<Rightarrow> nat res" where
  "tm_remaining_mut m =
     (if tm_capacity m < length (tm_buf m) then Inl Underflow
      else Inr (tm_capacity m - length (tm_buf m)))"

definition tm_advance_mut :: "tmessage \<Rightarrow> bytes \<Rightarrow> tmessage" where
  "tm_advance_mut m written = m\<lparr>tm_buf := tm_buf m @ written\<rparr>"

section \<open>Messages being sent\<close>

record wmessage =
  wm_buf :: bytes
  wm_cursor :: u16

definition wmessage_new :: "bytes \<Rightarrow> u16 \<Rightarrow> wmessage" where
  "wmessage_new v cursor = \<lparr>wm_buf = v, wm_cursor = cursor\<rparr>"

definition wm_is_completed :: "wmessage \<Rightarrow> bool" where
  "wm_is_completed m \<longleftrightarrow> wm_cursor m = word_of_nat (length (wm_buf m))"

definition wm_remaining :: "wmessage \<Rightarrow> nat res" where
  "wm_remaining m =
     (if length (wm_buf m) < unat (wm_cursor m) then Inl Underflow
      else Inr (length (wm_buf m) - unat (wm_cursor m)))"

definition wm_bytes :: "wmessage \<Rightarrow> bytes res" where
  "wm_bytes m =
     (if length (wm_buf m) < unat (wm_cursor m) then Inl Panicked
      else Inr (drop (unat (wm_cursor m)) (wm_buf m)))"

definition wm_advance :: "wmessage \<Rightarrow> nat \<Rightarrow> wmessage" where
  "wm_advance m cnt = m\<lparr>wm_cursor := wm_cursor m + word_of_nat cnt\<rparr>"

section \<open>Polling\<close>

datatype 'a poll = Pending | Ready 'a

text \<open>
  What the asynchronous runtime answers to \<^verbatim>\<open>poll_read_buf\<close> with room for \<open>n\<close> bytes, to
  \<^verbatim>\<open>poll_write_buf\<close> with the bytes offered, and to \<^verbatim>\<open>poll_flush\<close>. The runtime's three operations are
  parameters \<open>rd\<close>, \<open>wr\<close> and \<open>fl\<close> over a transport state \<open>'io\<close>.
\<close>

datatype read_answer = Got bytes | ReadNotReady | ReadFailed
datatype write_answer = Wrote nat | WriteNotReady | WriteFailed

type_synonym 'io reader = "'io \<Rightarrow> nat \<Rightarrow> 'io \<times> read_answer"
type_synonym 'io writer = "'io \<Rightarrow> bytes \<Rightarrow> 'io \<times> write_answer"
type_synonym 'io flusher = "'io \<Rightarrow> 'io \<times> unit res poll"

definition poll_read_buf ::
  "'io reader \<Rightarrow> ('m \<Rightarrow> nat res) \<Rightarrow> ('m \<Rightarrow> bytes \<Rightarrow> 'm) \<Rightarrow> 'io \<Rightarrow> 'm \<Rightarrow> ('io \<times> 'm \<times> nat res poll) res" where
  "poll_read_buf rd remaining advance io m =
     and_then (remaining m) (\<lambda>room.
     case rd io room of
       (io, Got bs) \<Rightarrow> Inr (io, advance m bs, Ready (Inr (length bs)))
     | (io, ReadNotReady) \<Rightarrow> Inr (io, m, Pending)
     | (io, ReadFailed) \<Rightarrow> Inr (io, m, Ready (Inl IoError)))"

definition poll_write_buf :: "'io writer \<Rightarrow> 'io \<Rightarrow> wmessage \<Rightarrow> ('io \<times> wmessage \<times> nat res poll) res" where
  "poll_write_buf wr io m =
     and_then (wm_remaining m) (\<lambda>n.
     if n = 0 then Inr (io, m, Ready (Inr 0))
     else and_then (wm_bytes m) (\<lambda>bs.
       case wr io bs of
         (io, Wrote k) \<Rightarrow> Inr (io, wm_advance m k, Ready (Inr k))
       | (io, WriteNotReady) \<Rightarrow> Inr (io, m, Pending)
       | (io, WriteFailed) \<Rightarrow> Inr (io, m, Ready (Inl IoError))))"

section \<open>The contract of a receiving buffer\<close>

text \<open>
  \<open>room\<close> is the slice offered by \<^verbatim>\<open>bytes_mut\<close>, of length \<^verbatim>\<open>remaining_mut\<close>, behind the vector's end. The
  contract: it lies in the allocation of \<open>cap\<close> bytes, and filling some of it keeps the buffer good.
\<close>

locale buf_mut =
  fixes contents :: "'m \<Rightarrow> bytes" and remaining :: "'m \<Rightarrow> nat res"
    and advance :: "'m \<Rightarrow> bytes \<Rightarrow> 'm" and good :: "'m \<Rightarrow> bool" and cap :: nat
  assumes in_allocation: "good m \<Longrightarrow> remaining m = Inr room \<Longrightarrow> length (contents m) + room \<le> cap"
    and advance_contents: "contents (advance m bs) = contents m @ bs"
    and advance_good: "good m \<Longrightarrow> remaining m = Inr room \<Longrightarrow> length bs \<le> room \<Longrightarrow> good (advance m bs)"
begin

lemma read_in_allocation:
  assumes "good m" "poll_read_buf rd remaining advance io m = Inr (io', m', r)"
    and honest: "\<And>io n io' bs. rd io n = (io', Got bs) \<Longrightarrow> length bs \<le> n"
  shows "good m' \<and> (\<exists>bs. contents m' = contents m @ bs) \<and> length (contents m') \<le> max cap (length (contents m))"
proof -
  obtain room where room: "remaining m = Inr room"
    using assms(2) by (auto simp: poll_read_buf_def and_then_Inr_iff)
  show ?thesis
  proof (cases "rd io room")
    case (Pair io1 a)
    show ?thesis
    proof (cases a)
      case (Got bs)
      then have "m' = advance m bs" using assms(2) room Pair by (simp add: poll_read_buf_def)
      moreover have "length bs \<le> room" using honest Pair Got by blast
      ultimately show ?thesis
        using advance_good [OF assms(1) room] in_allocation [OF assms(1) room] by (auto simp: advance_contents)
    qed (use assms room Pair in \<open>auto simp: poll_read_buf_def\<close>)
  qed
qed

end

text \<open>What holds of a frame being received, whatever bytes arrive.\<close>

definition rm_good :: "rmessage \<Rightarrow> bool" where
  "rm_good m \<longleftrightarrow> length (rm_buf m) \<le> DEFAULT_CAP \<and>
     (rm_error m = None \<longrightarrow>
       (if length (rm_buf m) < HEAD_SIZE then rm_cached_length m = 0
        else 0 < rm_cached_length m \<and> rm_cached_length m \<le> word_of_nat DEFAULT_CAP))"

definition tm_good :: "tmessage \<Rightarrow> bool" where
  "tm_good m \<longleftrightarrow> tm_capacity m = DEFAULT_CAP \<and> length (tm_buf m) \<le> DEFAULT_CAP"

lemma le_cap_unat: "(w :: u16) \<le> word_of_nat DEFAULT_CAP \<longleftrightarrow> unat w \<le> DEFAULT_CAP"
  by (simp add: word_le_nat_alt DEFAULT_CAP_def)

lemma rm_room_in_allocation:
  "rm_good m \<Longrightarrow> rm_remaining_mut m = Inr room \<Longrightarrow> length (rm_buf m) + room \<le> DEFAULT_CAP"
  by (auto simp: rm_good_def rm_remaining_mut_def le_cap_unat HEAD_SIZE_def split: if_splits)
     (simp add: DEFAULT_CAP_def)

lemma rm_advance_keeps_good:
  assumes "rm_good m" "rm_remaining_mut m = Inr room" "length bs \<le> room"
  shows "rm_good (rm_advance_mut m bs)"
proof -
  have "length (rm_buf m @ bs) \<le> DEFAULT_CAP"
    using rm_room_in_allocation [OF assms(1,2)] assms(3) by simp
  then show ?thesis
    using assms(1)
    by (auto simp: rm_good_def rm_advance_mut_def Let_def not_less word_neq_0_conv split: if_splits)
qed

lemma rm_advance_buf [simp]: "rm_buf (rm_advance_mut m bs) = rm_buf m @ bs"
  by (simp add: rm_advance_mut_def Let_def)

interpretation rm: buf_mut rm_buf rm_remaining_mut rm_advance_mut rm_good DEFAULT_CAP
  by unfold_locales (simp_all add: rm_room_in_allocation rm_advance_keeps_good)

interpretation tm: buf_mut tm_buf tm_remaining_mut tm_advance_mut tm_good DEFAULT_CAP
  by unfold_locales
     (auto simp: tm_good_def tm_remaining_mut_def tm_advance_mut_def split: if_splits)

end
