(* ===== verification/Lws_Framed.thy ===== *)
theory Lws_Framed imports Lws_Msg begin

text \<open>
  \<^verbatim>\<open>src/lws/lwsframed.rs\<close>, \<^verbatim>\<open>src/lws/tcpframed.rs\<close> and \<^verbatim>\<open>src/lws/chandshake.rs\<close>: the framed tunnel
  transport, the raw TCP transport and the upgrade handshake, each polled by the runtime. A loop of
  the code that only the runtime's answers end is a \<open>partial_function\<close>: \<open>None\<close> is a poll that never
  returns.
\<close>

section \<open>The framed transport\<close>

record 'io lws_framed =
  lf_io :: 'io
  lf_reading :: "rmessage option"
  lf_writing :: "wmessage option"
  lf_tail :: "bytes option"
  lf_has_finished :: bool

definition lws_framed_new :: "'io \<Rightarrow> bytes option \<Rightarrow> 'io lws_framed" where
  "lws_framed_new io tail = \<lparr>lf_io = io, lf_reading = None, lf_writing = None, lf_tail = tail,
     lf_has_finished = False\<rparr>"

definition read_from_tail :: "bytes \<Rightarrow> rmessage \<Rightarrow> (rmessage \<times> bytes) res" where
  "read_from_tail vec bf =
     and_then (rm_remaining_mut bf) (\<lambda>remain_in_bf.
     let len_to_copy = (if length vec < remain_in_bf then length vec else remain_in_bf) in
     Inr (rm_advance_mut bf (take len_to_copy vec), drop len_to_copy vec))"

text \<open>One turn of the loop of \<^verbatim>\<open>poll_next\<close>: \<open>None\<close> goes round again, \<open>Some r\<close> returns \<open>r\<close>.\<close>

type_synonym 'a next_item = "'a res option poll"

definition lf_check_completed ::
  "'io lws_framed \<Rightarrow> rmessage \<Rightarrow> 'io lws_framed \<times> rmessage next_item option" where
  "lf_check_completed st msg =
     (if rm_is_completed msg then
        case rm_error msg of
          Some e \<Rightarrow> (st\<lparr>lf_reading := Some (msg\<lparr>rm_error := None\<rparr>), lf_has_finished := True\<rparr>,
                     Some (Ready (Some (Inl e))))
        | None \<Rightarrow> (st\<lparr>lf_reading := None\<rparr>, Some (Ready (Some (Inr msg))))
      else (st\<lparr>lf_reading := Some msg\<rparr>, None))"

definition lf_poll_turn ::
  "'io reader \<Rightarrow> 'io lws_framed \<Rightarrow> ('io lws_framed \<times> rmessage next_item option) res" where
  "lf_poll_turn rd st =
     (let msg = (case lf_reading st of None \<Rightarrow> rmessage_new | Some m \<Rightarrow> m) in
      case lf_tail st of
        Some tail \<Rightarrow>
          and_then (read_from_tail tail msg) (\<lambda>(msg, tail).
          Inr (lf_check_completed (st\<lparr>lf_tail := if length tail < 1 then None else Some tail\<rparr>) msg))
      | None \<Rightarrow>
          and_then (poll_read_buf rd rm_remaining_mut rm_advance_mut (lf_io st) msg) (\<lambda>(io, msg, r).
          let st = st\<lparr>lf_io := io, lf_reading := Some msg\<rparr> in
          case r of
            Pending \<Rightarrow> Inr (st, Some Pending)
          | Ready (Inl e) \<Rightarrow> Inr (st\<lparr>lf_has_finished := True\<rparr>, Some (Ready (Some (Inl e))))
          | Ready (Inr n) \<Rightarrow>
              if n \<le> 0 then Inr (st\<lparr>lf_has_finished := True\<rparr>, Some (Ready None))
              else Inr (lf_check_completed st msg)))"

partial_function (option) lf_poll_next ::
  "'io reader \<Rightarrow> 'io lws_framed \<Rightarrow> ('io lws_framed \<times> rmessage next_item) res option" where
  "lf_poll_next rd st =
     (case lf_poll_turn rd st of
        Inl e \<Rightarrow> Some (Inl e)
      | Inr (st, Some r) \<Rightarrow> Some (Inr (st, r))
      | Inr (st, None) \<Rightarrow> lf_poll_next rd st)"

definition lf_is_terminated :: "'io lws_framed \<Rightarrow> bool" where
  "lf_is_terminated st = lf_has_finished st"

text \<open>The sink half. \<^verbatim>\<open>loop { poll_write_buf; if completed break }\<close> first.\<close>

partial_function (option) write_out ::
  "'io writer \<Rightarrow> 'io \<Rightarrow> wmessage \<Rightarrow> ('io \<times> wmessage \<times> unit res poll) res option" where
  "write_out wr io m =
     (case poll_write_buf wr io m of
        Inl e \<Rightarrow> Some (Inl e)
      | Inr (io, m, Pending) \<Rightarrow> Some (Inr (io, m, Pending))
      | Inr (io, m, Ready (Inl e)) \<Rightarrow> Some (Inr (io, m, Ready (Inl e)))
      | Inr (io, m, Ready (Inr n)) \<Rightarrow>
          if wm_is_completed m then Some (Inr (io, m, Ready (Inr ()))) else write_out wr io m)"

definition lf_flush_io ::
  "'io flusher \<Rightarrow> 'io lws_framed \<Rightarrow> ('io lws_framed \<times> unit res poll) res option" where
  "lf_flush_io fl st = (case fl (lf_io st) of (io, r) \<Rightarrow> Some (Inr (st\<lparr>lf_io := io\<rparr>, r)))"

definition lf_poll_flush ::
  "'io writer \<Rightarrow> 'io flusher \<Rightarrow> 'io lws_framed \<Rightarrow> ('io lws_framed \<times> unit res poll) res option" where
  "lf_poll_flush wr fl st =
     (case lf_writing st of
        None \<Rightarrow> lf_flush_io fl st
      | Some m \<Rightarrow>
          (case write_out wr (lf_io st) m of
             None \<Rightarrow> None
           | Some (Inl e) \<Rightarrow> Some (Inl e)
           | Some (Inr (io, m, Ready (Inr _))) \<Rightarrow> lf_flush_io fl (st\<lparr>lf_io := io, lf_writing := None\<rparr>)
           | Some (Inr (io, m, r)) \<Rightarrow> Some (Inr (st\<lparr>lf_io := io, lf_writing := Some m\<rparr>, r))))"

definition lf_poll_ready ::
  "'io writer \<Rightarrow> 'io flusher \<Rightarrow> 'io lws_framed \<Rightarrow> ('io lws_framed \<times> unit res poll) res option" where
  "lf_poll_ready wr fl st =
     (if lf_writing st \<noteq> None then lf_poll_flush wr fl st else Some (Inr (st, Ready (Inr ()))))"

definition lf_start_send :: "'io lws_framed \<Rightarrow> wmessage \<Rightarrow> 'io lws_framed" where
  "lf_start_send st item = st\<lparr>lf_writing := Some item\<rparr>"

text \<open>\<^verbatim>\<open>poll_close\<close> flushes and returns; a pending or failed flush is passed on.\<close>

definition lf_poll_close ::
  "'io writer \<Rightarrow> 'io flusher \<Rightarrow> 'io lws_framed \<Rightarrow> ('io lws_framed \<times> unit res poll) res option" where
  "lf_poll_close wr fl st = lf_poll_flush wr fl st"

section \<open>The raw TCP transport\<close>

record 'io tcp_framed =
  tf_io :: 'io
  tf_reading :: "tmessage option"
  tf_writing :: "wmessage option"
  tf_has_finished :: bool

definition tcp_framed_new :: "'io \<Rightarrow> 'io tcp_framed" where
  "tcp_framed_new io = \<lparr>tf_io = io, tf_reading = None, tf_writing = None, tf_has_finished = False\<rparr>"

definition tf_poll_next :: "'io reader \<Rightarrow> 'io tcp_framed \<Rightarrow> ('io tcp_framed \<times> tmessage next_item) res" where
  "tf_poll_next rd st =
     (let msg = (case tf_reading st of None \<Rightarrow> tmessage_new | Some m \<Rightarrow> m) in
      and_then (poll_read_buf rd tm_remaining_mut tm_advance_mut (tf_io st) msg) (\<lambda>(io, msg, r).
      let st = st\<lparr>tf_io := io, tf_reading := Some msg\<rparr> in
      case r of
        Pending \<Rightarrow> Inr (st, Pending)
      | Ready (Inl e) \<Rightarrow> Inr (st\<lparr>tf_has_finished := True\<rparr>, Ready (Some (Inl e)))
      | Ready (Inr n) \<Rightarrow>
          if n \<le> 0 then Inr (st\<lparr>tf_has_finished := True\<rparr>, Ready None)
          else Inr (st\<lparr>tf_reading := None\<rparr>, Ready (Some (Inr msg)))))"

definition tf_flush_io ::
  "'io flusher \<Rightarrow> 'io tcp_framed \<Rightarrow> ('io tcp_framed \<times> unit res poll) res option" where
  "tf_flush_io fl st = (case fl (tf_io st) of (io, r) \<Rightarrow> Some (Inr (st\<lparr>tf_io := io\<rparr>, r)))"

definition tf_poll_flush ::
  "'io writer \<Rightarrow> 'io flusher \<Rightarrow> 'io tcp_framed \<Rightarrow> ('io tcp_framed \<times> unit res poll) res option" where
  "tf_poll_flush wr fl st =
     (case tf_writing st of
        None \<Rightarrow> tf_flush_io fl st
      | Some m \<Rightarrow>
          (case write_out wr (tf_io st) m of
             None \<Rightarrow> None
           | Some (Inl e) \<Rightarrow> Some (Inl e)
           | Some (Inr (io, m, Ready (Inr _))) \<Rightarrow> tf_flush_io fl (st\<lparr>tf_io := io, tf_writing := None\<rparr>)
           | Some (Inr (io, m, r)) \<Rightarrow> Some (Inr (st\<lparr>tf_io := io, tf_writing := Some m\<rparr>, r))))"

definition tf_poll_ready ::
  "'io writer \<Rightarrow> 'io flusher \<Rightarrow> 'io tcp_framed \<Rightarrow> ('io tcp_framed \<times> unit res poll) res option" where
  "tf_poll_ready wr fl st =
     (if tf_writing st \<noteq> None then tf_poll_flush wr fl st else Some (Inr (st, Ready (Inr ()))))"

definition tf_start_send :: "'io tcp_framed \<Rightarrow> wmessage \<Rightarrow> 'io tcp_framed" where
  "tf_start_send st item = st\<lparr>tf_writing := Some item\<rparr>"

section \<open>The upgrade handshake\<close>

datatype ch_state = WritingHeader | ReadingResponse | HandshakeDone

record 'io chandshake =
  ch_io :: "'io option"
  ch_read_buf :: bytes
  ch_wmsg :: wmessage
  ch_state :: ch_state

definition crlf :: str where "crlf = [13, 10]"

text \<open>\<open>key\<close> is the base64 text of 16 random bytes.\<close>

definition do_client_handshake :: "str \<Rightarrow> 'io \<Rightarrow> str \<Rightarrow> str \<Rightarrow> 'io chandshake" where
  "do_client_handshake key io host pth =
     (let h = lit ''GET '' @ pth @ lit '' HTTP/1.1'' @ crlf @ lit ''Host: '' @ host @ crlf
              @ lit ''Connection: upgrade'' @ crlf @ lit ''Upgrade: websocket'' @ crlf
              @ lit ''Sec-WebSocket-Version: 13'' @ crlf @ lit ''Sec-WebSocket-Key: '' @ key @ crlf @ crlf
      in \<lparr>ch_io = Some io, ch_read_buf = [], ch_wmsg = wmessage_new h 0, ch_state = WritingHeader\<rparr>)"

text \<open>\<^verbatim>\<open>windows(4).position(|w| w == needle)\<close>.\<close>

fun find_window :: "bytes \<Rightarrow> bytes \<Rightarrow> nat option" where
  "find_window needle [] = None"
| "find_window needle (x # xs) =
     (if length (x # xs) < length needle then None
      else if take (length needle) (x # xs) = needle then Some 0
      else map_option Suc (find_window needle xs))"

definition ch_parse_response :: "'io chandshake \<Rightarrow> 'io chandshake \<times> bool" where
  "ch_parse_response st =
     (case find_window (crlf @ crlf) (ch_read_buf st) of
        Some pos \<Rightarrow> (st\<lparr>ch_read_buf := drop (pos + 4) (ch_read_buf st)\<rparr>, True)
      | None \<Rightarrow> (st, False))"

text \<open>\<open>room\<close> is \<^verbatim>\<open>remaining_mut\<close> of the growing \<^verbatim>\<open>BytesMut\<close>.\<close>

type_synonym 'io hs_result = "('io \<times> bytes option) res poll"

definition ch_turn ::
  "'io reader \<Rightarrow> 'io writer \<Rightarrow> (bytes \<Rightarrow> nat) \<Rightarrow> 'io chandshake \<Rightarrow>
   ('io chandshake \<times> 'io hs_result option) res" where
  "ch_turn rd wr room st =
     (case ch_state st of
        WritingHeader \<Rightarrow>
          and_then (unwrap (ch_io st)) (\<lambda>io.
          and_then (poll_write_buf wr io (ch_wmsg st)) (\<lambda>(io, m, r).
          let st = st\<lparr>ch_io := Some io, ch_wmsg := m\<rparr> in
          case r of
            Pending \<Rightarrow> Inr (st, Some Pending)
          | Ready (Inl e) \<Rightarrow> Inr (st, Some (Ready (Inl e)))
          | Ready (Inr n) \<Rightarrow>
              Inr (if wm_is_completed m then st\<lparr>ch_state := ReadingResponse\<rparr> else st, None)))
      | ReadingResponse \<Rightarrow>
          if room (ch_read_buf st) = 0 then Inr (st, Some (Ready (Inl IoError)))
          else
          and_then (unwrap (ch_io st)) (\<lambda>io.
          and_then (poll_read_buf rd (\<lambda>b. Inr (room b)) (@) io (ch_read_buf st)) (\<lambda>(io, bm, r).
          let st = st\<lparr>ch_io := Some io, ch_read_buf := bm\<rparr> in
          case r of
            Pending \<Rightarrow> Inr (st, Some Pending)
          | Ready (Inl e) \<Rightarrow> Inr (st, Some (Ready (Inl e)))
          | Ready (Inr n) \<Rightarrow>
              if n = 0 then Inr (st, Some (Ready (Inl IoError)))
              else (case ch_parse_response st of
                      (st, ok) \<Rightarrow> Inr (if ok then st\<lparr>ch_state := HandshakeDone\<rparr> else st, None))))
      | HandshakeDone \<Rightarrow>
          and_then (unwrap (ch_io st)) (\<lambda>io.
          let vv = (if 0 < length (ch_read_buf st) then Some (ch_read_buf st) else None) in
          Inr (st\<lparr>ch_io := None\<rparr>, Some (Ready (Inr (io, vv))))))"

partial_function (option) ch_poll ::
  "'io reader \<Rightarrow> 'io writer \<Rightarrow> (bytes \<Rightarrow> nat) \<Rightarrow> 'io chandshake \<Rightarrow>
   ('io chandshake \<times> 'io hs_result) res option" where
  "ch_poll rd wr room st =
     (case ch_turn rd wr room st of
        Inl e \<Rightarrow> Some (Inl e)
      | Inr (st, Some r) \<Rightarrow> Some (Inr (st, r))
      | Inr (st, None) \<Rightarrow> ch_poll rd wr room st)"

section \<open>Receiving frames\<close>

text \<open>
  What the transport relies on in its runtime: a read fills at most the room it is given, with the
  next bytes of the stream, and returns no bytes only without room or at the end of the stream.
  \<open>left io\<close> are the bytes still to come.
\<close>

definition byte_source :: "'io reader \<Rightarrow> ('io \<Rightarrow> bytes) \<Rightarrow> bool" where
  "byte_source rd left \<longleftrightarrow> (\<forall>io n. case rd io n of
       (io', Got bs) \<Rightarrow> left io = bs @ left io' \<and> length bs \<le> n \<and> (bs = [] \<longrightarrow> n = 0 \<or> left io = [])
     | (io', ReadNotReady) \<Rightarrow> left io' = left io
     | (io', ReadFailed) \<Rightarrow> False)"

lemma byte_sourceD:
  assumes "byte_source rd left" "rd io n = (io', a)"
  shows "a = Got bs \<Longrightarrow> left io = bs @ left io' \<and> length bs \<le> n \<and> (bs = [] \<longrightarrow> n = 0 \<or> left io = [])"
    and "a = ReadNotReady \<Longrightarrow> left io' = left io" and "a \<noteq> ReadFailed"
proof -
  have "case rd io n of
       (io', Got bs) \<Rightarrow> left io = bs @ left io' \<and> length bs \<le> n \<and> (bs = [] \<longrightarrow> n = 0 \<or> left io = [])
     | (io', ReadNotReady) \<Rightarrow> left io' = left io
     | (io', ReadFailed) \<Rightarrow> False"
    using assms(1) unfolding byte_source_def by (elim allE)
  then show "a = Got bs \<Longrightarrow> left io = bs @ left io' \<and> length bs \<le> n \<and> (bs = [] \<longrightarrow> n = 0 \<or> left io = [])"
    "a = ReadNotReady \<Longrightarrow> left io' = left io" "a \<noteq> ReadFailed"
    by (auto simp: assms(2))
qed

text \<open>A frame: at most \<open>DEFAULT_CAP\<close> bytes, the first two of which are its length.\<close>

definition frame :: "bytes \<Rightarrow> bool" where
  "frame f \<longleftrightarrow> 2 \<le> length f \<and> length f \<le> DEFAULT_CAP \<and> take 2 f = le16 (word_of_nat (length f))"

definition received :: "bytes \<Rightarrow> nat \<Rightarrow> rmessage" where
  "received f k = \<lparr>rm_buf = take k f,
     rm_cached_length = (if k < 2 then 0 else word_of_nat (length f)), rm_error = None\<rparr>"

lemma received_0 [simp]: "received f 0 = rmessage_new"
  by (simp add: received_def rmessage_new_def)

lemma frame_len:
  assumes "frame f"
  shows "2 \<le> length f" "unat (word_of_nat (length f) :: u16) = length f"
    "of_le16 (f ! 0) (f ! 1) = word_of_nat (length f)" "(word_of_nat (length f) :: u16) \<noteq> 0"
    "\<not> word_of_nat DEFAULT_CAP < (word_of_nat (length f) :: u16)"
proof -
  show two: "2 \<le> length f" using assms by (simp add: frame_def)
  show u: "unat (word_of_nat (length f) :: u16) = length f"
    using assms by (intro unat_of_nat_less) (simp add: frame_def DEFAULT_CAP_def)
  have "f ! 0 = take 2 f ! 0" "f ! 1 = take 2 f ! 1" using two by simp_all
  moreover have "take 2 f = le16 (word_of_nat (length f))" using assms by (simp add: frame_def)
  ultimately show "of_le16 (f ! 0) (f ! 1) = word_of_nat (length f)"
    by (simp only: le16_def nth_Cons_0 One_nat_def nth_Cons_Suc of_le16_inverse)
  show "(word_of_nat (length f) :: u16) \<noteq> 0" using u two by (metis unsigned_0 not_numeral_le_zero)
  show "\<not> word_of_nat DEFAULT_CAP < (word_of_nat (length f) :: u16)"
    using assms u by (simp add: frame_def word_less_nat_alt DEFAULT_CAP_def)
qed

definition room_at :: "bytes \<Rightarrow> nat \<Rightarrow> nat" where
  "room_at f k = (if k < 2 then 2 - k else length f - k)"

lemma remaining_received:
  "frame f \<Longrightarrow> k \<le> length f \<Longrightarrow> rm_remaining_mut (received f k) = Inr (room_at f k)"
  using frame_len [of f] by (auto simp: rm_remaining_mut_def received_def room_at_def HEAD_SIZE_def)

lemma advance_received:
  assumes "frame f" "k + j \<le> length f" "j \<le> room_at f k"
  shows "rm_advance_mut (received f k) (take j (drop k f)) = received f (k + j)"
proof (cases "k < 2 \<and> 2 \<le> k + j")
  case True
  then have "k + j = 2" using assms(3) by (auto simp: room_at_def)
  then show ?thesis
    using True assms(1,2) frame_len [of f]
    by (auto simp: rm_advance_mut_def received_def HEAD_SIZE_def take_add [symmetric] Let_def)
next
  case False
  then show ?thesis
    using assms frame_len [of f]
    by (auto simp: rm_advance_mut_def received_def HEAD_SIZE_def take_add [symmetric] Let_def)
qed

lemma completed_received:
  assumes "frame f" "k \<le> length f"
  shows "rm_is_completed (received f k) \<longleftrightarrow> k = length f"
proof -
  have "length f < 2 ^ LENGTH(16)" using assms(1) by (simp add: frame_def DEFAULT_CAP_def)
  then have "(word_of_nat (length f) :: u16) = word_of_nat k \<longleftrightarrow> length f = k"
    using assms(2) by (metis le_less_trans unat_of_nat_less)
  then show ?thesis
    using assms frame_len [of f]
    by (auto simp: rm_is_completed_def received_def word_greater_zero_iff)
qed

lemma room_at_pos: "frame f \<Longrightarrow> k < length f \<Longrightarrow> 0 < room_at f k \<and> k + room_at f k \<le> length f"
  using frame_len(1) [of f] by (auto simp: room_at_def)

text \<open>The transport holds \<open>k\<close> bytes of \<open>f\<close>; the tail and the stream hold \<open>rest\<close>.\<close>

definition lf_unread :: "('io \<Rightarrow> bytes) \<Rightarrow> 'io lws_framed \<Rightarrow> bytes" where
  "lf_unread left st = (case lf_tail st of None \<Rightarrow> [] | Some t \<Rightarrow> t) @ left (lf_io st)"

definition lf_holds :: "bytes \<Rightarrow> nat \<Rightarrow> 'io lws_framed \<Rightarrow> bool" where
  "lf_holds f k st \<longleftrightarrow> lf_reading st = Some (received f k) \<or> k = 0 \<and> lf_reading st = None"

lemma lf_holds_msg:
  "lf_holds f k st \<Longrightarrow> (case lf_reading st of None \<Rightarrow> rmessage_new | Some m \<Rightarrow> m) = received f k"
  by (auto simp: lf_holds_def)

definition lf_fuel :: "bytes \<Rightarrow> nat \<Rightarrow> 'io lws_framed \<Rightarrow> nat" where
  "lf_fuel f k st = (length f - k) + (if lf_tail st = None then 0 else 1)"

text \<open>The three ways a turn of the loop ends while \<open>f\<close> is incomplete.\<close>

inductive turn_ok :: "('io \<Rightarrow> bytes) \<Rightarrow> bytes \<Rightarrow> nat \<Rightarrow> bytes \<Rightarrow> 'io lws_framed \<Rightarrow>
    'io lws_framed \<Rightarrow> rmessage next_item option \<Rightarrow> bool"
  for left f k rest st where
  waits: "lf_holds f k st' \<Longrightarrow> lf_unread left st' = drop k f @ rest \<Longrightarrow> turn_ok left f k rest st st' (Some Pending)"
| moves: "lf_holds f k' st' \<Longrightarrow> k' < length f \<Longrightarrow> lf_unread left st' = drop k' f @ rest \<Longrightarrow>
    lf_fuel f k' st' < lf_fuel f k st \<Longrightarrow> turn_ok left f k rest st st' None"
| delivers: "lf_reading st' = None \<Longrightarrow> lf_unread left st' = rest \<Longrightarrow>
    turn_ok left f k rest st st' (Some (Ready (Some (Inr (received f (length f))))))"

lemma check_completed_ok:
  assumes f: "frame f" and k: "k + j \<le> length f" "j \<le> room_at f k"
    and un: "lf_unread left st1 = drop (k + j) f @ rest"
    and fuel: "k + j < length f \<Longrightarrow> lf_fuel f (k + j) st1 < lf_fuel f k st"
    and eq: "lf_check_completed st1 (received f (k + j)) = (st', r)"
  shows "turn_ok left f k rest st st' r"
proof (cases "k + j = length f")
  case True
  then have "rm_is_completed (received f (k + j))"
    using completed_received [OF f order.refl] by simp
  then have "st' = st1\<lparr>lf_reading := None\<rparr>" "r = Some (Ready (Some (Inr (received f (length f)))))"
    using eq True by (simp_all add: lf_check_completed_def received_def)
  then show ?thesis
    using un True by (auto intro!: turn_ok.delivers simp: lf_unread_def)
next
  case False
  then have "k + j < length f" using k by simp
  then have "st' = st1\<lparr>lf_reading := Some (received f (k + j))\<rparr>" "r = None"
    using eq completed_received [OF f k(1)] by (simp_all add: lf_check_completed_def)
  then show ?thesis
    using \<open>k + j < length f\<close> un fuel [OF \<open>k + j < length f\<close>]
    by (auto intro!: turn_ok.moves [of f "k + j"] simp: lf_holds_def lf_unread_def lf_fuel_def)
qed

text \<open>What both branches of a turn start from: the message so far, and the room it has.\<close>

lemma turn_start:
  assumes "frame f" "k < length f" "lf_holds f k st"
  shows "(case lf_reading st of None \<Rightarrow> rmessage_new | Some m \<Rightarrow> m) = received f k"
    "rm_remaining_mut (received f k) = Inr (room_at f k)" "0 < room_at f k" "k + room_at f k \<le> length f"
  using lf_holds_msg [OF assms(3)] remaining_received [of f k] room_at_pos [OF assms(1,2)] assms(1,2) by simp_all

lemma prefix_of_frame:
  assumes "bs @ r = drop k f @ rest" "j \<le> length bs" "k + j \<le> length f"
  shows "take j bs = take j (drop k f)" "drop j bs @ r = drop (k + j) f @ rest"
proof -
  have "take j (bs @ r) = take j (drop k f @ rest)" "drop j (bs @ r) = drop j (drop k f @ rest)" using assms(1) by simp_all
  then show "take j bs = take j (drop k f)" "drop j bs @ r = drop (k + j) f @ rest"
    using assms(2,3) by (simp_all add: add.commute)
qed

lemma poll_turn_tail:
  assumes f: "frame f" and k: "k < length f" and holds: "lf_holds f k st" and un: "lf_unread left st = drop k f @ rest"
    and Some: "lf_tail st = Some tail"
  shows "\<exists>st' r. lf_poll_turn rd st = Inr (st', r) \<and> turn_ok left f k rest st st' r"
proof -
  note start = turn_start [OF f k holds]
  define j where "j = min (length tail) (room_at f k)"
  have j: "k + j \<le> length f" "j \<le> room_at f k" "j \<le> length tail" using start by (simp_all add: j_def)
  have "tail @ left (lf_io st) = drop k f @ rest" using un Some by (simp add: lf_unread_def)
  note cut = prefix_of_frame [OF this j(3,1)]
  let ?st1 = "st\<lparr>lf_tail := if length (drop j tail) < 1 then None else Some (drop j tail)\<rparr>"
  have tail: "read_from_tail tail (received f k) = Inr (received f (k + j), drop j tail)"
    using cut(1) advance_received [OF f j(1,2)] start(2)
    by (simp add: read_from_tail_def j_def Let_def min_def split: if_splits)
  obtain st' r where c: "lf_check_completed ?st1 (received f (k + j)) = (st', r)" by fastforce
  have "lf_poll_turn rd st = Inr (st', r)"
    using c by (simp add: lf_poll_turn_def Let_def start(1) Some tail)
  moreover have "turn_ok left f k rest st st' r"
  proof (rule check_completed_ok [OF f j(1,2) _ _ c])
    show "lf_unread left ?st1 = drop (k + j) f @ rest" using cut(2) by (auto simp: lf_unread_def)
    show "lf_fuel f (k + j) ?st1 < lf_fuel f k st" if "k + j < length f"
      using that start(3) Some by (auto simp: lf_fuel_def j_def)
  qed
  ultimately show ?thesis by blast
qed

lemma poll_turn_socket:
  assumes src: "byte_source rd left" and f: "frame f" and k: "k < length f"
    and holds: "lf_holds f k st" and un: "lf_unread left st = drop k f @ rest" and None: "lf_tail st = None"
  shows "\<exists>st' r. lf_poll_turn rd st = Inr (st', r) \<and> turn_ok left f k rest st st' r"
proof -
  note start = turn_start [OF f k holds]
  have stream: "left (lf_io st) = drop k f @ rest" using un None by (simp add: lf_unread_def)
  obtain io a where rd: "rd (lf_io st) (room_at f k) = (io, a)" by fastforce
  note turn = lf_poll_turn_def poll_read_buf_def Let_def start(1,2) None rd
  show ?thesis
  proof (cases a)
    case (Got bs)
    have got: "left (lf_io st) = bs @ left io" "length bs \<le> room_at f k" "bs \<noteq> []"
      using byte_sourceD(1) [OF src rd Got] start(3) k stream by auto
    have j: "k + length bs \<le> length f" using start(4) got(2) by simp
    have "bs @ left io = drop k f @ rest" using got(1) stream by simp
    note cut = prefix_of_frame [OF this le_refl j]
    have adv: "rm_advance_mut (received f k) bs = received f (k + length bs)"
      using advance_received [OF f j got(2)] cut(1) by simp
    let ?st1 = "st\<lparr>lf_io := io, lf_reading := Some (received f (k + length bs))\<rparr>"
    obtain st' r where c: "lf_check_completed ?st1 (received f (k + length bs)) = (st', r)" by fastforce
    have "lf_poll_turn rd st = Inr (st', r)" using c got(3) Got adv by (simp add: turn)
    moreover have "turn_ok left f k rest st st' r"
    proof (rule check_completed_ok [OF f j got(2) _ _ c])
      show "lf_unread left ?st1 = drop (k + length bs) f @ rest" using cut(2) None by (simp add: lf_unread_def)
      show "lf_fuel f (k + length bs) ?st1 < lf_fuel f k st" if "k + length bs < length f"
        using that got(3) None by (cases bs) (simp_all add: lf_fuel_def)
    qed
    ultimately show ?thesis by blast
  next
    case ReadNotReady
    let ?st' = "st\<lparr>lf_io := io, lf_reading := Some (received f k)\<rparr>"
    have "lf_poll_turn rd st = Inr (?st', Some Pending)" using ReadNotReady by (simp add: turn)
    moreover have "turn_ok left f k rest st ?st' (Some Pending)"
      using byte_sourceD(2) [OF src rd ReadNotReady] stream None
      by (intro turn_ok.waits) (simp_all add: lf_holds_def lf_unread_def)
    ultimately show ?thesis by blast
  next
    case ReadFailed
    then show ?thesis using byte_sourceD(3) [OF src rd] by simp
  qed
qed

lemma poll_turn_ok:
  assumes "byte_source rd left" "frame f" "k < length f" "lf_holds f k st" "lf_unread left st = drop k f @ rest"
  shows "\<exists>st' r. lf_poll_turn rd st = Inr (st', r) \<and> turn_ok left f k rest st st' r"
  using poll_turn_tail [OF assms(2-5)] poll_turn_socket [OF assms] by (cases "lf_tail st") simp_all

lemma poll_next_frame:
  assumes src: "byte_source rd left" and f: "frame f"
  shows "k < length f \<Longrightarrow> lf_holds f k st \<Longrightarrow> lf_unread left st = drop k f @ rest \<Longrightarrow>
    \<exists>st' r. lf_poll_next rd st = Some (Inr (st', r)) \<and>
      (r = Pending \<and> (\<exists>k' < length f. lf_holds f k' st' \<and> lf_unread left st' = drop k' f @ rest)
       \<or> r = Ready (Some (Inr (received f (length f)))) \<and> lf_reading st' = None \<and> lf_unread left st' = rest)"
proof (induction "lf_fuel f k st" arbitrary: k st rule: less_induct)
  case less
  obtain st1 r where turn: "lf_poll_turn rd st = Inr (st1, r)" "turn_ok left f k rest st st1 r"
    using poll_turn_ok [OF src f less.prems] by blast
  from turn(2) show ?case
  proof cases
    case waits
    then show ?thesis using turn(1) less.prems(1) by (subst lf_poll_next.simps) auto
  next
    case (moves k')
    have "lf_poll_next rd st = lf_poll_next rd st1"
      using turn(1) moves(1) by (subst lf_poll_next.simps) simp
    then show ?thesis using less.hyps [of k' st1] moves by simp
  next
    case delivers
    then show ?thesis using turn(1) by (subst lf_poll_next.simps) auto
  qed
qed

text \<open>After the last frame the transport waits, or reports the end of the stream.\<close>

definition lf_drained :: "('io \<Rightarrow> bytes) \<Rightarrow> 'io lws_framed \<Rightarrow> bool" where
  "lf_drained left st \<longleftrightarrow> lf_holds [] 0 st \<and> lf_unread left st = []"

lemma rmessage_new_simps [simp]:
  "rm_remaining_mut rmessage_new = Inr 2" "rm_advance_mut rmessage_new [] = rmessage_new"
  "\<not> rm_is_completed rmessage_new"
  by (simp_all add: rm_remaining_mut_def rm_advance_mut_def rmessage_new_def rm_is_completed_def HEAD_SIZE_def)

lemma poll_next_no_tail:
  assumes src: "byte_source rd left" and fin: "lf_drained left st" and tail: "lf_tail st = None"
  shows "\<exists>st' r. lf_poll_next rd st = Some (Inr (st', r)) \<and> (r = Pending \<or> r = Ready None) \<and> lf_drained left st'"
proof -
  have msg: "(case lf_reading st of None \<Rightarrow> rmessage_new | Some m \<Rightarrow> m) = rmessage_new"
    using fin by (auto simp: lf_drained_def lf_holds_def)
  have left: "left (lf_io st) = []" using fin by (simp add: lf_drained_def lf_unread_def)
  obtain io a where rd: "rd (lf_io st) 2 = (io, a)" by fastforce
  have a: "a = Got [] \<and> left io = [] \<or> a = ReadNotReady \<and> left io = []"
    using byte_sourceD [OF src rd] left by (cases a) auto
  then show ?thesis
    using rd tail by (subst lf_poll_next.simps)
      (auto simp: lf_poll_turn_def msg poll_read_buf_def Let_def lf_drained_def lf_holds_def lf_unread_def)
qed

lemma poll_next_drained:
  assumes src: "byte_source rd left" and fin: "lf_drained left st"
  shows "\<exists>st' r. lf_poll_next rd st = Some (Inr (st', r)) \<and> (r = Pending \<or> r = Ready None) \<and> lf_drained left st'"
proof (cases "lf_tail st")
  case None
  then show ?thesis by (rule poll_next_no_tail [OF assms])
next
  case (Some t)
  have msg: "(case lf_reading st of None \<Rightarrow> rmessage_new | Some m \<Rightarrow> m) = rmessage_new"
    using fin by (auto simp: lf_drained_def lf_holds_def)
  let ?st = "st\<lparr>lf_tail := None, lf_reading := Some rmessage_new\<rparr>"
  have "lf_poll_turn rd st = Inr (?st, None)"
    using fin Some by (simp add: lf_drained_def lf_unread_def lf_poll_turn_def read_from_tail_def msg
        Let_def lf_check_completed_def)
  then have "lf_poll_next rd st = lf_poll_next rd ?st" by (subst lf_poll_next.simps) simp
  then show ?thesis
    using poll_next_no_tail [OF src, of ?st] fin by (auto simp: lf_drained_def lf_unread_def lf_holds_def)
qed

text \<open>A run of \<open>n\<close> polls, with what each answered.\<close>

fun lf_polls :: "'io reader \<Rightarrow> nat \<Rightarrow> 'io lws_framed \<Rightarrow> ('io lws_framed \<times> rmessage next_item list) option" where
  "lf_polls rd 0 st = Some (st, [])"
| "lf_polls rd (Suc n) st =
     (case lf_poll_next rd st of
        Some (Inr (st, r)) \<Rightarrow> map_option (\<lambda>(st, rs). (st, r # rs)) (lf_polls rd n st)
      | _ \<Rightarrow> None)"

abbreviation "delivery f \<equiv> Ready (Some (Inr (received f (length f))))"
abbreviation "answered rs \<equiv> filter (\<lambda>r. r \<noteq> Pending) rs"

definition lf_expects :: "('io \<Rightarrow> bytes) \<Rightarrow> bytes list \<Rightarrow> 'io lws_framed \<Rightarrow> bool" where
  "lf_expects left fs st \<longleftrightarrow> (case fs of
     [] \<Rightarrow> lf_drained left st
   | f # fs \<Rightarrow> (\<exists>k < length f. lf_holds f k st \<and> lf_unread left st = drop k f @ concat fs))"

lemma lf_expects_fresh:
  assumes "\<forall>f \<in> set fs. frame f" "lf_reading st = None" "lf_unread left st = concat fs"
  shows "lf_expects left fs st"
proof (cases fs)
  case Nil
  then show ?thesis using assms by (simp add: lf_expects_def lf_drained_def lf_holds_def)
next
  case (Cons f gs)
  then have "2 \<le> length f" using assms(1) frame_len(1) [of f] by simp
  then have "0 < length f" by linarith
  then show ?thesis using assms Cons by (auto simp: lf_expects_def lf_holds_def intro!: exI [of _ 0])
qed

lemma take_more_replicate:
  assumes "m \<le> n"
  shows "take m (xs @ replicate n x) = take m (xs @ replicate (Suc n) x)"
proof -
  have "m - length xs \<le> n" using assms by linarith
  then show ?thesis by (simp add: min_def del: replicate_Suc)
qed

text \<open>One poll waits, delivers the next frame, or reports the end after the last one.\<close>

lemma poll_expects:
  assumes src: "byte_source rd left" and fs: "\<forall>f \<in> set fs. frame f" and st: "lf_expects left fs st"
  shows "\<exists>st' r. lf_poll_next rd st = Some (Inr (st', r)) \<and>
    (r = Pending \<and> lf_expects left fs st' \<or>
     (case fs of [] \<Rightarrow> r = Ready None \<and> lf_expects left [] st' | f # gs \<Rightarrow> r = delivery f \<and> lf_expects left gs st'))"
proof (cases fs)
  case Nil
  then show ?thesis using poll_next_drained [OF src] st by (fastforce simp: lf_expects_def)
next
  case (Cons f gs)
  then obtain k where k: "k < length f" "lf_holds f k st" "lf_unread left st = drop k f @ concat gs"
    using st by (auto simp: lf_expects_def)
  have f: "frame f" "\<forall>f \<in> set gs. frame f" using fs Cons by simp_all
  obtain st1 r where p: "lf_poll_next rd st = Some (Inr (st1, r))" and
    r: "r = Pending \<and> (\<exists>k' < length f. lf_holds f k' st1 \<and> lf_unread left st1 = drop k' f @ concat gs)
     \<or> r = delivery f \<and> lf_reading st1 = None \<and> lf_unread left st1 = concat gs"
    using poll_next_frame [OF src f(1) k] by blast
  from r show ?thesis
  proof
    assume "r = Pending \<and> (\<exists>k' < length f. lf_holds f k' st1 \<and> lf_unread left st1 = drop k' f @ concat gs)"
    then show ?thesis using p Cons by (simp add: lf_expects_def)
  next
    assume "r = delivery f \<and> lf_reading st1 = None \<and> lf_unread left st1 = concat gs"
    then show ?thesis using p Cons f(2) lf_expects_fresh [of gs st1 left] by simp
  qed
qed

lemma polls_deliver:
  assumes src: "byte_source rd left"
  shows "\<forall>f \<in> set fs. frame f \<Longrightarrow> lf_expects left fs st \<Longrightarrow>
    \<exists>st' rs. lf_polls rd n st = Some (st', rs) \<and> length rs = n \<and>
      answered rs = take (length (answered rs)) (map delivery fs @ replicate n (Ready None))"
proof (induction n arbitrary: fs st)
  case (Suc n)
  obtain st1 r where p: "lf_poll_next rd st = Some (Inr (st1, r))"
    and r: "r = Pending \<and> lf_expects left fs st1 \<or>
      (case fs of [] \<Rightarrow> r = Ready None \<and> lf_expects left [] st1 | f # gs \<Rightarrow> r = delivery f \<and> lf_expects left gs st1)"
    using poll_expects [OF src Suc.prems] by blast
  obtain gs where gs: "lf_expects left gs st1" "\<forall>f \<in> set gs. frame f"
    "r = Pending \<and> gs = fs \<or> fs = [] \<and> gs = [] \<and> r = Ready None \<or> (\<exists>f. fs = f # gs \<and> r = delivery f)"
    using r Suc.prems(1) by (cases fs) auto
  obtain st2 rs where n: "lf_polls rd n st1 = Some (st2, rs)" "length rs = n"
    "answered rs = take (length (answered rs)) (map delivery gs @ replicate n (Ready None))"
    using Suc.IH [OF gs(2,1)] by blast
  have le: "length (answered rs) \<le> n" using n(2) length_filter_le by blast
  have m: "answered rs = take (length (answered rs)) (map delivery gs @ replicate (Suc n) (Ready None))"
    by (rule trans [OF n(3) take_more_replicate [OF le]])
  from gs(3) show ?case
  proof (elim disjE conjE exE)
    assume "r = Pending" "gs = fs"
    then show ?case using p n(1,2) m by (simp del: replicate_Suc)
  next
    assume "fs = []" "gs = []" "r = Ready None"
    then show ?case using p n by simp
  next
    fix f assume "fs = f # gs" "r = delivery f"
    then show ?case using p n(1,2) m by (simp del: replicate_Suc)
  qed
qed simp

section \<open>Sending\<close>

text \<open>
  The runtime's side of writing: a write takes a part of what it is offered, not nothing. \<open>out io\<close>
  are the bytes sent so far.
\<close>

definition byte_sink :: "'io writer \<Rightarrow> ('io \<Rightarrow> bytes) \<Rightarrow> bool" where
  "byte_sink wr out \<longleftrightarrow> (\<forall>io bs. case wr io bs of
       (io', Wrote k) \<Rightarrow> out io' = out io @ take k bs \<and> k \<le> length bs \<and> (bs \<noteq> [] \<longrightarrow> 0 < k)
     | (io', _) \<Rightarrow> out io' = out io)"

lemma byte_sinkD:
  assumes "byte_sink wr out" "wr io bs = (io', a)"
  shows "a = Wrote k \<Longrightarrow> out io' = out io @ take k bs \<and> k \<le> length bs \<and> (bs \<noteq> [] \<longrightarrow> 0 < k)"
    and "a = WriteNotReady \<or> a = WriteFailed \<Longrightarrow> out io' = out io"
proof -
  have "case wr io bs of
       (io', Wrote k) \<Rightarrow> out io' = out io @ take k bs \<and> k \<le> length bs \<and> (bs \<noteq> [] \<longrightarrow> 0 < k)
     | (io', _) \<Rightarrow> out io' = out io"
    using assms(1) unfolding byte_sink_def by (elim allE)
  then show "a = Wrote k \<Longrightarrow> out io' = out io @ take k bs \<and> k \<le> length bs \<and> (bs \<noteq> [] \<longrightarrow> 0 < k)"
    "a = WriteNotReady \<or> a = WriteFailed \<Longrightarrow> out io' = out io"
    by (auto simp: assms(2))
qed

definition wm_good :: "wmessage \<Rightarrow> bool" where
  "wm_good m \<longleftrightarrow> length (wm_buf m) < 2 ^ 16 \<and> unat (wm_cursor m) \<le> length (wm_buf m)"

definition wm_unsent :: "wmessage \<Rightarrow> bytes" where
  "wm_unsent m = drop (unat (wm_cursor m)) (wm_buf m)"

lemma wm_completed_iff: "wm_good m \<Longrightarrow> wm_is_completed m \<longleftrightarrow> wm_unsent m = []"
proof -
  assume g: "wm_good m"
  then have "unat (word_of_nat (length (wm_buf m)) :: u16) = length (wm_buf m)"
    by (intro unat_of_nat_less) (simp add: wm_good_def)
  then show ?thesis using g by (auto simp: wm_is_completed_def wm_unsent_def wm_good_def word_unat_eq_iff)
qed

lemma wm_advance_good:
  assumes "wm_good m" "k \<le> length (wm_unsent m)"
  shows "wm_good (wm_advance m k)" "wm_unsent (wm_advance m k) = drop k (wm_unsent m)"
    "wm_buf (wm_advance m k) = wm_buf m"
proof -
  have le: "unat (wm_cursor m) + k \<le> length (wm_buf m)" using assms by (auto simp: wm_good_def wm_unsent_def)
  then have "unat (wm_cursor m) + k < 2 ^ LENGTH(16)" using assms(1) by (simp add: wm_good_def)
  moreover from this have "unat (word_of_nat k :: u16) = k" by (intro unat_of_nat_less) simp
  ultimately have "unat (wm_cursor m + word_of_nat k) = unat (wm_cursor m) + k"
    by (subst unat_add_lem [THEN iffD1]) simp_all
  then show "wm_good (wm_advance m k)" "wm_unsent (wm_advance m k) = drop k (wm_unsent m)"
    "wm_buf (wm_advance m k) = wm_buf m"
    using assms(1) le by (simp_all add: wm_good_def wm_advance_def wm_unsent_def add.commute)
qed

lemma poll_write_unfold:
  assumes "wm_good m"
  shows "poll_write_buf wr io m =
    (if wm_unsent m = [] then Inr (io, m, Ready (Inr 0))
     else case wr io (wm_unsent m) of
       (io, Wrote k) \<Rightarrow> Inr (io, wm_advance m k, Ready (Inr k))
     | (io, WriteNotReady) \<Rightarrow> Inr (io, m, Pending)
     | (io, WriteFailed) \<Rightarrow> Inr (io, m, Ready (Inl IoError)))"
  using assms by (auto simp: poll_write_buf_def wm_good_def wm_remaining_def wm_bytes_def wm_unsent_def)

text \<open>How a write loop ends: everything is sent, or what is not sent yet stays in the message.\<close>

definition write_ok :: "('io \<Rightarrow> bytes) \<Rightarrow> 'io \<Rightarrow> wmessage \<Rightarrow> 'io \<Rightarrow> wmessage \<Rightarrow> unit res poll \<Rightarrow> bool" where
  "write_ok out io m io' m' r \<longleftrightarrow> wm_good m' \<and> wm_buf m' = wm_buf m
     \<and> out io' @ wm_unsent m' = out io @ wm_unsent m \<and> (wm_unsent m' = [] \<longleftrightarrow> r = Ready (Inr ()))"

lemma write_out_ok:
  assumes sink: "byte_sink wr out"
  shows "wm_good m \<Longrightarrow> \<exists>io' m' r. write_out wr io m = Some (Inr (io', m', r)) \<and> write_ok out io m io' m' r"
proof (induction "length (wm_unsent m)" arbitrary: io m rule: less_induct)
  case less
  show ?case
  proof (cases "wm_unsent m = []")
    case True
    then show ?thesis using less.prems
      by (subst write_out.simps) (simp add: poll_write_unfold wm_completed_iff write_ok_def)
  next
    case False
    obtain io1 a where wr: "wr io (wm_unsent m) = (io1, a)" by fastforce
    show ?thesis
    proof (cases a)
      case (Wrote k)
      have k: "out io1 = out io @ take k (wm_unsent m)" "k \<le> length (wm_unsent m)" "0 < k"
        using byte_sinkD(1) [OF sink wr Wrote] False by simp_all
      note adv = wm_advance_good [OF less.prems k(2)]
      have shorter: "length (wm_unsent (wm_advance m k)) < length (wm_unsent m)"
        using adv(2) k False by simp
      have joined: "out io1 @ wm_unsent (wm_advance m k) = out io @ wm_unsent m" using k(1) adv(2) by simp
      show ?thesis
      proof (cases "wm_unsent (wm_advance m k) = []")
        case True
        then have "write_out wr io m = Some (Inr (io1, wm_advance m k, Ready (Inr ())))"
          using wr Wrote False less.prems adv(1)
          by (subst write_out.simps) (simp add: poll_write_unfold wm_completed_iff)
        then show ?thesis using adv joined True by (simp add: write_ok_def)
      next
        case unsent: False
        then have "write_out wr io m = write_out wr io1 (wm_advance m k)"
          using wr Wrote False less.prems adv(1)
          by (subst write_out.simps) (simp add: poll_write_unfold wm_completed_iff)
        then show ?thesis
          using less.hyps [OF shorter adv(1), of io1] adv(3) joined by (auto simp: write_ok_def)
      qed
    next
      case WriteNotReady
      then show ?thesis using wr False less.prems byte_sinkD(2) [OF sink wr]
        by (subst write_out.simps) (simp add: poll_write_unfold write_ok_def)
    next
      case WriteFailed
      then show ?thesis using wr False less.prems byte_sinkD(2) [OF sink wr]
        by (subst write_out.simps) (simp add: poll_write_unfold write_ok_def)
    qed
  qed
qed

section \<open>The handshake loses nothing\<close>

lemma find_window_prefix:
  "find_window needle xs = Some p \<Longrightarrow> find_window needle (xs @ ys) = Some p"
proof (induction xs arbitrary: p)
  case (Cons x xs)
  have pre: "take (length needle) (x # xs @ ys) = take (length needle) (x # xs)"
    if "\<not> length (x # xs) < length needle"
    using that take_append [of "length needle" "x # xs" ys] by simp
  show ?case
  proof (cases "take (length needle) (x # xs) = needle \<and> length needle \<le> length (x # xs)")
    case True
    then show ?thesis using pre Cons.prems by (auto split: if_splits)
  next
    case False
    then have "\<not> length (x # xs) < length needle" "find_window needle xs \<noteq> None"
      using Cons.prems by (auto split: if_splits)
    then show ?thesis using Cons False pre by (auto split: if_splits)
  qed
qed simp

lemma find_window_fits: "find_window needle xs = Some p \<Longrightarrow> p + length needle \<le> length xs"
  by (induction xs arbitrary: p) (auto split: if_splits)

text \<open>\<open>head\<close> is the first response header in the stream, what follows it is \<open>rest\<close>.\<close>

definition ch_stream :: "('io \<Rightarrow> bytes) \<Rightarrow> bytes \<Rightarrow> bytes \<Rightarrow> 'io chandshake \<Rightarrow> bool" where
  "ch_stream left head rest st \<longleftrightarrow>
     (case ch_io st of None \<Rightarrow> True
      | Some io \<Rightarrow> if ch_state st = HandshakeDone then ch_read_buf st @ left io = rest
                  else ch_read_buf st @ left io = head @ crlf @ crlf @ rest)"

lemma poll_write_buf_left:
  assumes wr: "\<And>io bs. left (fst (wr io bs)) = left io" and written: "poll_write_buf wr io m = Inr (io', m', p)"
  shows "left io' = left io"
proof -
  obtain n where n: "wm_remaining m = Inr n" using written by (auto simp: poll_write_buf_def and_then_Inr_iff)
  show ?thesis
  proof (cases "n = 0")
    case False
    then obtain bs where bs: "wm_bytes m = Inr bs"
      using written n by (auto simp: poll_write_buf_def and_then_Inr_iff)
    obtain io2 a where a: "wr io bs = (io2, a)" by fastforce
    then have "left io2 = left io" using wr [of io bs] by simp
    then show ?thesis using written n False bs a by (cases a) (auto simp: poll_write_buf_def)
  qed (use written n in \<open>simp add: poll_write_buf_def\<close>)
qed

lemma ch_turn_stream:
  assumes src: "byte_source rd left" and wr: "\<And>io bs. left (fst (wr io bs)) = left io"
    and first: "find_window (crlf @ crlf) (head @ crlf @ crlf @ rest) = Some (length head)"
    and st: "ch_stream left head rest st" and turn: "ch_turn rd wr room st = Inr (st', r)"
  shows "(\<forall>io vv. r = Some (Ready (Inr (io, vv))) \<longrightarrow> (case vv of None \<Rightarrow> [] | Some t \<Rightarrow> t) @ left io = rest)
       \<and> (r = None \<or> r = Some Pending \<longrightarrow> ch_stream left head rest st')"
proof (cases "ch_io st")
  case None
  then show ?thesis using turn by (auto simp: ch_turn_def split: ch_state.splits if_splits)
next
  case io: (Some io)
  show ?thesis
  proof (cases "ch_state st")
    case WritingHeader
    obtain io1 m1 p where w: "poll_write_buf wr io (ch_wmsg st) = Inr (io1, m1, p)"
      using turn io WritingHeader by (auto simp: ch_turn_def and_then_Inr_iff)
    show ?thesis
      using turn io st WritingHeader w poll_write_buf_left [OF wr w]
      by (auto simp: ch_turn_def ch_stream_def Let_def split: poll.splits sum.splits if_splits)
  next
    case HandshakeDone
    then show ?thesis
      using turn io st by (auto simp: ch_turn_def and_then_Inr_iff ch_stream_def Let_def split: if_splits)
  next
    case ReadingResponse
    have stream: "ch_read_buf st @ left io = head @ crlf @ crlf @ rest"
      using st io ReadingResponse by (simp add: ch_stream_def)
    obtain io1 a where rd: "rd io (room (ch_read_buf st)) = (io1, a)" by fastforce
    show ?thesis
    proof (cases a)
      case (Got bs)
      let ?b = "ch_read_buf st @ bs"
      have left: "?b @ left io1 = head @ crlf @ crlf @ rest"
        using byte_sourceD(1) [OF src rd Got] stream by simp
      show ?thesis
      proof (cases "find_window (crlf @ crlf) ?b")
        case None
        then show ?thesis using turn io ReadingResponse rd Got left
          by (auto simp: ch_turn_def poll_read_buf_def ch_parse_response_def ch_stream_def Let_def split: if_splits)
      next
        case (Some p)
        then have "find_window (crlf @ crlf) (?b @ left io1) = Some p" by (rule find_window_prefix)
        then have p: "p = length head" using first left by simp
        have long: "p + 4 \<le> length ?b" using find_window_fits [OF Some] by (simp add: crlf_def)
        then have "drop (p + 4) ?b @ left io1 = rest"
          using arg_cong [OF left, of "drop (p + 4)"] p by (simp add: crlf_def)
        then show ?thesis using turn io ReadingResponse rd Got Some
          by (auto simp: ch_turn_def poll_read_buf_def ch_parse_response_def ch_stream_def Let_def split: if_splits)
      qed
    qed (use turn io ReadingResponse rd stream byte_sourceD(2,3) [OF src rd] in
          \<open>auto simp: ch_turn_def poll_read_buf_def ch_stream_def Let_def split: if_splits\<close>)
  qed
qed

lemma ch_poll_keeps:
  assumes src: "byte_source rd left" and wr: "\<And>io bs. left (fst (wr io bs)) = left io"
    and first: "find_window (crlf @ crlf) (head @ crlf @ crlf @ rest) = Some (length head)"
    and poll: "ch_poll rd wr room st = Some (Inr (st', r))"
    and st: "ch_stream left head rest st"
  shows "(r = Pending \<longrightarrow> ch_stream left head rest st') \<and>
    (\<forall>io vv. r = Ready (Inr (io, vv)) \<longrightarrow> (case vv of None \<Rightarrow> [] | Some t \<Rightarrow> t) @ left io = rest)"
proof -
  define P where "P rd wr room st z \<longleftrightarrow> byte_source rd left \<longrightarrow> (\<forall>io bs. left (fst (wr io bs)) = left io) \<longrightarrow>
      ch_stream left head rest st \<longrightarrow> (\<forall>st' r. z = Inr (st', r) \<longrightarrow> (r = Pending \<longrightarrow> ch_stream left head rest st') \<and>
      (\<forall>io vv. r = Ready (Inr (io, vv)) \<longrightarrow> (case vv of None \<Rightarrow> [] | Some t \<Rightarrow> t) @ left io = rest))"
    for rd :: "'a reader" and wr :: "'a writer" and room :: "bytes \<Rightarrow> nat" and st
      and z :: "('a chandshake \<times> 'a hs_result) res"
  have "P rd wr room st (Inr (st', r))"
  proof (rule ch_poll.raw_induct [OF _ poll])
    fix self rd wr room st z
    assume IH: "\<And>rd wr room st z. self rd wr room st = Some z \<Longrightarrow> P rd wr room st z"
      and body: "(case ch_turn rd wr room st of Inl e \<Rightarrow> Some (Inl e)
        | Inr (st, None) \<Rightarrow> self rd wr room st | Inr (st, Some r) \<Rightarrow> Some (Inr (st, r))) = Some z"
    show "P rd wr room st z"
    proof (cases "ch_turn rd wr room st")
      case (Inr p)
      obtain st1 r1 where p: "p = (st1, r1)" by fastforce
      show ?thesis
      proof (cases r1)
        case None
        then have "self rd wr room st1 = Some z" using body Inr p by simp
        then have "P rd wr room st1 z" by (rule IH)
        then show ?thesis unfolding P_def
          using ch_turn_stream [OF _ _ first _ Inr [unfolded p]] None by blast
      next
        case (Some r2)
        then have "z = Inr (st1, r2)" using body Inr p by simp
        then show ?thesis unfolding P_def
          using ch_turn_stream [OF _ _ first _ Inr [unfolded p]] Some by blast
      qed
    qed (use body in \<open>auto simp: P_def\<close>)
  qed
  then show ?thesis using src wr st unfolding P_def by blast
qed

section \<open>Properties\<close>

text \<open>A transport of the examples: the chunks that will arrive, an empty one where nothing is ready.\<close>

definition chunk_rd :: "bytes list reader" where
  "chunk_rd io n = (case io of [] \<Rightarrow> ([], Got []) | c # cs \<Rightarrow>
     if c = [] then (cs, ReadNotReady)
     else if n < length c then (drop n c # cs, Got (take n c)) else (cs, Got c))"

lemma chunk_source: "byte_source chunk_rd concat"
  unfolding byte_source_def chunk_rd_def by (auto split: list.splits)

text \<open>
  Whatever pieces a stream of frames arrives in, over the handshake's tail and any number of
  reads and pending polls, every poll returns, none panics, and the frames come out whole, once and
  in order, followed by the end of the stream.
\<close>

theorem frames_received:
  assumes "byte_source rd left" "\<forall>f \<in> set fs. frame f"
    "(case tail of None \<Rightarrow> [] | Some t \<Rightarrow> t) @ left io = concat fs"
  shows "\<exists>st rs. lf_polls rd n (lws_framed_new io tail) = Some (st, rs) \<and> length rs = n \<and>
    filter (\<lambda>r. r \<noteq> Pending) rs = take (length (filter (\<lambda>r. r \<noteq> Pending) rs))
      (map (\<lambda>f. Ready (Some (Inr (received f (length f))))) fs @ replicate n (Ready None))"
proof -
  have "lf_expects left fs (lws_framed_new io tail)"
    using assms by (intro lf_expects_fresh) (simp_all add: lws_framed_new_def lf_unread_def)
  then show ?thesis using polls_deliver [OF assms(1,2)] by blast
qed

lemma frames_received_witness:
  "\<exists>st rs. lf_polls chunk_rd 7 (lws_framed_new [[0, 7, 4], [], [0, 8, 9]] (Some [3])) = Some (st, rs) \<and> length rs = 7 \<and>
    filter (\<lambda>r. r \<noteq> Pending) rs = take (length (filter (\<lambda>r. r \<noteq> Pending) rs))
      (map (\<lambda>f. Ready (Some (Inr (received f (length f))))) [[3, 0, 7], [4, 0, 8, 9]] @ replicate 7 (Ready None))"
  by (rule frames_received [OF chunk_source])
    (simp_all add: frame_def DEFAULT_CAP_def le16_def)

text \<open>
  A frame length of 0 or above the capacity ends the stream with an error; a length of 1, shorter
  than the header itself, is accepted and the next turn subtracts below zero.
\<close>

theorem bad_frame_length:
  assumes "unat h < 2 \<or> DEFAULT_CAP < unat h"
  shows "lf_poll_next rd (lws_framed_new io (Some (le16 h @ rest))) =
    (if h = 1 then Some (Inl Underflow)
     else Some (Inr (\<lparr>lf_io = io, lf_reading = Some \<lparr>rm_buf = le16 h, rm_cached_length = h, rm_error = None\<rparr>,
       lf_writing = None, lf_tail = (if rest = [] then None else Some rest), lf_has_finished = True\<rparr>,
       Ready (Some (Inl BadFrameLength)))))"
proof -
  let ?err = "if h = 1 then None else Some BadFrameLength"
  have one: "h = 0 \<or> word_of_nat DEFAULT_CAP < h \<longleftrightarrow> h \<noteq> 1"
  proof -
    have "h = 0 \<longleftrightarrow> unat h = 0" "h = 1 \<longleftrightarrow> unat h = 1" by (simp_all add: word_unat_eq_iff)
    moreover have "word_of_nat DEFAULT_CAP < h \<longleftrightarrow> DEFAULT_CAP < unat h"
      by (simp add: word_less_nat_alt DEFAULT_CAP_def)
    ultimately show ?thesis using assms by (auto simp: DEFAULT_CAP_def)
  qed
  have head: "rm_advance_mut rmessage_new (le16 h) = \<lparr>rm_buf = le16 h, rm_cached_length = h, rm_error = ?err\<rparr>"
    using one by (auto simp: rm_advance_mut_def rmessage_new_def HEAD_SIZE_def le16_def Let_def)
  have tail: "read_from_tail (le16 h @ rest) rmessage_new =
      Inr (\<lparr>rm_buf = le16 h, rm_cached_length = h, rm_error = ?err\<rparr>, rest)"
    using head by (simp add: read_from_tail_def)
  show ?thesis
  proof (cases "h = 1")
    case True
    let ?m = "\<lparr>rm_buf = le16 1, rm_cached_length = 1, rm_error = None\<rparr>"
    have "lf_poll_turn rd (lws_framed_new io (Some (le16 h @ rest)))
        = Inr ((lws_framed_new io (if rest = [] then None else Some rest))\<lparr>lf_reading := Some ?m\<rparr>, None)"
      using tail True by (cases rest)
        (simp_all add: lf_poll_turn_def lws_framed_new_def lf_check_completed_def rm_is_completed_def)
    moreover have "lf_poll_turn rd ((lws_framed_new io t)\<lparr>lf_reading := Some ?m\<rparr>) = Inl Underflow" for t
      by (cases t) (simp_all add: lf_poll_turn_def lws_framed_new_def read_from_tail_def poll_read_buf_def
          rm_remaining_mut_def HEAD_SIZE_def)
    moreover have "lf_poll_next rd s = Some (Inl Underflow)" if "lf_poll_turn rd s = Inl Underflow" for s
      using that by (subst lf_poll_next.simps) simp
    ultimately show ?thesis using True by (subst lf_poll_next.simps) simp
  next
    case False
    then show ?thesis using tail by (subst lf_poll_next.simps)
      (auto simp: lf_poll_turn_def lws_framed_new_def lf_check_completed_def rm_is_completed_def Let_def Suc_le_eq)
  qed
qed

lemma bad_frame_length_witness:
  "lf_poll_next chunk_rd (lws_framed_new [] (Some (le16 1 @ [9]))) = Some (Inl Underflow)"
  by (subst bad_frame_length) simp_all




text \<open>A runtime that takes at most three bytes at a time.\<close>

definition three_wr :: "bytes writer" where
  "three_wr io bs = (io @ take 3 bs, Wrote (length (take 3 bs)))"


text \<open>
  When the handshake succeeds on a response header followed by frames, the transport built from
  its result still has all of the frames, whether their first bytes came with the header or later,
  and delivers them.
\<close>

theorem handshake_then_frames:
  assumes "byte_source rd left" "\<And>io bs. left (fst (wr io bs)) = left io"
    and "left io = head @ crlf @ crlf @ concat fs" "\<forall>f \<in> set fs. frame f"
    and "find_window (crlf @ crlf) (head @ crlf @ crlf @ concat fs) = Some (length head)"
    and "ch_poll rd wr room (do_client_handshake key io host pth) = Some (Inr (st, Ready (Inr (io', tail))))"
  shows "\<exists>st rs. lf_polls rd n (lws_framed_new io' tail) = Some (st, rs) \<and> length rs = n \<and>
    filter (\<lambda>r. r \<noteq> Pending) rs = take (length (filter (\<lambda>r. r \<noteq> Pending) rs))
      (map (\<lambda>f. Ready (Some (Inr (received f (length f))))) fs @ replicate n (Ready None))"
proof -
  have "ch_stream left head (concat fs) (do_client_handshake key io host pth)"
    using assms(3) by (simp add: ch_stream_def do_client_handshake_def Let_def)
  then have "(case tail of None \<Rightarrow> [] | Some t \<Rightarrow> t) @ left io' = concat fs"
    using ch_poll_keeps [OF assms(1,2,5,6)] by blast
  then have "lf_expects left fs (lws_framed_new io' tail)"
    using assms(4) by (intro lf_expects_fresh) (simp_all add: lws_framed_new_def lf_unread_def)
  then show ?thesis using polls_deliver [OF assms(1,4)] by blast
qed

text \<open>A peer that answers in three pieces, the second and third of which hold a frame.\<close>

definition accept_wr :: "bytes list writer" where
  "accept_wr io bs = (io, Wrote (length bs))"

definition hs_peer :: "bytes \<Rightarrow> bytes list" where
  "hs_peer c = [[72, 13, 10, 13], [10, 3], c]"

lemma length_lit [simp]: "length (lit s) = length s"
  by (simp add: lit_def)

lemma hs_example:
  "ch_poll chunk_rd accept_wr (\<lambda>_. 64) (do_client_handshake [75] (hs_peer c) [104] [47])
   = Some (Inr (\<lparr>ch_io = None, ch_read_buf = [3],
        ch_wmsg = wm_advance (ch_wmsg (do_client_handshake [75] (hs_peer c) [104] [47]))
                    (length (wm_buf (ch_wmsg (do_client_handshake [75] (hs_peer c) [104] [47])))),
        ch_state = HandshakeDone\<rparr>, Ready (Inr ([c], Some [3]))))"
  by (subst ch_poll.simps; simp add: ch_turn_def do_client_handshake_def poll_write_buf_def wm_remaining_def
      wm_bytes_def wmessage_new_def accept_wr_def wm_advance_def wm_is_completed_def crlf_def Let_def
      hs_peer_def poll_read_buf_def chunk_rd_def ch_parse_response_def)+

lemma handshake_then_frames_witness:
  "\<exists>st rs. lf_polls chunk_rd 4 (lws_framed_new [[0, 7]] (Some [3])) = Some (st, rs) \<and> length rs = 4 \<and>
    filter (\<lambda>r. r \<noteq> Pending) rs = take (length (filter (\<lambda>r. r \<noteq> Pending) rs))
      (map (\<lambda>f. Ready (Some (Inr (received f (length f))))) [[3, 0, 7]] @ replicate 4 (Ready None))"
  by (rule handshake_then_frames [OF chunk_source _ _ _ _ hs_example, where head = "[72]"])
    (simp_all add: accept_wr_def hs_peer_def crlf_def frame_def DEFAULT_CAP_def le16_def)

text \<open>
  A chunk read from a proxied TCP stream is the next bytes of the stream, at least one, behind
  seven spare bytes for the tunnel's header, and the message stays within the capacity, so that the
  frame made of it has a length its receiver accepts.
\<close>

theorem tcp_chunk_received:
  assumes "byte_source rd left" "tf_reading st = None"
    "tf_poll_next rd st = Inr (st', Ready (Some (Inr msg)))"
  shows "\<exists>bs. tm_buf msg = replicate 7 0 @ bs \<and> bs \<noteq> [] \<and> length (tm_buf msg) \<le> DEFAULT_CAP \<and>
    left (tf_io st) = bs @ left (tf_io st') \<and> tf_reading st' = None"
proof -
  have room: "tm_remaining_mut tmessage_new = Inr 8089"
    by (simp add: tm_remaining_mut_def tmessage_new_def TMESSAGE_KEEP_def DEFAULT_CAP_def)
  obtain io a where rd: "rd (tf_io st) 8089 = (io, a)" by fastforce
  then obtain bs where a: "a = Got bs" "bs \<noteq> []" "st' = st\<lparr>tf_io := io, tf_reading := None\<rparr>"
    "msg = tm_advance_mut tmessage_new bs"
    using assms(2,3) room
    by (cases a) (auto simp: tf_poll_next_def poll_read_buf_def Let_def split: if_splits)
  then show ?thesis
    using byte_sourceD(1) [OF assms(1) rd a(1)]
    by (auto simp: tm_advance_mut_def tmessage_new_def TMESSAGE_KEEP_def DEFAULT_CAP_def)
qed

lemma tcp_chunk_received_witness:
  "\<exists>bs. tm_buf (tm_advance_mut tmessage_new [1, 2]) = replicate 7 0 @ bs \<and> bs \<noteq> [] \<and>
    length (tm_buf (tm_advance_mut tmessage_new [1, 2])) \<le> DEFAULT_CAP \<and>
    concat (tf_io (tcp_framed_new [[1, 2], [3]])) = bs @ concat (tf_io (tcp_framed_new [[3]])) \<and>
    tf_reading (tcp_framed_new [[3 :: u8]]) = None"
  by (rule tcp_chunk_received [OF chunk_source, of "tcp_framed_new [[1, 2], [3]]"])
    (simp_all add: tcp_framed_new_def tf_poll_next_def poll_read_buf_def chunk_rd_def Let_def
      tm_remaining_mut_def tmessage_new_def TMESSAGE_KEEP_def DEFAULT_CAP_def)

end
