(* ===== verification/Tun_Wire.thy ===== *)
theory Tun_Wire imports Net_Addr Lws_Framed begin

text \<open>
  The tunnel protocol's messages: \<^verbatim>\<open>src/tunnels/theader.rs\<close>, \<^verbatim>\<open>src/tunnels/tunstub.rs\<close>, the message
  builders of \<^verbatim>\<open>src/tunnels/tunnel.rs\<close> and \<^verbatim>\<open>src/tunnels/reqserv.rs\<close>, and the channels they are sent
  through.
\<close>

section \<open>Channels\<close>

text \<open>
  An \<^verbatim>\<open>UnboundedSender\<close> is the identity of its channel. \<open>alive\<close>, a parameter, says which channels
  still have their receiver: \<^verbatim>\<open>send\<close> fails on the others. What an operation sends or does to a socket
  is the list of its effects.
\<close>

type_synonym chan = nat

datatype effect =
    Sent chan wmessage
  | SentUdp chan bytes socket_addr socket_addr
  | ShutdownFd nat

definition tx_send :: "(chan \<Rightarrow> bool) \<Rightarrow> chan \<Rightarrow> wmessage \<Rightarrow> effect list \<times> bool" where
  "tx_send alive tx m = (if alive tx then ([Sent tx m], True) else ([], False))"

section \<open>Commands and headers\<close>

definition THEADER_SIZE :: nat where "THEADER_SIZE = 4"

datatype cmd =
    CmdNone
  | ReqData
  | ReqCreated
  | ReqClientClosed
  | ReqClientFinished
  | ReqServerFinished
  | ReqServerClosed
  | ReqClientQuota
  | Ping
  | Pong
  | UdpX

fun cmd_code :: "cmd \<Rightarrow> u8" where
  "cmd_code CmdNone = 0"
| "cmd_code ReqData = 1"
| "cmd_code ReqCreated = 2"
| "cmd_code ReqClientClosed = 3"
| "cmd_code ReqClientFinished = 4"
| "cmd_code ReqServerFinished = 5"
| "cmd_code ReqServerClosed = 6"
| "cmd_code ReqClientQuota = 7"
| "cmd_code Ping = 8"
| "cmd_code Pong = 9"
| "cmd_code UdpX = 10"

definition cmd_from :: "u8 \<Rightarrow> cmd res" where
  "cmd_from v =
     (if v = 0 then Inr CmdNone
      else if v = 1 then Inr ReqData
      else if v = 2 then Inr ReqCreated
      else if v = 3 then Inr ReqClientClosed
      else if v = 4 then Inr ReqClientFinished
      else if v = 5 then Inr ReqServerFinished
      else if v = 6 then Inr ReqServerClosed
      else if v = 7 then Inr ReqClientQuota
      else if v = 8 then Inr Ping
      else if v = 9 then Inr Pong
      else if v = 10 then Inr UdpX
      else Inl Panicked)"

lemma cmd_from_code [simp, codec_simps]: "cmd_from (cmd_code c) = Inr c"
  by (cases c) (simp_all add: cmd_from_def)

lemma cmd_from_cases: "cmd_from v = Inr c \<longleftrightarrow> v = cmd_code c"
  by (cases c) (auto simp: cmd_from_def)

record theader =
  th_req_idx :: u16
  th_req_tag :: u16

definition theader_new :: "u16 \<Rightarrow> u16 \<Rightarrow> theader" where
  "theader_new idx tag = \<lparr>th_req_idx = idx, th_req_tag = tag\<rparr>"

definition theader_read_from :: "bytes \<Rightarrow> theader res" where
  "theader_read_from bs =
     and_then (rd_u16 bs 0) (\<lambda>(req_idx, off).
     and_then (rd_u16 bs off) (\<lambda>(req_tag, off). Inr (theader_new req_idx req_tag)))"

definition theader_write_to :: "theader \<Rightarrow> nat \<Rightarrow> bytes \<Rightarrow> bytes res" where
  "theader_write_to th off out =
     and_then (put_at off (le16 (th_req_idx th)) out) (\<lambda>out. put_at (off + 2) (le16 (th_req_tag th)) out)"

lemma theader_read_back [simp, codec_simps]:
  "theader_read_from (le16 idx @ le16 tag @ rest) = Inr (theader_new idx tag)"
  using rd_u16_append [of "[]" 0 idx "le16 tag @ rest"] rd_u16_append [of "le16 idx" 2 tag rest]
  by (simp add: theader_read_from_def numeral_2_eq_2)

section \<open>Socket addresses\<close>

text \<open>\<^verbatim>\<open>for b in bytes { bs.write_with(offset, *b, LE).unwrap() }\<close>, at either width.\<close>

fun write_u8s :: "bytes \<Rightarrow> nat \<Rightarrow> bytes \<Rightarrow> (bytes \<times> nat) res" where
  "write_u8s [] off out = Inr (out, off)"
| "write_u8s (b # bs) off out = and_then (put_at off [b] out) (\<lambda>out. write_u8s bs (off + 1) out)"

fun write_u16s :: "u16 list \<Rightarrow> nat \<Rightarrow> bytes \<Rightarrow> (bytes \<times> nat) res" where
  "write_u16s [] off out = Inr (out, off)"
| "write_u16s (b # bs) off out = and_then (put_at off (le16 b) out) (\<lambda>out. write_u16s bs (off + 2) out)"

definition write_socketaddr :: "bytes \<Rightarrow> nat \<Rightarrow> socket_addr \<Rightarrow> (bytes \<times> nat) res" where
  "write_socketaddr bs offset addr =
     and_then (put_at offset (le16 (sa_port addr)) bs) (\<lambda>bs.
     case sa_ip addr of
       V4 v4 \<Rightarrow> and_then (put_at (offset + 2) [0] bs) (write_u8s (octets4 v4) (offset + 3))
     | V6 v6 \<Rightarrow> and_then (put_at (offset + 2) [1] bs) (write_u16s (segments v6) (offset + 3)))"

definition read_socketaddr :: "bytes \<Rightarrow> nat \<Rightarrow> (socket_addr \<times> nat) res" where
  "read_socketaddr bs off =
     and_then (rd_u16 bs off) (\<lambda>(port, off).
     and_then (rd_u8 bs off) (\<lambda>(addr_type, off).
     and_then
       (if addr_type = 0 then
          and_then (rd_u8 bs off) (\<lambda>(a, off).
          and_then (rd_u8 bs off) (\<lambda>(b, off).
          and_then (rd_u8 bs off) (\<lambda>(c, off).
          and_then (rd_u8 bs off) (\<lambda>(d, off). Inr (V4 (Ipv4Addr a b c d), off)))))
        else
          and_then (rd_u16 bs off) (\<lambda>(a, off).
          and_then (rd_u16 bs off) (\<lambda>(b, off).
          and_then (rd_u16 bs off) (\<lambda>(c, off).
          and_then (rd_u16 bs off) (\<lambda>(d, off).
          and_then (rd_u16 bs off) (\<lambda>(e, off).
          and_then (rd_u16 bs off) (\<lambda>(f, off).
          and_then (rd_u16 bs off) (\<lambda>(g, off).
          and_then (rd_u16 bs off) (\<lambda>(h, off). Inr (V6 (Ipv6Addr a b c d e f g h), off))))))))))
       (\<lambda>(ip, off). Inr (SocketAddr ip port, off))))"

text \<open>The wire form of an address.\<close>

definition enc_socketaddr :: "socket_addr \<Rightarrow> bytes" where
  "enc_socketaddr addr = le16 (sa_port addr) @
     (case sa_ip addr of V4 v4 \<Rightarrow> 0 # octets4 v4 | V6 v6 \<Rightarrow> 1 # concat (map le16 (segments v6)))"

lemma length_concat_le16 [simp]: "length (concat (map le16 vs)) = 2 * length vs"
  by (induction vs) auto

lemma length_enc_socketaddr:
  "length (enc_socketaddr addr) = (if is_ipv4 (sa_ip addr) then 7 else 19)"
  by (simp add: enc_socketaddr_def split: ip_addr.splits)

lemma write_u8s_end:
  "length pre = off \<Longrightarrow> length vs \<le> n \<Longrightarrow>
   write_u8s vs off (pre @ replicate n 0) = Inr ((pre @ vs) @ replicate (n - length vs) 0, off + length vs)"
proof (induction vs arbitrary: pre off n)
  case (Cons v vs)
  have "write_u8s (v # vs) off (pre @ replicate n 0) = write_u8s vs (off + 1) ((pre @ [v]) @ replicate (n - 1) 0)"
    using Cons.prems put_at_end [of pre off "[v]" n] by simp
  also have "\<dots> = Inr (((pre @ [v]) @ vs) @ replicate (n - 1 - length vs) 0, off + 1 + length vs)"
    using Cons.prems by (intro Cons.IH) simp_all
  finally show ?case by simp
qed simp

lemma write_u16s_end:
  "length pre = off \<Longrightarrow> 2 * length vs \<le> n \<Longrightarrow>
   write_u16s vs off (pre @ replicate n 0)
   = Inr ((pre @ concat (map le16 vs)) @ replicate (n - 2 * length vs) 0, off + 2 * length vs)"
proof (induction vs arbitrary: pre off n)
  case (Cons v vs)
  have "write_u16s (v # vs) off (pre @ replicate n 0) = write_u16s vs (off + 2) ((pre @ le16 v) @ replicate (n - 2) 0)"
    using Cons.prems put_at_end [of pre off "le16 v" n] by simp
  also have "\<dots> = Inr (((pre @ le16 v) @ concat (map le16 vs)) @ replicate (n - 2 - 2 * length vs) 0, off + 2 + 2 * length vs)"
    using Cons.prems by (intro Cons.IH) simp_all
  finally show ?case by (simp add: algebra_simps)
qed simp

lemma write_socketaddr_end:
  assumes "length pre = off" "length (enc_socketaddr addr) \<le> n"
  shows "write_socketaddr (pre @ replicate n 0) off addr
    = Inr ((pre @ enc_socketaddr addr) @ replicate (n - length (enc_socketaddr addr)) 0,
           off + length (enc_socketaddr addr))"
proof (cases "sa_ip addr")
  case (V4 v4)
  then have "7 \<le> n" using assms(2) by (simp add: length_enc_socketaddr)
  then show ?thesis
    using assms(1) V4 put_at_end [of pre off "le16 (sa_port addr)" n]
      put_at_end [of "pre @ le16 (sa_port addr)" "off + 2" "[0]" "n - 2"]
      write_u8s_end [of "pre @ le16 (sa_port addr) @ [0]" "off + 3" "octets4 v4" "n - 3"]
    by (simp add: write_socketaddr_def enc_socketaddr_def)
next
  case (V6 v6)
  then have "19 \<le> n" using assms(2) by (simp add: length_enc_socketaddr)
  then show ?thesis
    using assms(1) V6 put_at_end [of pre off "le16 (sa_port addr)" n]
      put_at_end [of "pre @ le16 (sa_port addr)" "off + 2" "[1]" "n - 2"]
      write_u16s_end [of "pre @ le16 (sa_port addr) @ [1]" "off + 3" "segments v6" "n - 3"]
    by (simp add: write_socketaddr_def enc_socketaddr_def)
qed

lemma rd_u8_drop: "rd_u8 bs off = (case drop off bs of a # _ \<Rightarrow> Inr (a, off + 1) | _ \<Rightarrow> Inl Panicked)"
proof (cases "off < length bs")
  case True
  then have "drop off bs = bs ! off # drop (Suc off) bs" by (rule Cons_nth_drop_Suc [symmetric])
  then show ?thesis using True by (simp add: rd_u8_def)
qed (simp add: rd_u8_def)

lemma rd_u16_drop:
  "rd_u16 bs off = (case drop off bs of a # b # _ \<Rightarrow> Inr (of_le16 a b, off + 2) | _ \<Rightarrow> Inl Panicked)"
proof (cases "off + 2 \<le> length bs")
  case True
  then have "drop off bs = bs ! off # bs ! (off + 1) # drop (off + 2) bs"
    using Cons_nth_drop_Suc [of off bs] Cons_nth_drop_Suc [of "Suc off" bs] by simp
  then show ?thesis using True by (simp add: rd_u16_def)
next
  case False
  then have "length (drop off bs) < 2" by simp
  then have "(case drop off bs of a # b # _ \<Rightarrow> Inr (of_le16 a b, off + 2) | _ \<Rightarrow> Inl Panicked) = Inl Panicked"
    by (auto split: list.splits simp del: length_drop)
  then show ?thesis using False by (simp only: rd_u16_def if_False)
qed

lemma read_socketaddr_enc:
  assumes "drop off bs = enc_socketaddr addr @ rest"
  shows "read_socketaddr bs off = Inr (addr, off + length (enc_socketaddr addr))"
    and "drop (off + length (enc_socketaddr addr)) bs = rest"
proof -
  have at: "drop (off + k) bs = drop k (enc_socketaddr addr @ rest)" for k
    using assms by (simp add: add.commute flip: drop_drop)
  then show "drop (off + length (enc_socketaddr addr)) bs = rest" by simp
  obtain ip port where addr: "addr = SocketAddr ip port" by (cases addr)
  have step: "drop (Suc n) bs = tl (drop n bs)" for n by (simp add: drop_Suc tl_drop)
  note norm = rd_u8_drop rd_u16_drop at assms step
  show "read_socketaddr bs off = Inr (addr, off + length (enc_socketaddr addr))"
  proof (cases ip)
    case (V4 v4)
    then show ?thesis
      by (cases v4) (simp add: read_socketaddr_def norm addr enc_socketaddr_def le16_def)
  next
    case (V6 v6)
    then show ?thesis
      by (cases v6) (simp add: read_socketaddr_def norm addr enc_socketaddr_def le16_def)
  qed
qed

end
