(* ===== verification/Reqq.thy ===== *)
theory Reqq imports Tun_Wire begin

text \<open>
  \<^verbatim>\<open>src/tunnels/request.rs\<close> and \<^verbatim>\<open>src/tunnels/reqq.rs\<close>: the slots of a tunnel's requests, handed out
  as an index with a tag that guards against stale handles. The locale \<open>slot_pool\<close> is what a tunnel
  relies on; it is interpreted on the code's model.
\<close>

section \<open>Requests\<close>

record request =
  rq_index :: u16
  rq_tag :: u16
  rq_request_tx :: "chan option"
  rq_trigger :: "nat option"
  rq_write_out :: u16

definition request_new :: "u16 \<Rightarrow> request" where
  "request_new idx = \<lparr>rq_index = idx, rq_tag = 0, rq_request_tx = None, rq_trigger = None, rq_write_out = 0\<rparr>"

definition request_with :: "chan \<Rightarrow> nat \<Rightarrow> request" where
  "request_with tx trigger =
     \<lparr>rq_index = 0, rq_tag = 0, rq_request_tx = Some tx, rq_trigger = Some trigger, rq_write_out = 0\<rparr>"

section \<open>The queue\<close>

text \<open>\<open>rqq_free\<close> is the vector used as a stack: its last element is popped first.\<close>

record reqq =
  rqq_elements :: "request list"
  rqq_free :: "nat list"

definition reqq_new :: "nat \<Rightarrow> reqq" where
  "reqq_new sz =
     \<lparr>rqq_elements = map (\<lambda>n. request_new (word_of_nat n)) [0..<sz],
      rqq_free = map (\<lambda>n. sz - 1 - n) [0..<sz]\<rparr>"

definition U16_MAX :: u16 where
  "U16_MAX = 0xFFFF"

definition reqq_alloc :: "reqq \<Rightarrow> request \<Rightarrow> (reqq \<times> u16 \<times> u16) res" where
  "reqq_alloc q req2 =
     (if length (rqq_free q) < 1 then Inr (q, U16_MAX, U16_MAX)
      else
        let idx = last (rqq_free q); q = q\<lparr>rqq_free := butlast (rqq_free q)\<rparr> in
        and_then (vec_get (rqq_elements q) idx) (\<lambda>req.
        let req = req\<lparr>rq_tag := rq_tag req + 1, rq_request_tx := rq_request_tx req2,
                      rq_trigger := rq_trigger req2\<rparr> in
        Inr (q\<lparr>rqq_elements := (rqq_elements q)[idx := req]\<rparr>, word_of_nat idx, rq_tag req)))"

definition clean_req :: "request \<Rightarrow> request" where
  "clean_req req = req\<lparr>rq_tag := rq_tag req + 1, rq_request_tx := None, rq_trigger := None\<rparr>"

definition reqq_free :: "reqq \<Rightarrow> u16 \<Rightarrow> u16 \<Rightarrow> reqq \<times> bool" where
  "reqq_free q idx tag =
     (let i = unat idx in
      if length (rqq_elements q) \<le> i then (q, False)
      else
        let req = rqq_elements q ! i in
        if rq_tag req \<noteq> tag then (q, False)
        else (q\<lparr>rqq_elements := (rqq_elements q)[i := clean_req req], rqq_free := rqq_free q @ [i]\<rparr>, True))"

definition reqq_clear_all :: "reqq \<Rightarrow> reqq" where
  "reqq_clear_all q = q\<lparr>rqq_elements := map clean_req (rqq_elements q), rqq_free := []\<rparr>"

section \<open>What a tunnel relies on\<close>

text \<open>
  \<open>live p\<close> are the handles out; \<open>handle\<close> marks the handles a pool ever gives out. A handle that is not
  live is refused without effect.
\<close>

locale slot_pool =
  fixes ok :: "'p \<Rightarrow> bool" and live :: "'p \<Rightarrow> (u16 \<times> u16) set" and room :: "'p \<Rightarrow> nat"
    and handle :: "u16 \<times> u16 \<Rightarrow> bool"
    and alloc :: "'p \<Rightarrow> 'r \<Rightarrow> ('p \<times> u16 \<times> u16) res" and free :: "'p \<Rightarrow> u16 \<Rightarrow> u16 \<Rightarrow> 'p \<times> bool"
  assumes live_finite: "ok p \<Longrightarrow> finite (live p)"
    and alloc_room: "ok p \<Longrightarrow> 0 < room p \<Longrightarrow> \<exists>p' i t. alloc p r = Inr (p', i, t) \<and> ok p' \<and>
      i \<noteq> U16_MAX \<and> i \<notin> fst ` live p \<and> handle (i, t) \<and> live p' = insert (i, t) (live p) \<and> room p = Suc (room p')"
    and alloc_full: "ok p \<Longrightarrow> room p = 0 \<Longrightarrow> alloc p r = Inr (p, U16_MAX, U16_MAX)"
    and free_live: "ok p \<Longrightarrow> (i, t) \<in> live p \<Longrightarrow> \<exists>p'. free p i t = (p', True) \<and> ok p' \<and>
      live p' = live p - {(i, t)} \<and> room p' = Suc (room p)"
    and free_dead: "ok p \<Longrightarrow> handle (i, t) \<Longrightarrow> (i, t) \<notin> live p \<Longrightarrow> free p i t = (p, False)"
begin

text \<open>A counter that follows the answers counts the live handles, and never goes below zero.\<close>

lemma alloc_counts:
  assumes "ok p" "alloc p r = Inr (p', i, t)" "i \<noteq> U16_MAX"
  shows "ok p' \<and> card (live p') = Suc (card (live p)) \<and> room p = Suc (room p')
    \<and> (i, t) \<in> live p' \<and> live p' = insert (i, t) (live p) \<and> (i, t) \<notin> live p"
proof -
  have "0 < room p" using assms alloc_full [of p r] by (cases "room p") auto
  then obtain q j u where q: "alloc p r = Inr (q, j, u)" "ok q" "j \<notin> fst ` live p"
      "live q = insert (j, u) (live p)" "room p = Suc (room q)"
    using alloc_room [OF assms(1)] by blast
  moreover have "(j, u) \<notin> live p" using q(3) by force
  ultimately show ?thesis using assms(2) live_finite [OF assms(1)] by simp
qed

lemma free_counts:
  assumes "ok p" "handle (i, t)" "free p i t = (p', b)"
  shows "ok p' \<and> (b \<longleftrightarrow> (i, t) \<in> live p) \<and> live p' = live p - {(i, t)}
    \<and> card (live p') + (if b then 1 else 0) = card (live p)
    \<and> room p' = room p + (if b then 1 else 0)"
proof (cases "(i, t) \<in> live p")
  case True
  then show ?thesis
    using free_live [OF assms(1) True] assms(3) live_finite [OF assms(1)] card_Suc_Diff1 [of "live p" "(i, t)"]
    by auto
next
  case False
  then show ?thesis using free_dead [OF assms(1,2) False] assms by auto
qed

lemma double_free_refused:
  assumes "ok p" "handle (i, t)" "free p i t = (p', b)"
  shows "free p' i t = (p', False)"
  using free_counts [OF assms] assms(2) by (intro free_dead) auto

end

section \<open>The queue keeps its contract\<close>

text \<open>A slot is in use exactly when its tag is odd; the free stack holds the others, once each.\<close>

definition reqq_ok :: "reqq \<Rightarrow> bool" where
  "reqq_ok q \<longleftrightarrow> length (rqq_elements q) < 2 ^ 16 \<and> distinct (rqq_free q) \<and>
     set (rqq_free q) = {i. i < length (rqq_elements q) \<and> even (rq_tag (rqq_elements q ! i))} \<and>
     (\<forall>i < length (rqq_elements q). even (rq_tag (rqq_elements q ! i)) \<longrightarrow>
        rq_request_tx (rqq_elements q ! i) = None \<and> rq_trigger (rqq_elements q ! i) = None)"

definition reqq_live :: "reqq \<Rightarrow> (u16 \<times> u16) set" where
  "reqq_live q = {(i, t). unat i < length (rqq_elements q) \<and> t = rq_tag (rqq_elements q ! unat i) \<and> odd t}"

definition reqq_room :: "reqq \<Rightarrow> nat" where
  "reqq_room q = length (rqq_free q)"

definition odd_handle :: "u16 \<times> u16 \<Rightarrow> bool" where
  "odd_handle h \<longleftrightarrow> odd (snd h)"

lemma reqq_new_ok: "sz < 2 ^ 16 \<Longrightarrow> reqq_ok (reqq_new sz)"
proof -
  assume s: "sz < 2 ^ 16"
  have "(\<lambda>n. sz - 1 - n) ` {0..<sz} = {i. i < sz}"
  proof (intro equalityI subsetI)
    fix i assume "i \<in> {i. i < sz}"
    then have "i = sz - 1 - (sz - 1 - i)" "sz - 1 - i \<in> {0..<sz}" by auto
    then show "i \<in> (\<lambda>n. sz - 1 - n) ` {0..<sz}" by blast
  qed auto
  then show ?thesis using s
    by (auto simp: reqq_ok_def reqq_new_def request_new_def distinct_map inj_on_def)
qed

lemma reqq_live_new: "reqq_live (reqq_new sz) = {}"
  by (auto simp: reqq_live_def reqq_new_def request_new_def)

lemma reqq_live_finite: "finite (reqq_live q)"
proof -
  have "reqq_live q \<subseteq> UNIV" by simp
  then show ?thesis by (rule finite_subset) simp
qed

lemma reqq_alloc_room:
  assumes ok: "reqq_ok q" and room: "0 < reqq_room q"
  shows "\<exists>q' i t. reqq_alloc q r = Inr (q', i, t) \<and> reqq_ok q' \<and> i \<noteq> U16_MAX \<and> i \<notin> fst ` reqq_live q \<and>
    odd_handle (i, t) \<and> reqq_live q' = insert (i, t) (reqq_live q) \<and> reqq_room q = Suc (reqq_room q')"
proof -
  let ?es = "rqq_elements q"
  obtain fs k where fs: "rqq_free q = fs @ [k]"
    using room by (cases "rqq_free q" rule: rev_cases) (auto simp: reqq_room_def)
  have free: "set (fs @ [k]) = {i. i < length ?es \<and> even (rq_tag (?es ! i))}" and d: "distinct (fs @ [k])"
    and len: "length ?es < 2 ^ 16"
    and idle: "\<And>i. i < length ?es \<Longrightarrow> even (rq_tag (?es ! i)) \<Longrightarrow>
        rq_request_tx (?es ! i) = None \<and> rq_trigger (?es ! i) = None"
    using ok by (simp_all add: reqq_ok_def fs)
  have "k \<in> {i. i < length ?es \<and> even (rq_tag (?es ! i))}" using free by auto
  then have k: "k < length ?es" "even (rq_tag (?es ! k))" by auto
  have fs_set: "set fs = {i. i < length ?es \<and> even (rq_tag (?es ! i))} - {k}"
    using free d by auto
  let ?t = "rq_tag (?es ! k) + 1"
  let ?req = "(?es ! k)\<lparr>rq_tag := ?t, rq_request_tx := rq_request_tx r, rq_trigger := rq_trigger r\<rparr>"
  let ?q = "q\<lparr>rqq_free := fs, rqq_elements := ?es[k := ?req]\<rparr>"
  let ?i = "word_of_nat k :: u16"
  have i: "unat ?i = k" using k len by (intro unat_of_nat_less) simp
  have t: "odd ?t" using k by simp
  have alloc: "reqq_alloc q r = Inr (?q, ?i, ?t)"
    using k by (simp add: reqq_alloc_def fs Let_def)
  have "reqq_ok ?q"
    using len d idle k t by (auto simp: reqq_ok_def fs_set nth_list_update)
  moreover have "?i \<noteq> U16_MAX"
  proof
    assume "?i = U16_MAX"
    then have "k = unat U16_MAX" using i by simp
    then show False using k len by (simp add: U16_MAX_def)
  qed
  moreover have "?i \<notin> fst ` reqq_live q" using i k by (auto simp: reqq_live_def)
  moreover have "reqq_live ?q = insert (?i, ?t) (reqq_live q)"
  proof -
    have eq: "j = ?i \<longleftrightarrow> unat j = k" for j :: u16 using i by (auto simp: word_unat_eq_iff)
    show ?thesis using i k t by (auto simp: reqq_live_def nth_list_update eq)
  qed
  moreover have "reqq_room q = Suc (reqq_room ?q)" by (simp add: reqq_room_def fs)
  ultimately show ?thesis using alloc t unfolding odd_handle_def by (metis snd_conv)
qed

lemma reqq_free_live:
  assumes ok: "reqq_ok q" and live: "(i, t) \<in> reqq_live q"
  shows "\<exists>q'. reqq_free q i t = (q', True) \<and> reqq_ok q' \<and> reqq_live q' = reqq_live q - {(i, t)} \<and>
    reqq_room q' = Suc (reqq_room q)"
proof -
  let ?es = "rqq_elements q" and ?k = "unat i"
  have k: "?k < length ?es" "rq_tag (?es ! ?k) = t" "odd t" using live by (auto simp: reqq_live_def)
  let ?q = "q\<lparr>rqq_elements := ?es[?k := clean_req (?es ! ?k)], rqq_free := rqq_free q @ [?k]\<rparr>"
  have free: "reqq_free q i t = (?q, True)" using k by (simp add: reqq_free_def Let_def)
  have "reqq_ok ?q" using ok k by (auto simp: reqq_ok_def nth_list_update clean_req_def)
  moreover have "reqq_live ?q = reqq_live q - {(i, t)}"
  proof -
    have eq: "unat i = unat j \<longleftrightarrow> i = j" for j by (simp add: word_unat_eq_iff)
    have "even (t + 1)" using k by simp
    then show ?thesis using k by (auto simp: reqq_live_def nth_list_update clean_req_def eq)
  qed
  moreover have "reqq_room ?q = Suc (reqq_room q)" by (simp add: reqq_room_def)
  ultimately show ?thesis using free by blast
qed

lemma reqq_free_dead:
  "odd t \<Longrightarrow> (i, t) \<notin> reqq_live q \<Longrightarrow> reqq_free q i t = (q, False)"
  by (auto simp: reqq_free_def reqq_live_def Let_def)

interpretation rq: slot_pool reqq_ok reqq_live reqq_room odd_handle reqq_alloc reqq_free
proof
  show "reqq_alloc q r = Inr (q, U16_MAX, U16_MAX)" if "reqq_room q = 0" for q r
    using that by (simp add: reqq_alloc_def reqq_room_def)
qed (use reqq_alloc_room reqq_free_live reqq_free_dead in \<open>auto simp: reqq_live_finite odd_handle_def\<close>)

text \<open>Capacity: the slots in use and the free ones are all the slots.\<close>

lemma reqq_room_live:
  assumes "reqq_ok q"
  shows "card (reqq_live q) + reqq_room q = length (rqq_elements q)"
proof -
  let ?es = "rqq_elements q"
  let ?f = "\<lambda>(i :: u16, t :: u16). unat i"
  have "?f ` reqq_live q = {k. k < length ?es \<and> odd (rq_tag (?es ! k))}"
  proof (intro equalityI subsetI)
    fix k assume "k \<in> {k. k < length ?es \<and> odd (rq_tag (?es ! k))}"
    then have k: "k < length ?es" "odd (rq_tag (?es ! k))" by auto
    then have "unat (word_of_nat k :: u16) = k"
      using assms by (intro unat_of_nat_less) (simp add: reqq_ok_def)
    then have "(word_of_nat k, rq_tag (?es ! k)) \<in> reqq_live q" "?f (word_of_nat k, rq_tag (?es ! k)) = k"
      using k by (auto simp: reqq_live_def)
    then show "k \<in> ?f ` reqq_live q" by (metis imageI)
  qed (auto simp: reqq_live_def)
  moreover have "inj_on ?f (reqq_live q)" by (auto simp: inj_on_def reqq_live_def word_unat_eq_iff)
  ultimately have "card (reqq_live q) = card {k. k < length ?es \<and> odd (rq_tag (?es ! k))}"
    using card_image by fastforce
  moreover have "reqq_room q = card {k. k < length ?es \<and> even (rq_tag (?es ! k))}"
    using assms unfolding reqq_ok_def reqq_room_def by (metis distinct_card)
  moreover have "card ({k. k < length ?es \<and> odd (rq_tag (?es ! k))} \<union> {k. k < length ?es \<and> even (rq_tag (?es ! k))})
      = card {k. k < length ?es \<and> odd (rq_tag (?es ! k))} + card {k. k < length ?es \<and> even (rq_tag (?es ! k))}"
    by (rule card_Un_disjoint) auto
  moreover have "{k. k < length ?es \<and> odd (rq_tag (?es ! k))} \<union> {k. k < length ?es \<and> even (rq_tag (?es ! k))}
      = {k. k < length ?es}" by auto
  ultimately show ?thesis by simp
qed

lemma count_list_distinct: "x \<in> set xs \<Longrightarrow> distinct xs \<Longrightarrow> count_list xs x = 1"
  by (induction xs) (auto simp: count_list_0_iff)

section \<open>Properties\<close>

datatype pool_op = PAlloc request | PFree u16 u16

fun pool_step :: "reqq \<Rightarrow> pool_op \<Rightarrow> reqq res" where
  "pool_step q (PAlloc r) = and_then (reqq_alloc q r) (\<lambda>(q, i, t). Inr q)"
| "pool_step q (PFree i t) = Inr (fst (reqq_free q i t))"

definition odd_frees :: "pool_op list \<Rightarrow> bool" where
  "odd_frees ops \<longleftrightarrow> list_all (\<lambda>op. case op of PFree i t \<Rightarrow> odd t | PAlloc r \<Rightarrow> True) ops"

lemma reqq_alloc_length: "reqq_alloc q r = Inr (q', h) \<Longrightarrow> length (rqq_elements q') = length (rqq_elements q)"
  by (auto simp: reqq_alloc_def Let_def and_then_Inr_iff split: if_splits)

lemma reqq_free_length: "length (rqq_elements (fst (reqq_free q i t))) = length (rqq_elements q)"
  by (auto simp: reqq_free_def Let_def)

lemma pool_step_ok:
  assumes "reqq_ok q" "odd_frees [op]"
  shows "\<exists>q'. pool_step q op = Inr q' \<and> reqq_ok q' \<and> length (rqq_elements q') = length (rqq_elements q)"
proof (cases op)
  case (PAlloc r)
  show ?thesis
  proof (cases "reqq_room q")
    case 0
    then show ?thesis using rq.alloc_full [OF assms(1)] assms(1) PAlloc by simp
  next
    case (Suc n)
    then obtain q' i t where "reqq_alloc q r = Inr (q', i, t)" "reqq_ok q'"
      using rq.alloc_room [OF assms(1), of r] by auto
    then show ?thesis using PAlloc reqq_alloc_length by fastforce
  qed
next
  case (PFree i t)
  then have "odd_handle (i, t)" using assms(2) by (simp add: odd_frees_def odd_handle_def)
  then show ?thesis
    using rq.free_counts [OF assms(1), of i t "fst (reqq_free q i t)" "snd (reqq_free q i t)"] PFree
    by (simp add: reqq_free_length)
qed

lemma pool_run_ok:
  "reqq_ok q \<Longrightarrow> odd_frees ops \<Longrightarrow>
   \<exists>q'. fold_res pool_step q ops = Inr q' \<and> reqq_ok q' \<and> length (rqq_elements q') = length (rqq_elements q)"
proof (induction ops arbitrary: q)
  case (Cons op ops)
  then obtain q1 where "pool_step q op = Inr q1" "reqq_ok q1" "length (rqq_elements q1) = length (rqq_elements q)"
    using pool_step_ok [of q op] by (auto simp: odd_frees_def)
  moreover from this Cons obtain q2 where "fold_res pool_step q1 ops = Inr q2" "reqq_ok q2"
      "length (rqq_elements q2) = length (rqq_elements q1)"
    by (fastforce simp: odd_frees_def)
  ultimately show ?case by simp
qed simp

text \<open>
  C7: in any history of allocations and of releases with handles the queue has given out (whose tags
  are odd), stale and repeated ones included, nothing panics, the requests in use and the free slots
  add up to the queue's size, the next allocation succeeds exactly when a slot is free, and its slot
  is none of those in use.
\<close>

theorem reqq_history:
  assumes "sz < 2 ^ 16" "odd_frees ops"
  shows "\<exists>q. fold_res pool_step (reqq_new sz) ops = Inr q \<and>
    card (reqq_live q) + length (rqq_free q) = sz \<and>
    (\<exists>q' i t. reqq_alloc q r = Inr (q', i, t) \<and> (i \<noteq> U16_MAX \<longleftrightarrow> card (reqq_live q) < sz) \<and>
      (i \<noteq> U16_MAX \<longrightarrow> i \<notin> fst ` reqq_live q \<and> reqq_live q' = insert (i, t) (reqq_live q)))"
proof -
  obtain q where q: "fold_res pool_step (reqq_new sz) ops = Inr q" "reqq_ok q"
      "length (rqq_elements q) = length (rqq_elements (reqq_new sz))"
    using pool_run_ok [OF reqq_new_ok [OF assms(1)] assms(2)] by blast
  have "length (rqq_elements (reqq_new sz)) = sz" by (simp add: reqq_new_def)
  then have sum: "card (reqq_live q) + length (rqq_free q) = sz"
    using reqq_room_live [OF q(2)] q(3) by (simp add: reqq_room_def)
  have "\<exists>q' i t. reqq_alloc q r = Inr (q', i, t) \<and> (i \<noteq> U16_MAX \<longleftrightarrow> card (reqq_live q) < sz) \<and>
      (i \<noteq> U16_MAX \<longrightarrow> i \<notin> fst ` reqq_live q \<and> reqq_live q' = insert (i, t) (reqq_live q))"
  proof (cases "reqq_room q")
    case 0
    then show ?thesis using rq.alloc_full [OF q(2) 0] sum by (simp add: reqq_room_def)
  next
    case (Suc n)
    then obtain q' i t where "reqq_alloc q r = Inr (q', i, t)" "i \<noteq> U16_MAX" "i \<notin> fst ` reqq_live q"
        "reqq_live q' = insert (i, t) (reqq_live q)"
      using rq.alloc_room [OF q(2), of r] by auto
    then show ?thesis using Suc sum by (auto simp: reqq_room_def)
  qed
  then show ?thesis using q(1) sum by blast
qed

lemma reqq_history_witness:
  "\<exists>q. fold_res pool_step (reqq_new 2) [PAlloc (request_with 5 6), PFree 0 1, PFree 0 1, PFree 7 3] = Inr q \<and>
    card (reqq_live q) + length (rqq_free q) = 2 \<and>
    (\<exists>q' i t. reqq_alloc q (request_with 8 9) = Inr (q', i, t) \<and> (i \<noteq> U16_MAX \<longleftrightarrow> card (reqq_live q) < 2) \<and>
      (i \<noteq> U16_MAX \<longrightarrow> i \<notin> fst ` reqq_live q \<and> reqq_live q' = insert (i, t) (reqq_live q)))"
  by (rule reqq_history) (simp_all add: odd_frees_def)

text \<open>
  Releasing an idle slot under its current tag, which the queue never gave out, is not refused:
  the slot is on the free stack twice afterwards, and the next two allocations share it.
\<close>

theorem idle_release_shares_slot:
  assumes "reqq_ok q" "unat i < length (rqq_elements q)" "even (rq_tag (rqq_elements q ! unat i))"
  shows "\<exists>q'. reqq_free q i (rq_tag (rqq_elements q ! unat i)) = (q', True) \<and> \<not> distinct (rqq_free q') \<and>
    count_list (rqq_free q') (unat i) = 2"
proof -
  have "unat i \<in> set (rqq_free q)" "distinct (rqq_free q)" using assms by (auto simp: reqq_ok_def)
  then have "count_list (rqq_free q) (unat i) = 1" by (intro count_list_distinct)
  then show ?thesis using assms \<open>unat i \<in> set (rqq_free q)\<close> by (auto simp: reqq_free_def Let_def)
qed

lemma idle_release_shares_slot_witness:
  "\<exists>q'. reqq_free (reqq_new 2) 1 (rq_tag (rqq_elements (reqq_new 2) ! unat (1 :: u16))) = (q', True) \<and>
    \<not> distinct (rqq_free q') \<and> count_list (rqq_free q') (unat (1 :: u16)) = 2"
  by (rule idle_release_shares_slot [OF reqq_new_ok]) (simp_all add: reqq_new_def request_new_def)

text \<open>
  Clearing the queue of a closed tunnel revokes everything: every handle that was in use is
  refused from then on, all channels and triggers are dropped, and no allocation succeeds.
\<close>

theorem clear_all_revokes:
  "reqq_alloc (reqq_clear_all q) r = Inr (reqq_clear_all q, U16_MAX, U16_MAX) \<and>
   list_all (\<lambda>e. rq_request_tx e = None \<and> rq_trigger e = None) (rqq_elements (reqq_clear_all q)) \<and>
   ((i, t) \<notin> reqq_live q \<or> reqq_free (reqq_clear_all q) i t = (reqq_clear_all q, False))"
proof -
  have "reqq_free (reqq_clear_all q) i t = (reqq_clear_all q, False)" if "(i, t) \<in> reqq_live q"
  proof -
    have "rq_tag (rqq_elements q ! unat i) + 1 \<noteq> rq_tag (rqq_elements q ! unat i)" by simp
    then show ?thesis using that
      by (auto simp: reqq_free_def reqq_clear_all_def reqq_live_def clean_req_def Let_def)
  qed
  then show ?thesis
    by (auto simp: reqq_alloc_def reqq_clear_all_def list_all_iff clean_req_def)
qed

lemma clear_all_revokes_witness:
  "reqq_free (reqq_clear_all \<lparr>rqq_elements = [(request_with 3 4)\<lparr>rq_tag := 1\<rparr>], rqq_free = []\<rparr>) 0 1
   = (reqq_clear_all \<lparr>rqq_elements = [(request_with 3 4)\<lparr>rq_tag := 1\<rparr>], rqq_free = []\<rparr>, False)"
  using clear_all_revokes [of "\<lparr>rqq_elements = [(request_with 3 4)\<lparr>rq_tag := 1\<rparr>], rqq_free = []\<rparr>" r 0 1]
  by (simp add: reqq_live_def)

end
