(* ===== verification/Tunnel.thy ===== *)
theory Tunnel imports Reqq begin

text \<open>
  \<^verbatim>\<open>src/tunnels/tunnel.rs\<close>: one tunnel to the relay, its requests, its keep-alive state, the dispatch of
  the messages it receives and the messages it sends.
\<close>

section \<open>State\<close>

text \<open>\<open>tn_time\<close> is the \<^verbatim>\<open>Instant\<close> of creation; an operation that reads the clock takes \<open>now\<close>, both in
  milliseconds.\<close>

record tunnel =
  tn_tx :: chan
  tn_udpx_tx :: "chan option"
  tn_index :: nat
  tn_requests :: reqq
  tn_capacity :: u16
  tn_rtt_queue :: "i64 list"
  tn_rtt_index :: nat
  tn_rtt_sum :: i64
  tn_req_count :: u16
  tn_ping_count :: u8
  tn_time :: nat
  tn_rawfd :: nat
  tn_busy :: nat
  tn_request_quota :: u16

definition KEEP_ALIVE_INTERVAL :: u64 where
  "KEEP_ALIVE_INTERVAL = 15 * 1000"

definition tunnel_new :: "nat \<Rightarrow> chan \<Rightarrow> nat \<Rightarrow> nat \<Rightarrow> nat \<Rightarrow> u16 \<Rightarrow> tunnel" where
  "tunnel_new now tx rawfd idx cap request_quota =
     \<lparr>tn_tx = tx, tn_udpx_tx = None, tn_index = idx, tn_requests = reqq_new cap,
      tn_capacity = word_of_nat cap, tn_rtt_queue = replicate 5 0, tn_rtt_index = 0, tn_rtt_sum = 0,
      tn_req_count = 0, tn_ping_count = 0, tn_time = now, tn_rawfd = rawfd, tn_busy = 0,
      tn_request_quota = request_quota\<rparr>"

record tun_stub =
  ts_tunnel_tx :: chan
  ts_tun_idx :: u16
  ts_req_idx :: u16
  ts_req_tag :: u16
  ts_request_quota :: u16

section \<open>Keep-alive\<close>

definition reset_busy :: "tunnel \<Rightarrow> tunnel" where
  "reset_busy t = t\<lparr>tn_busy := 0\<rparr>"

definition get_elapsed_milliseconds :: "nat \<Rightarrow> tunnel \<Rightarrow> u64" where
  "get_elapsed_milliseconds now t = word_of_nat (now - tn_time t)"

definition append_rtt :: "tunnel \<Rightarrow> i64 \<Rightarrow> tunnel res" where
  "append_rtt t rtt =
     and_then (vec_get (tn_rtt_queue t) (tn_rtt_index t)) (\<lambda>rtt_remove.
     and_then (vec_set (tn_rtt_queue t) (tn_rtt_index t) rtt) (\<lambda>queue.
     Inr (t\<lparr>tn_rtt_queue := queue, tn_rtt_index := (tn_rtt_index t + 1) mod length queue,
            tn_rtt_sum := tn_rtt_sum t + rtt - rtt_remove\<rparr>)))"

definition on_pong :: "nat \<Rightarrow> tunnel \<Rightarrow> bytes \<Rightarrow> tunnel res" where
  "on_pong now t bs =
     (if length bs \<noteq> 8 then Inr t
      else
        let t = t\<lparr>tn_ping_count := 0\<rparr> in
        and_then (rd_u64 bs 0) (\<lambda>(timestamp, _).
        let in_ms = get_elapsed_milliseconds now t in
        if in_ms < timestamp then Inl Panicked
        else append_rtt t (in_ms - timestamp)))"

definition send_ping :: "(chan \<Rightarrow> bool) \<Rightarrow> nat \<Rightarrow> tunnel \<Rightarrow> (tunnel \<times> effect list \<times> bool) res" where
  "send_ping alive now t =
     (let ping_count = tn_ping_count t in
      if 5 < ping_count then Inr (t, [], False)
      else
        let timestamp = get_elapsed_milliseconds now t in
        and_then (put_at 0 (le16 11) (replicate 11 0)) (\<lambda>bs.
        and_then (put_at 2 [cmd_code Ping] bs) (\<lambda>bs.
        and_then (put_at 3 (le64 timestamp) bs) (\<lambda>bs.
        case tx_send alive (tn_tx t) (wmessage_new bs 0) of
          (eff, False) \<Rightarrow> Inr (t, eff, True)
        | (eff, True) \<Rightarrow>
            let t = t\<lparr>tn_ping_count := tn_ping_count t + 1\<rparr> in
            and_then (if 0 < ping_count then append_rtt t (ucast ping_count * KEEP_ALIVE_INTERVAL) else Inr t)
              (\<lambda>t. Inr (t, eff, True))))))"

section \<open>Requests\<close>

definition get_request_tx :: "tunnel \<Rightarrow> u16 \<Rightarrow> u16 \<Rightarrow> chan option" where
  "get_request_tx t req_idx req_tag =
     (let es = rqq_elements (tn_requests t) in
      if length es \<le> unat req_idx then None
      else
        let req = es ! unat req_idx in
        if rq_tag req = req_tag \<and> rq_request_tx req \<noteq> None then rq_request_tx req else None)"

definition free_request_tx :: "tunnel \<Rightarrow> u16 \<Rightarrow> u16 \<Rightarrow> tunnel" where
  "free_request_tx t req_idx req_tag =
     (let q = tn_requests t; es = rqq_elements q in
      if length es \<le> unat req_idx then t
      else
        let req = es ! unat req_idx in
        if rq_tag req = req_tag \<and> rq_request_tx req \<noteq> None then
          t\<lparr>tn_requests := q\<lparr>rqq_elements := es[unat req_idx := req\<lparr>rq_request_tx := None\<rparr>]\<rparr>\<rparr>
        else t)"

definition on_request_created_internal :: "tunnel \<Rightarrow> request \<Rightarrow> (tunnel \<times> tun_stub option) res" where
  "on_request_created_internal t req =
     and_then (reqq_alloc (tn_requests t) req) (\<lambda>(q, idx, tag).
     let t = t\<lparr>tn_requests := q\<rparr> in
     if idx \<noteq> U16_MAX then
       Inr (t\<lparr>tn_req_count := tn_req_count t + 1\<rparr>,
            Some \<lparr>ts_tunnel_tx = tn_tx t, ts_tun_idx = word_of_nat (tn_index t), ts_req_idx = idx,
                  ts_req_tag = tag, ts_request_quota = tn_request_quota t\<rparr>)
     else Inr (t, None))"

definition send_request_created_to_server ::
  "(chan \<Rightarrow> bool) \<Rightarrow> tun_stub \<Rightarrow> ip_addr \<Rightarrow> u16 \<Rightarrow> effect list res" where
  "send_request_created_to_server alive ts ip port =
     (let ipaddr_length = (case ip of V4 _ \<Rightarrow> 4 | V6 _ \<Rightarrow> 16);
          content_size = 1 + ipaddr_length + 2;
          hsize = 2 + 1 + THEADER_SIZE;
          total = hsize + content_size
      in
      and_then (put_at 0 (le16 (word_of_nat total)) (replicate total 0)) (\<lambda>buf.
      and_then (put_at 2 [cmd_code ReqCreated] buf) (\<lambda>buf.
      and_then (theader_write_to (theader_new (ts_req_idx ts) (ts_req_tag ts)) 3 buf) (\<lambda>buf.
      and_then
        (case ip of
           V4 v4 \<Rightarrow> and_then (put_at hsize [0] buf) (write_u8s (octets4 v4) (hsize + 1))
         | V6 v6 \<Rightarrow> and_then (put_at hsize [2] buf) (write_u16s (segments v6) (hsize + 1))) (\<lambda>(buf, offset).
      and_then (put_at offset (le16 port) buf) (\<lambda>buf.
      Inr (fst (tx_send alive (ts_tunnel_tx ts) (wmessage_new buf 0)))))))))"

definition send_request_closed_to_server :: "(chan \<Rightarrow> bool) \<Rightarrow> tun_stub \<Rightarrow> effect list res" where
  "send_request_closed_to_server alive ts =
     (let content_size = 0; hsize = 2 + 1 + THEADER_SIZE; total = hsize + content_size in
      and_then (put_at 0 (le16 (word_of_nat total)) (replicate total 0)) (\<lambda>buf.
      and_then (put_at 2 [cmd_code ReqClientClosed] buf) (\<lambda>buf.
      and_then (theader_write_to (theader_new (ts_req_idx ts) (ts_req_tag ts)) 3 buf) (\<lambda>buf.
      Inr (fst (tx_send alive (ts_tunnel_tx ts) (wmessage_new buf 0)))))))"

definition on_request_created ::
  "(chan \<Rightarrow> bool) \<Rightarrow> tunnel \<Rightarrow> request \<Rightarrow> ip_addr \<Rightarrow> u16 \<Rightarrow> (tunnel \<times> effect list \<times> tun_stub option) res" where
  "on_request_created alive t req ip port =
     and_then (on_request_created_internal t req) (\<lambda>(t, ts).
     case ts of
       Some ts \<Rightarrow> and_then (send_request_created_to_server alive ts ip port) (\<lambda>eff. Inr (t, eff, Some ts))
     | None \<Rightarrow> Inr (t, [], None))"

definition on_request_closed :: "(chan \<Rightarrow> bool) \<Rightarrow> tunnel \<Rightarrow> tun_stub \<Rightarrow> (tunnel \<times> effect list) res" where
  "on_request_closed alive t tunstub =
     (case reqq_free (tn_requests t) (ts_req_idx tunstub) (ts_req_tag tunstub) of
        (q, r) \<Rightarrow>
          let t = t\<lparr>tn_requests := q\<rparr> in
          if r then
            and_then (send_request_closed_to_server alive tunstub) (\<lambda>eff.
            Inr (t\<lparr>tn_req_count := tn_req_count t - 1\<rparr>, eff))
          else Inr (t, []))"

definition on_closed :: "tunnel \<Rightarrow> tunnel" where
  "on_closed t = t\<lparr>tn_requests := reqq_clear_all (tn_requests t)\<rparr>"

definition close_rawfd :: "tunnel \<Rightarrow> effect list" where
  "close_rawfd t = [ShutdownFd (tn_rawfd t)]"

definition set_udpx_tx :: "tunnel \<Rightarrow> chan \<Rightarrow> tunnel" where
  "set_udpx_tx t tx = t\<lparr>tn_udpx_tx := Some tx\<rparr>"

section \<open>UDP datagrams\<close>

definition udp_proxy_north ::
  "(chan \<Rightarrow> bool) \<Rightarrow> tunnel \<Rightarrow> bytes \<Rightarrow> socket_addr \<Rightarrow> socket_addr \<Rightarrow> effect list res" where
  "udp_proxy_north alive t msg src_addr dst_addr =
     (let content_size = length msg;
          content_size = content_size + (if is_ipv4 (sa_ip src_addr) then 7 else 19);
          content_size = content_size + (if is_ipv4 (sa_ip dst_addr) then 7 else 19);
          hsize = 2 + 1;
          total = hsize + content_size
      in
      and_then (put_at 0 (le16 (word_of_nat total)) (replicate total 0)) (\<lambda>buf.
      and_then (put_at 2 [cmd_code UdpX] buf) (\<lambda>buf.
      and_then (write_socketaddr buf 3 src_addr) (\<lambda>(buf, offset).
      and_then (write_socketaddr buf offset dst_addr) (\<lambda>(buf, offset).
      and_then (if length (drop offset buf) = length msg then Inr (take offset buf @ msg) else Inl Panicked) (\<lambda>buf.
      Inr (fst (tx_send alive (tn_tx t) (wmessage_new buf 0)))))))))"

text \<open>\<^verbatim>\<open>&v[k..]\<close> panics where the vector is shorter than \<open>k\<close>.\<close>

definition slice_from :: "nat \<Rightarrow> bytes \<Rightarrow> bytes res" where
  "slice_from k bs = (if k \<le> length bs then Inr (drop k bs) else Inl Panicked)"

definition on_udpx_south :: "(chan \<Rightarrow> bool) \<Rightarrow> tunnel \<Rightarrow> rmessage \<Rightarrow> effect list res" where
  "on_udpx_south alive t msg =
     (case tn_udpx_tx t of
        None \<Rightarrow> Inr []
      | Some udpx_tx \<Rightarrow>
          let bsv = rm_buf msg in
          and_then (slice_from 3 bsv) (\<lambda>bs.
          and_then (read_socketaddr bs 0) (\<lambda>(src_addr, offset).
          and_then (read_socketaddr bs offset) (\<lambda>(dst_addr, offset).
          and_then (slice_from (3 + offset) bsv) (\<lambda>bb.
          Inr (if alive udpx_tx then [SentUdp udpx_tx bb src_addr dst_addr] else []))))))"

section \<open>Dispatch\<close>

definition reply_ping :: "(chan \<Rightarrow> bool) \<Rightarrow> tunnel \<Rightarrow> rmessage \<Rightarrow> effect list res" where
  "reply_ping alive t msg =
     and_then (put_at 2 [cmd_code Pong] (rm_buf msg)) (\<lambda>vec.
     Inr (fst (tx_send alive (tn_tx t) (wmessage_new vec 0))))"

definition on_tunnel_msg :: "(chan \<Rightarrow> bool) \<Rightarrow> nat \<Rightarrow> tunnel \<Rightarrow> rmessage \<Rightarrow> (tunnel \<times> effect list) res" where
  "on_tunnel_msg alive now t msg =
     and_then (slice_from 2 (rm_buf msg)) (\<lambda>bs.
     let t = t\<lparr>tn_busy := tn_busy t + length bs\<rparr> in
     and_then (rd_u8 bs 0) (\<lambda>(cmd, _).
     and_then (slice_from 1 bs) (\<lambda>bs.
     and_then (cmd_from cmd) (\<lambda>cmd.
     case cmd of
       Ping \<Rightarrow> and_then (reply_ping alive t msg) (\<lambda>eff. Inr (t, eff))
     | Pong \<Rightarrow> and_then (on_pong now t bs) (\<lambda>t. Inr (t, []))
     | UdpX \<Rightarrow> and_then (on_udpx_south alive t msg) (\<lambda>eff. Inr (t, eff))
     | ReqData \<Rightarrow>
         and_then (theader_read_from bs) (\<lambda>th.
         case get_request_tx t (th_req_idx th) (th_req_tag th) of
           None \<Rightarrow> Inr (t, [])
         | Some tx \<Rightarrow>
             Inr (t, fst (tx_send alive tx (wmessage_new (rm_buf msg) (word_of_nat (3 + THEADER_SIZE))))))
     | ReqServerFinished \<Rightarrow>
         and_then (theader_read_from bs) (\<lambda>th.
         Inr (free_request_tx t (th_req_idx th) (th_req_tag th), []))
     | ReqServerClosed \<Rightarrow>
         and_then (theader_read_from bs) (\<lambda>th.
         case reqq_free (tn_requests t) (th_req_idx th) (th_req_tag th) of
           (q, r) \<Rightarrow>
             let t = t\<lparr>tn_requests := q\<rparr> in
             Inr (if r then t\<lparr>tn_req_count := tn_req_count t - 1\<rparr> else t, []))
     | _ \<Rightarrow> Inr (t, [])))))"

section \<open>The invariant of a tunnel\<close>

text \<open>
  The queue keeps its contract and its size, the counter counts the requests in use, the sum of round
  trip times is the sum of the window, and at most six pings are unanswered.
\<close>

definition rtt_ok :: "tunnel \<Rightarrow> bool" where
  "rtt_ok t \<longleftrightarrow> length (tn_rtt_queue t) = 5 \<and> tn_rtt_index t < 5 \<and> tn_rtt_sum t = sum_list (tn_rtt_queue t)
     \<and> tn_ping_count t \<le> 6"

definition reqs_ok :: "tunnel \<Rightarrow> bool" where
  "reqs_ok t \<longleftrightarrow> reqq_ok (tn_requests t) \<and> length (rqq_elements (tn_requests t)) = unat (tn_capacity t)
     \<and> unat (tn_req_count t) = card (reqq_live (tn_requests t))"

definition tunnel_ok :: "tunnel \<Rightarrow> bool" where
  "tunnel_ok t \<longleftrightarrow> rtt_ok t \<and> reqs_ok t"

lemma tunnel_new_ok: "cap < 2 ^ 16 \<Longrightarrow> tunnel_ok (tunnel_new now tx rawfd idx cap quota)"
proof -
  assume c: "cap < 2 ^ 16"
  have "length (rqq_elements (reqq_new cap)) = cap" by (simp add: reqq_new_def)
  moreover have "sum_list (replicate n (0 :: i64)) = 0" for n by (induction n) simp_all
  ultimately show ?thesis using c reqq_new_ok [OF c]
    by (simp add: tunnel_ok_def rtt_ok_def reqs_ok_def tunnel_new_def reqq_live_new unat_of_nat_less)
qed

lemma sum_list_update_group:
  "i < length xs \<Longrightarrow> sum_list (xs[i := (v :: 'a :: ab_group_add)]) = sum_list xs + v - xs ! i"
  by (induction xs arbitrary: i) (auto split: nat.splits simp: algebra_simps)

lemma append_rtt_ok:
  assumes "rtt_ok t"
  shows "\<exists>t'. append_rtt t rtt = Inr t' \<and> rtt_ok t' \<and> tn_ping_count t' = tn_ping_count t
    \<and> tn_requests t' = tn_requests t \<and> tn_capacity t' = tn_capacity t \<and> tn_req_count t' = tn_req_count t
    \<and> tn_rtt_queue t' = (tn_rtt_queue t)[tn_rtt_index t := rtt] \<and> tn_tx t' = tn_tx t \<and> tn_time t' = tn_time t"
  using assms by (auto simp: append_rtt_def rtt_ok_def sum_list_update_group)

lemma reqs_ok_cong:
  "tn_requests t' = tn_requests t \<Longrightarrow> tn_capacity t' = tn_capacity t \<Longrightarrow> tn_req_count t' = tn_req_count t \<Longrightarrow>
   reqs_ok t' = reqs_ok t"
  by (simp add: reqs_ok_def)

lemma rtt_ok_cong:
  "tn_rtt_queue t' = tn_rtt_queue t \<Longrightarrow> tn_rtt_index t' = tn_rtt_index t \<Longrightarrow> tn_rtt_sum t' = tn_rtt_sum t \<Longrightarrow>
   tn_ping_count t' = tn_ping_count t \<Longrightarrow> rtt_ok t' = rtt_ok t"
  by (simp add: rtt_ok_def)

text \<open>Fields no part of the invariant looks at.\<close>

lemma tunnel_ok_frame [simp]:
  "tunnel_ok (t\<lparr>tn_busy := b\<rparr>) = tunnel_ok t" "tunnel_ok (t\<lparr>tn_udpx_tx := u\<rparr>) = tunnel_ok t"
  by (simp_all add: tunnel_ok_def rtt_ok_def reqs_ok_def)

lemma free_ok:
  assumes ok: "tunnel_ok t" and tag: "odd tag" and free: "reqq_free (tn_requests t) idx tag = (q, r)"
  shows "tunnel_ok (if r then t\<lparr>tn_requests := q, tn_req_count := tn_req_count t - 1\<rparr> else t\<lparr>tn_requests := q\<rparr>)"
proof -
  have q: "reqq_ok (tn_requests t)" using ok by (simp add: tunnel_ok_def reqs_ok_def)
  note c = rq.free_counts [OF q _ free]
  have h: "odd_handle (idx, tag)" using tag by (simp add: odd_handle_def)
  have len: "length (rqq_elements q) = length (rqq_elements (tn_requests t))"
    using reqq_free_length [of "tn_requests t" idx tag] free by simp
  show ?thesis
  proof (cases r)
    case True
    have n: "unat (tn_req_count t) = card (reqq_live (tn_requests t))"
      using ok by (simp add: tunnel_ok_def reqs_ok_def)
    have "card (reqq_live q) + 1 = unat (tn_req_count t)" using c [OF h] True unfolding n by simp
    moreover from this have "tn_req_count t \<noteq> 0" by auto
    ultimately have "unat (tn_req_count t - 1) = card (reqq_live q)"
      by (simp add: unat_minus_one)
    then show ?thesis using True c [OF h] ok len by (simp add: tunnel_ok_def reqs_ok_def rtt_ok_def)
  next
    case False
    then show ?thesis using c [OF h] ok len by (simp add: tunnel_ok_def reqs_ok_def rtt_ok_def)
  qed
qed

lemma alloc_ok:
  assumes ok: "tunnel_ok t"
  shows "\<exists>t' ts. on_request_created_internal t req = Inr (t', ts) \<and> tunnel_ok t' \<and>
    (ts \<noteq> None \<longleftrightarrow> tn_req_count t < tn_capacity t)"
proof -
  let ?q = "tn_requests t"
  have q: "reqq_ok ?q" and n: "unat (tn_req_count t) = card (reqq_live ?q)"
    and len: "length (rqq_elements ?q) = unat (tn_capacity t)"
    using ok by (simp_all add: tunnel_ok_def reqs_ok_def)
  have room: "unat (tn_req_count t) + reqq_room ?q = unat (tn_capacity t)"
    using reqq_room_live [OF q] n len by simp
  show ?thesis
  proof (cases "reqq_room ?q")
    case 0
    then have "on_request_created_internal t req = Inr (t, None)"
      using rq.alloc_full [OF q] by (simp add: on_request_created_internal_def)
    moreover have "\<not> tn_req_count t < tn_capacity t" using room 0 by (simp add: word_less_nat_alt)
    ultimately show ?thesis using ok by blast
  next
    case (Suc k)
    then obtain q' i u where a: "reqq_alloc ?q req = Inr (q', i, u)" "i \<noteq> U16_MAX" "reqq_ok q'"
      using rq.alloc_room [OF q, of req] by auto
    have c: "card (reqq_live q') = Suc (card (reqq_live ?q))" using rq.alloc_counts [OF q a(1,2)] by simp
    have less: "unat (tn_req_count t) < unat (tn_capacity t)" using room Suc by simp
    moreover have "unat (tn_capacity t) < 2 ^ LENGTH(16)" by (rule unsigned_less)
    ultimately have "unat (tn_req_count t + 1) = card (reqq_live q')"
      using c n by (subst unat_add_lem [THEN iffD1]) simp_all
    then have "tunnel_ok (t\<lparr>tn_requests := q', tn_req_count := tn_req_count t + 1\<rparr>)"
      using ok a(3) reqq_alloc_length [OF a(1)] by (simp add: tunnel_ok_def reqs_ok_def rtt_ok_def)
    then show ?thesis using a less by (auto simp: on_request_created_internal_def word_less_nat_alt)
  qed
qed

lemma free_request_tx_ok:
  assumes "tunnel_ok t"
  shows "tunnel_ok (free_request_tx t idx tag)"
proof -
  let ?q = "tn_requests t"
  let ?q' = "?q\<lparr>rqq_elements := (rqq_elements ?q)[unat idx := (rqq_elements ?q ! unat idx)\<lparr>rq_request_tx := None\<rparr>]\<rparr>"
  have tags: "rq_tag (rqq_elements ?q' ! i) = rq_tag (rqq_elements ?q ! i)" for i
    by (cases "unat idx = i"; cases "i < length (rqq_elements ?q)") (simp_all add: list_update_beyond)
  have "reqq_ok ?q'" if "unat idx < length (rqq_elements ?q)"
    using assms that by (auto simp: tunnel_ok_def reqs_ok_def reqq_ok_def nth_list_update)
  moreover have "reqq_live ?q' = reqq_live ?q"
    using tags by (auto simp: reqq_live_def)
  ultimately show ?thesis
    using assms by (auto simp: free_request_tx_def Let_def tunnel_ok_def reqs_ok_def rtt_ok_def not_le)
qed

section \<open>Messages\<close>

text \<open>A message of the protocol: length, command, body.\<close>

definition tun_msg :: "cmd \<Rightarrow> bytes \<Rightarrow> bytes" where
  "tun_msg c body = le16 (word_of_nat (3 + length body)) @ cmd_code c # body"

definition req_body :: "u16 \<Rightarrow> u16 \<Rightarrow> bytes \<Rightarrow> bytes" where
  "req_body idx tag payload = le16 idx @ le16 tag @ payload"

definition dispatch :: "(chan \<Rightarrow> bool) \<Rightarrow> nat \<Rightarrow> tunnel \<Rightarrow> rmessage \<Rightarrow> cmd \<Rightarrow> bytes \<Rightarrow> (tunnel \<times> effect list) res" where
  "dispatch alive now t msg c body =
    (case c of
       Ping \<Rightarrow> and_then (reply_ping alive t msg) (\<lambda>eff. Inr (t, eff))
     | Pong \<Rightarrow> and_then (on_pong now t body) (\<lambda>t. Inr (t, []))
     | UdpX \<Rightarrow> and_then (on_udpx_south alive t msg) (\<lambda>eff. Inr (t, eff))
     | ReqData \<Rightarrow>
         and_then (theader_read_from body) (\<lambda>th.
         case get_request_tx t (th_req_idx th) (th_req_tag th) of
           None \<Rightarrow> Inr (t, [])
         | Some tx \<Rightarrow> Inr (t, fst (tx_send alive tx (wmessage_new (rm_buf msg) 7))))
     | ReqServerFinished \<Rightarrow>
         and_then (theader_read_from body) (\<lambda>th.
         Inr (free_request_tx t (th_req_idx th) (th_req_tag th), []))
     | ReqServerClosed \<Rightarrow>
         and_then (theader_read_from body) (\<lambda>th.
         case reqq_free (tn_requests t) (th_req_idx th) (th_req_tag th) of
           (q, r) \<Rightarrow> Inr (if r then t\<lparr>tn_requests := q, tn_req_count := tn_req_count t - 1\<rparr>
                          else t\<lparr>tn_requests := q\<rparr>, []))
     | _ \<Rightarrow> Inr (t, []))"

lemma on_tunnel_msg_dispatch:
  "rm_buf msg = a # b # cmd_code c # body \<Longrightarrow>
   on_tunnel_msg alive now t msg = dispatch alive now (t\<lparr>tn_busy := tn_busy t + length body + 1\<rparr>) msg c body"
  by (cases c) (auto simp: on_tunnel_msg_def slice_from_def rd_u8_def Let_def dispatch_def THEADER_SIZE_def
      simp del: cmd_code.simps intro!: and_then_eqI split: prod.splits option.splits)

lemma on_tunnel_msg_Inr:
  assumes "on_tunnel_msg alive now t msg = Inr r"
  obtains a b c body where "rm_buf msg = a # b # cmd_code c # body"
proof -
  have len: "2 < length (rm_buf msg)"
    using assms by (auto simp: on_tunnel_msg_def slice_from_def rd_u8_def Let_def split: if_splits)
  then obtain a b v body where buf: "rm_buf msg = a # b # v # body"
    by (metis One_nat_def Suc_1 length_Cons list.size(3) neq_Nil_conv not_less_eq not_less_zero)
  then obtain c where "cmd_from v = Inr c"
    using assms by (auto simp: on_tunnel_msg_def slice_from_def rd_u8_def Let_def and_then_Inr_iff)
  then show ?thesis using that buf cmd_from_cases by simp
qed

lemma on_pong_ok:
  "tunnel_ok t \<Longrightarrow> on_pong now t bs = Inr t' \<Longrightarrow> tunnel_ok t'"
proof -
  assume ok: "tunnel_ok t" and pong: "on_pong now t bs = Inr t'"
  show "tunnel_ok t'"
  proof (cases "length bs = 8")
    case True
    have r: "rtt_ok (t\<lparr>tn_ping_count := 0\<rparr>)" "reqs_ok (t\<lparr>tn_ping_count := 0\<rparr>)"
      using ok by (simp_all add: tunnel_ok_def rtt_ok_def reqs_ok_def)
    show ?thesis
      using pong True append_rtt_ok [OF r(1)] r(2)
      by (auto simp: on_pong_def Let_def and_then_Inr_iff tunnel_ok_def reqs_ok_def split: if_splits)
         (metis Inr_inject)+
  qed (use ok pong in \<open>simp add: on_pong_def\<close>)
qed

text \<open>A peer that closes requests only under tags it has been given: those are odd.\<close>

definition closes_honestly :: "rmessage \<Rightarrow> bool" where
  "closes_honestly msg \<longleftrightarrow> (case rm_buf msg of
     _ # _ # c # body \<Rightarrow> c = cmd_code ReqServerClosed \<longrightarrow>
       (case theader_read_from body of Inr th \<Rightarrow> odd (th_req_tag th) | Inl _ \<Rightarrow> True)
   | _ \<Rightarrow> True)"

lemma dispatch_ok:
  assumes ok: "tunnel_ok t" and res: "dispatch alive now t msg c body = Inr (t', eff)"
    and honest: "\<And>th. c = ReqServerClosed \<Longrightarrow> theader_read_from body = Inr th \<Longrightarrow> odd (th_req_tag th)"
  shows "tunnel_ok t'"
proof (cases c)
  case ReqServerClosed
  then obtain th where th: "theader_read_from body = Inr th"
    using res by (auto simp: dispatch_def and_then_Inr_iff)
  obtain q r where q: "reqq_free (tn_requests t) (th_req_idx th) (th_req_tag th) = (q, r)" by fastforce
  show ?thesis
    using free_ok [OF ok honest [OF ReqServerClosed th] q] res ReqServerClosed th q
    by (simp add: dispatch_def)
qed (use ok res in \<open>auto simp: dispatch_def and_then_Inr_iff free_request_tx_ok on_pong_ok split: option.splits\<close>)

lemma on_tunnel_msg_ok:
  assumes ok: "tunnel_ok t" and res: "on_tunnel_msg alive now t msg = Inr (t', eff)"
    and honest: "closes_honestly msg"
  shows "tunnel_ok t'"
proof -
  obtain a b c body where buf: "rm_buf msg = a # b # cmd_code c # body"
    using on_tunnel_msg_Inr [OF res] .
  show ?thesis
  proof (rule dispatch_ok)
    show "dispatch alive now (t\<lparr>tn_busy := tn_busy t + length body + 1\<rparr>) msg c body = Inr (t', eff)"
      using res on_tunnel_msg_dispatch [OF buf] by simp
    show "odd (th_req_tag th)" if "c = ReqServerClosed" "theader_read_from body = Inr th" for th
      using honest that by (simp add: closes_honestly_def buf)
  qed (use ok in simp)
qed

lemma send_ping_ok:
  assumes ok: "tunnel_ok t"
  shows "\<exists>t' eff b. send_ping alive now t = Inr (t', eff, b) \<and> tunnel_ok t' \<and> (b \<longleftrightarrow> tn_ping_count t \<le> 5) \<and>
    tn_ping_count t' = (if b \<and> alive (tn_tx t) then tn_ping_count t + 1 else tn_ping_count t) \<and> tn_tx t' = tn_tx t"
proof (cases "5 < tn_ping_count t")
  case True
  then have "\<not> tn_ping_count t \<le> 5" by simp
  then show ?thesis using True ok
    by (intro exI [of _ t] exI [of _ "[]"] exI [of _ False]) (simp add: send_ping_def)
next
  case False
  let ?m = "wmessage_new ([11, 0, 8] @ le64 (get_elapsed_milliseconds now t)) 0"
  have bs: "and_then (put_at 0 (le16 11) (replicate 11 0)) (\<lambda>bs. and_then (put_at 2 [8] bs) (\<lambda>bs.
      and_then (put_at 3 (le64 ts) bs) f)) = f ([11, 0, 8] @ le64 ts)" for ts and f :: "bytes \<Rightarrow> 'b res"
    by (simp add: put_at_def le16_def le64_def le32_def)
  let ?t1 = "t\<lparr>tn_ping_count := tn_ping_count t + 1\<rparr>"
  have less: "unat (tn_ping_count t) \<le> 5" using False by (simp add: not_less word_le_nat_alt)
  then have "unat (tn_ping_count t + 1) = unat (tn_ping_count t) + 1"
    by (subst unat_add_lem [THEN iffD1]) simp_all
  then have "tn_ping_count t + 1 \<le> 6" using less by (simp add: word_le_nat_alt)
  then have r: "rtt_ok ?t1" "reqs_ok ?t1"
    using ok by (simp_all add: tunnel_ok_def rtt_ok_def reqs_ok_def)
  then have t1: "tunnel_ok ?t1" by (simp add: tunnel_ok_def)
  obtain t2 where t2: "append_rtt ?t1 (ucast (tn_ping_count t) * KEEP_ALIVE_INTERVAL) = Inr t2" "rtt_ok t2"
      "tn_ping_count t2 = tn_ping_count ?t1" "tn_tx t2 = tn_tx ?t1" "reqs_ok t2"
    using append_rtt_ok [OF r(1), of "ucast (tn_ping_count t) * KEEP_ALIVE_INTERVAL"] r(2) by (auto simp: reqs_ok_def)
  then have "tunnel_ok t2" by (simp add: tunnel_ok_def)
  note t2_ok = this
  have le: "tn_ping_count t \<le> 5" using False by simp
  show ?thesis
  proof (cases "alive (tn_tx t)")
    case dead: False
    then have "send_ping alive now t = Inr (t, [], True)"
      using False by (simp add: send_ping_def bs Let_def tx_send_def)
    then show ?thesis using ok dead le by auto
  next
    case live: True
    show ?thesis
    proof (cases "tn_ping_count t = 0")
      case True
      then have "send_ping alive now t = Inr (?t1, [Sent (tn_tx t) ?m], True)"
        using False live by (simp add: send_ping_def bs Let_def tx_send_def)
      then show ?thesis using t1 live le by auto
    next
      case nonzero: False
      then have "0 < tn_ping_count t" by (simp add: word_greater_zero_iff)
      then have "send_ping alive now t = Inr (t2, [Sent (tn_tx t) ?m], True)"
        using False live t2(1) by (simp add: send_ping_def bs Let_def tx_send_def)
      then show ?thesis using t2 t2_ok live le by auto
    qed
  qed
qed

lemma created_messages:
  "send_request_closed_to_server alive ts =
     Inr (fst (tx_send alive (ts_tunnel_tx ts)
       (wmessage_new (tun_msg ReqClientClosed (req_body (ts_req_idx ts) (ts_req_tag ts) [])) 0)))"
  "send_request_created_to_server alive ts ip port =
     Inr (fst (tx_send alive (ts_tunnel_tx ts)
       (wmessage_new (tun_msg ReqCreated (req_body (ts_req_idx ts) (ts_req_tag ts)
         ((case ip of V4 v4 \<Rightarrow> 0 # octets4 v4 | V6 v6 \<Rightarrow> 2 # concat (map le16 (segments v6))) @ le16 port))) 0)))"
proof -
  show "send_request_closed_to_server alive ts =
     Inr (fst (tx_send alive (ts_tunnel_tx ts)
       (wmessage_new (tun_msg ReqClientClosed (req_body (ts_req_idx ts) (ts_req_tag ts) [])) 0)))"
    by (simp add: send_request_closed_to_server_def put_at_def theader_write_to_def theader_new_def
        tun_msg_def req_body_def le16_def THEADER_SIZE_def Let_def numeral_eq_Suc)
  show "send_request_created_to_server alive ts ip port =
     Inr (fst (tx_send alive (ts_tunnel_tx ts)
       (wmessage_new (tun_msg ReqCreated (req_body (ts_req_idx ts) (ts_req_tag ts)
         ((case ip of V4 v4 \<Rightarrow> 0 # octets4 v4 | V6 v6 \<Rightarrow> 2 # concat (map le16 (segments v6))) @ le16 port))) 0)))"
  proof (cases ip)
    case (V4 v4)
    then show ?thesis
      by (cases v4) (simp add: send_request_created_to_server_def put_at_def theader_write_to_def theader_new_def
        tun_msg_def req_body_def le16_def THEADER_SIZE_def Let_def)
  next
    case (V6 v6)
    then show ?thesis
      by (cases v6) (simp add: send_request_created_to_server_def put_at_def theader_write_to_def theader_new_def
        tun_msg_def req_body_def le16_def THEADER_SIZE_def Let_def)
  qed
qed

section \<open>Histories of a tunnel\<close>

datatype tun_input =
    FromServer nat rmessage
  | RequestCreated request ip_addr u16
  | RequestClosed tun_stub
  | PingTimer nat
  | BusyReset
  | UdpxStarted chan

fun tun_step :: "(chan \<Rightarrow> bool) \<Rightarrow> tunnel \<Rightarrow> tun_input \<Rightarrow> (tunnel \<times> effect list) res" where
  "tun_step alive t (FromServer now msg) = on_tunnel_msg alive now t msg"
| "tun_step alive t (RequestCreated req ip port) =
     and_then (on_request_created alive t req ip port) (\<lambda>(t, eff, _). Inr (t, eff))"
| "tun_step alive t (RequestClosed ts) = on_request_closed alive t ts"
| "tun_step alive t (PingTimer now) = and_then (send_ping alive now t) (\<lambda>(t, eff, _). Inr (t, eff))"
| "tun_step alive t BusyReset = Inr (reset_busy t, [])"
| "tun_step alive t (UdpxStarted tx) = Inr (set_udpx_tx t tx, [])"

fun honest_input :: "tun_input \<Rightarrow> bool" where
  "honest_input (FromServer now msg) = closes_honestly msg"
| "honest_input (RequestClosed ts) = odd (ts_req_tag ts)"
| "honest_input _ = True"

inductive tunnel_reaches :: "(chan \<Rightarrow> bool) \<Rightarrow> tunnel \<Rightarrow> tunnel \<Rightarrow> bool" for alive t0 where
  start: "tunnel_reaches alive t0 t0"
| step: "tunnel_reaches alive t0 t \<Longrightarrow> honest_input i \<Longrightarrow> tun_step alive t i = Inr (t', eff) \<Longrightarrow>
    tunnel_reaches alive t0 t'"

inductive_cases tunnel_reachesE: "tunnel_reaches alive t0 t"

lemma created_ok:
  assumes ok: "tunnel_ok t"
  shows "\<exists>t' eff ts. on_request_created alive t req ip port = Inr (t', eff, ts) \<and> tunnel_ok t' \<and>
    (ts \<noteq> None \<longleftrightarrow> tn_req_count t < tn_capacity t)"
  using alloc_ok [OF ok, of req]
  by (auto simp: on_request_created_def created_messages split: option.splits)

lemma closed_ok:
  assumes ok: "tunnel_ok t" and tag: "odd (ts_req_tag ts)"
  shows "\<exists>t' eff. on_request_closed alive t ts = Inr (t', eff) \<and> tunnel_ok t'"
proof -
  obtain q r where q: "reqq_free (tn_requests t) (ts_req_idx ts) (ts_req_tag ts) = (q, r)" by fastforce
  show ?thesis using free_ok [OF ok tag q]
    by (cases r) (simp_all add: on_request_closed_def q created_messages Let_def)
qed

lemma tun_step_ok:
  assumes "tunnel_ok t" "honest_input i" "tun_step alive t i = Inr (t', eff)"
  shows "tunnel_ok t'"
proof (cases i)
  case (FromServer now msg)
  then show ?thesis using assms on_tunnel_msg_ok by simp
next
  case (RequestCreated req ip port)
  then show ?thesis using assms created_ok [OF assms(1), of alive req ip port] by auto
next
  case (RequestClosed ts)
  then show ?thesis using assms closed_ok [OF assms(1), of ts alive] by auto
next
  case (PingTimer now)
  then show ?thesis using assms send_ping_ok [OF assms(1), of alive now] by auto
qed (use assms in \<open>auto simp: reset_busy_def set_udpx_tx_def\<close>)

lemma tunnel_reaches_ok: "tunnel_reaches alive t0 t \<Longrightarrow> tunnel_ok t0 \<Longrightarrow> tunnel_ok t"
  by (induction rule: tunnel_reaches.induct) (auto intro: tun_step_ok)

section \<open>Properties\<close>

text \<open>
  C8: along every history of a tunnel whose peer and clients close requests under the tags they were
  given, in any order and with any repetitions, the request counter is the number of slots in use and
  never wraps, the running round-trip sum is the sum of its window, at most six pings are unanswered,
  and a request is accepted exactly when the counter is below the capacity.
\<close>

theorem tunnel_invariant:
  assumes "cap < 2 ^ 16" "tunnel_reaches alive (tunnel_new now tx rawfd idx cap quota) t"
  shows "unat (tn_req_count t) = card (reqq_live (tn_requests t)) \<and>
    tn_rtt_sum t = sum_list (tn_rtt_queue t) \<and> length (tn_rtt_queue t) = 5 \<and> tn_ping_count t \<le> 6 \<and>
    (\<exists>t' eff ts. on_request_created alive t req ip port = Inr (t', eff, ts) \<and>
      (ts \<noteq> None \<longleftrightarrow> tn_req_count t < tn_capacity t))"
proof -
  have "tunnel_ok t" using assms(2) by (rule tunnel_reaches_ok) (rule tunnel_new_ok [OF assms(1)])
  then show ?thesis
    using created_ok [of t alive req ip port] by (auto simp: tunnel_ok_def rtt_ok_def reqs_ok_def)
qed

definition busy_tunnel :: tunnel where
  "busy_tunnel = (case tun_step (\<lambda>_. True) (tunnel_new 0 1 2 3 4 5)
      (RequestCreated (request_with 6 7) (V4 (Ipv4Addr 1 2 3 4)) 80) of Inr (t, _) \<Rightarrow> t)"

lemma tunnel_invariant_witness:
  "unat (tn_req_count busy_tunnel) = card (reqq_live (tn_requests busy_tunnel)) \<and>
    tn_rtt_sum busy_tunnel = sum_list (tn_rtt_queue busy_tunnel) \<and> length (tn_rtt_queue busy_tunnel) = 5 \<and>
    tn_ping_count busy_tunnel \<le> 6 \<and>
    (\<exists>t' eff ts. on_request_created (\<lambda>_. True) busy_tunnel (request_with 8 9) (V4 (Ipv4Addr 1 2 3 4)) 81 = Inr (t', eff, ts) \<and>
      (ts \<noteq> None \<longleftrightarrow> tn_req_count busy_tunnel < tn_capacity busy_tunnel))"
proof (rule tunnel_invariant)
  obtain t eff where step: "tun_step (\<lambda>_. True) (tunnel_new 0 1 2 3 4 5)
      (RequestCreated (request_with 6 7) (V4 (Ipv4Addr 1 2 3 4)) 80) = Inr (t, eff)"
    using created_ok [OF tunnel_new_ok, of 4 "\<lambda>_. True" 0 1 2 3 5 "request_with 6 7" "V4 (Ipv4Addr 1 2 3 4)" 80]
    by auto
  then have "t = busy_tunnel" by (simp add: busy_tunnel_def)
  then show "tunnel_reaches (\<lambda>_. True) (tunnel_new 0 1 2 3 4 5) busy_tunnel"
    using tunnel_reaches.step [OF tunnel_reaches.start _ step] by simp
qed simp

text \<open>Which messages a tunnel can take: the exact complement is a panic.\<close>

definition msg_acceptable :: "nat \<Rightarrow> tunnel \<Rightarrow> bytes \<Rightarrow> bool" where
  "msg_acceptable now t bs \<longleftrightarrow> 3 \<le> length bs \<and> bs ! 2 \<le> 10 \<and>
     (bs ! 2 \<in> {cmd_code ReqData, cmd_code ReqServerFinished, cmd_code ReqServerClosed} \<longrightarrow> 7 \<le> length bs) \<and>
     (bs ! 2 = cmd_code Pong \<and> length bs = 11 \<longrightarrow> of_le64 (drop 3 bs) \<le> get_elapsed_milliseconds now t) \<and>
     (bs ! 2 = cmd_code UdpX \<and> tn_udpx_tx t \<noteq> None \<longrightarrow>
        (case read_socketaddr (drop 3 bs) 0 of
           Inl _ \<Rightarrow> False
         | Inr (_, off) \<Rightarrow> \<exists>r. read_socketaddr (drop 3 bs) off = Inr r))"

lemma theader_read_ok: "(\<exists>th. theader_read_from bs = Inr th) \<longleftrightarrow> 4 \<le> length bs"
  by (auto simp: theader_read_from_def rd_u16_def and_then_def)

lemma read_socketaddr_bound: "read_socketaddr bs off = Inr (a, off') \<Longrightarrow> off' \<le> length bs"
  by (auto simp: read_socketaddr_def and_then_Inr_iff rd_u16_def rd_u8_def split: if_splits)

lemma code_le_10: "(\<exists>c. v = cmd_code c) \<longleftrightarrow> v \<le> 10"
proof
  assume "v \<le> 10"
  then have "unat v \<le> 10" by (simp add: word_le_nat_alt)
  then have "unat v \<in> {0, 1, 2, 3, 4, 5, 6, 7, 8, 9, 10}" by (simp, presburger)
  then have "v \<in> {0, 1, 2, 3, 4, 5, 6, 7, 8, 9, 10}" by (auto simp: word_unat_eq_iff)
  then show "\<exists>c. v = cmd_code c" using cmd_code.simps by (metis empty_iff insert_iff)
next
  assume "\<exists>c. v = cmd_code c"
  then obtain c where "v = cmd_code c" ..
  then show "v \<le> 10" by (cases c) simp_all
qed

lemma dispatch_udpx:
  assumes buf: "rm_buf msg = a # b # c # body"
  shows "(\<exists>r. dispatch alive now t msg UdpX body = Inr r) \<longleftrightarrow> (tn_udpx_tx t \<noteq> None \<longrightarrow>
     (case read_socketaddr body 0 of Inl _ \<Rightarrow> False | Inr (_, off) \<Rightarrow> \<exists>r. read_socketaddr body off = Inr r))"
proof (cases "tn_udpx_tx t")
  case (Some u)
  have d3: "drop 3 (a # b # c # body) = body" by (simp add: numeral_3_eq_3)
  note run = dispatch_def on_udpx_south_def slice_from_def buf d3 Some
  show ?thesis
  proof (cases "read_socketaddr body 0")
    case (Inr p)
    obtain src off where p: "p = (src, off)" by fastforce
    show ?thesis
    proof (cases "read_socketaddr body off")
      case dst: (Inr p2)
      obtain dst off2 where p2: "p2 = (dst, off2)" by fastforce
      have "off2 \<le> length body" using read_socketaddr_bound dst p2 by blast
      then show ?thesis using dst p2 by (simp add: run Inr p)
    qed (simp add: run Inr p)
  qed (simp add: run)
qed (simp add: dispatch_def on_udpx_south_def)

lemma dispatch_slot:
  assumes "c \<in> {ReqData, ReqServerFinished, ReqServerClosed}"
  shows "(\<exists>r. dispatch alive now t msg c body = Inr r) \<longleftrightarrow> 4 \<le> length body"
proof (cases "theader_read_from body")
  case (Inr th)
  then show ?thesis using theader_read_ok [of body] assms
    by (cases "get_request_tx t (th_req_idx th) (th_req_tag th)"; cases "reqq_free (tn_requests t) (th_req_idx th) (th_req_tag th)")
       (auto simp: dispatch_def and_then_Inr_iff)
next
  case (Inl f)
  then show ?thesis using theader_read_ok [of body] assms by (auto simp: dispatch_def)
qed

lemma dispatch_total:
  assumes ok: "tunnel_ok t" and buf: "rm_buf msg = a # b # cmd_code c # body"
  shows "(\<exists>r. dispatch alive now t msg c body = Inr r) \<longleftrightarrow> msg_acceptable now t (rm_buf msg)"
proof -
  have le: "cmd_code c \<le> 10" using code_le_10 by blast
  have d3: "drop 3 (a # b # cmd_code c # body) = body" by (simp add: numeral_3_eq_3)
  have acc: "msg_acceptable now t (rm_buf msg) \<longleftrightarrow>
     (c \<in> {ReqData, ReqServerFinished, ReqServerClosed} \<longrightarrow> 4 \<le> length body) \<and>
     (c = Pong \<and> length body = 8 \<longrightarrow> of_le64 body \<le> get_elapsed_milliseconds now t) \<and>
     (c = UdpX \<and> tn_udpx_tx t \<noteq> None \<longrightarrow>
        (case read_socketaddr body 0 of Inl _ \<Rightarrow> False | Inr (_, off) \<Rightarrow> \<exists>r. read_socketaddr body off = Inr r))"
    using le unfolding msg_acceptable_def buf d3 by (cases c) simp_all
  show ?thesis
  proof (cases "c \<in> {ReqData, ReqServerFinished, ReqServerClosed}")
    case True
    then show ?thesis unfolding acc using dispatch_slot [OF True, of alive now t msg body] by auto
  next
    case other: False
    show ?thesis
    proof (cases c)
      case Pong
      have "rtt_ok (t\<lparr>tn_ping_count := 0\<rparr>)" using ok by (simp add: tunnel_ok_def rtt_ok_def)
      then have "\<exists>t'. append_rtt (t\<lparr>tn_ping_count := 0\<rparr>) rtt = Inr t'" for rtt using append_rtt_ok by blast
      then show ?thesis unfolding acc
        by (auto simp: dispatch_def Pong on_pong_def and_then_Inr_iff rd_u64_def Let_def get_elapsed_milliseconds_def not_less)
    next
      case UdpX
      then show ?thesis unfolding acc using dispatch_udpx [OF buf, of alive now t] by simp
    next
      case Ping
      then show ?thesis unfolding acc by (auto simp: dispatch_def reply_ping_def put_at_def buf)
    qed (use other in \<open>simp_all add: acc dispatch_def\<close>)
  qed
qed

lemma on_tunnel_msg_exact:
  assumes "tunnel_ok t"
  shows "(\<exists>r. on_tunnel_msg alive now t msg = Inr r) \<longleftrightarrow> msg_acceptable now t (rm_buf msg)"
proof (cases "\<exists>a b c body. rm_buf msg = a # b # cmd_code c # body")
  case True
  then obtain a b c body where buf: "rm_buf msg = a # b # cmd_code c # body" by blast
  let ?t = "t\<lparr>tn_busy := tn_busy t + length body + 1\<rparr>"
  have "msg_acceptable now ?t (rm_buf msg) = msg_acceptable now t (rm_buf msg)"
    by (simp add: msg_acceptable_def get_elapsed_milliseconds_def)
  then show ?thesis
    using dispatch_total [of ?t msg a b c body alive now] assms buf on_tunnel_msg_dispatch [OF buf] by simp
next
  case False
  have "\<not> msg_acceptable now t (rm_buf msg)"
  proof
    assume acc: "msg_acceptable now t (rm_buf msg)"
    then obtain a b v body where "rm_buf msg = a # b # v # body"
      by (auto simp: msg_acceptable_def numeral_3_eq_3 Suc_le_length_iff)
    moreover from this have "v \<le> 10" using acc by (simp add: msg_acceptable_def)
    moreover from this obtain c where "v = cmd_code c" using code_le_10 by metis
    ultimately show False using False by blast
  qed
  moreover have "\<nexists>r. on_tunnel_msg alive now t msg = Inr r"
  proof
    assume "\<exists>r. on_tunnel_msg alive now t msg = Inr r"
    then obtain r where r: "on_tunnel_msg alive now t msg = Inr r" ..
    obtain a b c body where "rm_buf msg = a # b # cmd_code c # body" by (rule on_tunnel_msg_Inr [OF r])
    then show False using False by blast
  qed
  ultimately show ?thesis by blast
qed

text \<open>
  The dispatcher takes exactly the messages with a known command, a whole header where the command
  needs one, a pong time that is not in the future and whole addresses; every other message from the
  relay, a two-byte frame included, panics, which ends the process.
\<close>

theorem on_tunnel_msg_total:
  assumes "tunnel_ok t"
  shows "(\<exists>r. on_tunnel_msg alive now t msg = Inr r) \<longleftrightarrow> msg_acceptable now t (rm_buf msg)"
  by (rule on_tunnel_msg_exact [OF assms])

lemma on_tunnel_msg_total_witness:
  "(\<exists>r. on_tunnel_msg (\<lambda>_. True) 9 (tunnel_new 0 1 2 3 4 5) (received [2, 0] 2) = Inr r)
   \<longleftrightarrow> msg_acceptable 9 (tunnel_new 0 1 2 3 4 5) (rm_buf (received [2, 0] 2))"
  by (rule on_tunnel_msg_total, rule tunnel_new_ok) simp

end
