(* ===== verification/Req_Serv.thy ===== *)
theory Req_Serv imports Tunnel begin

text \<open>
  \<^verbatim>\<open>src/tunnels/reqserv.rs\<close>: the client side of a proxied TCP connection, which turns the chunks it
  reads into tunnel messages, reports its quota, and announces the end of its data. The properties
  that follow messages from one end of a tunnel to the other are here too.
\<close>

section \<open>Messages of a request\<close>

definition on_request_msg :: "(chan \<Rightarrow> bool) \<Rightarrow> tmessage \<Rightarrow> tun_stub \<Rightarrow> (effect list \<times> bool) res" where
  "on_request_msg alive message tun =
     (let vec = tm_buf message; ll = length vec in
      and_then (put_at 0 (le16 (word_of_nat ll)) vec) (\<lambda>vec.
      and_then (put_at 2 [cmd_code ReqData] vec) (\<lambda>vec.
      and_then (theader_write_to (theader_new (ts_req_idx tun) (ts_req_tag tun)) 3 vec) (\<lambda>vec.
      Inr (tx_send alive (ts_tunnel_tx tun) (wmessage_new vec 0))))))"

definition on_request_recv_finished :: "(chan \<Rightarrow> bool) \<Rightarrow> tun_stub \<Rightarrow> effect list res" where
  "on_request_recv_finished alive tun =
     (let hsize = 3 + THEADER_SIZE in
      and_then (put_at 0 (le16 (word_of_nat hsize)) (replicate hsize 0)) (\<lambda>buf.
      and_then (put_at 2 [cmd_code ReqClientFinished] buf) (\<lambda>buf.
      and_then (theader_write_to (theader_new (ts_req_idx tun) (ts_req_tag tun)) 3 buf) (\<lambda>buf.
      Inr (fst (tx_send alive (ts_tunnel_tx tun) (wmessage_new buf 0)))))))"

definition send_request_quota :: "(chan \<Rightarrow> bool) \<Rightarrow> tun_stub \<Rightarrow> u16 \<Rightarrow> effect list res" where
  "send_request_quota alive tun qutoa =
     (let hsize = 3 + THEADER_SIZE + 2 in
      and_then (put_at 0 (le16 (word_of_nat hsize)) (replicate hsize 0)) (\<lambda>buf.
      and_then (put_at 2 [cmd_code ReqClientQuota] buf) (\<lambda>buf.
      and_then (theader_write_to (theader_new (ts_req_idx tun) (ts_req_tag tun)) 3 buf) (\<lambda>buf.
      and_then (put_at (3 + THEADER_SIZE) (le16 qutoa) buf) (\<lambda>buf.
      Inr (fst (tx_send alive (ts_tunnel_tx tun) (wmessage_new buf 0))))))))"

text \<open>The closure mapped over the items on their way to the client: it counts them, and reports each time
  the count reaches half of the quota.\<close>

definition quota_report_threshold :: "u16 \<Rightarrow> u16" where
  "quota_report_threshold request_quota = request_quota div 2"

definition quota_item :: "(chan \<Rightarrow> bool) \<Rightarrow> tun_stub \<Rightarrow> u16 \<Rightarrow> (u16 \<times> effect list) res" where
  "quota_item alive ts written =
     (let written = written + 1 in
      if written = quota_report_threshold (ts_request_quota ts) then
        and_then (send_request_quota alive ts written) (\<lambda>eff. Inr (0, eff))
      else Inr (written, []))"

text \<open>The receiving future: until the stream ends, an item is an error, or a send fails.\<close>

fun receive_fut :: "(chan \<Rightarrow> bool) \<Rightarrow> tun_stub \<Rightarrow> tmessage res list \<Rightarrow> effect list res" where
  "receive_fut alive ts [] = on_request_recv_finished alive ts"
| "receive_fut alive ts (Inl e # items) = on_request_recv_finished alive ts"
| "receive_fut alive ts (Inr m # items) =
     and_then (on_request_msg alive m ts) (\<lambda>(eff, ok).
     and_then (if ok then receive_fut alive ts items else on_request_recv_finished alive ts) (\<lambda>eff2.
     Inr (eff @ eff2)))"

section \<open>What is sent\<close>

lemma request_messages:
  "on_request_recv_finished alive ts = Inr (fst (tx_send alive (ts_tunnel_tx ts)
     (wmessage_new (tun_msg ReqClientFinished (req_body (ts_req_idx ts) (ts_req_tag ts) [])) 0)))"
  "send_request_quota alive ts q = Inr (fst (tx_send alive (ts_tunnel_tx ts)
     (wmessage_new (tun_msg ReqClientQuota (req_body (ts_req_idx ts) (ts_req_tag ts) (le16 q))) 0)))"
  by (simp_all add: on_request_recv_finished_def send_request_quota_def put_at_def theader_write_to_def
      theader_new_def tun_msg_def req_body_def le16_def THEADER_SIZE_def Let_def)

lemma on_request_msg_eq:
  assumes "tm_buf m = replicate 7 0 @ bs"
  shows "on_request_msg alive m ts = Inr (tx_send alive (ts_tunnel_tx ts)
     (wmessage_new (tun_msg ReqData (req_body (ts_req_idx ts) (ts_req_tag ts) bs)) 0))"
  using assms
  by (simp add: on_request_msg_def put_at_def theader_write_to_def theader_new_def tun_msg_def req_body_def
      le16_def Let_def add.commute)

lemma tun_msg_length [simp]: "length (tun_msg c body) = 3 + length body"
  by (simp add: tun_msg_def)

lemma req_body_length [simp]: "length (req_body idx tag p) = 4 + length p"
  by (simp add: req_body_def)

lemma tun_msg_frame: "length body \<le> 8093 \<Longrightarrow> frame (tun_msg c body)"
  by (simp add: frame_def DEFAULT_CAP_def) (simp add: tun_msg_def)

lemma tun_msg_take: "\<exists>a b. tun_msg c body = a # b # cmd_code c # body"
  by (simp add: tun_msg_def le16_def)

lemma north_message:
  "udp_proxy_north alive t data src dst = Inr (fst (tx_send alive (tn_tx t)
     (wmessage_new (tun_msg UdpX (enc_socketaddr src @ enc_socketaddr dst @ data)) 0)))"
proof -
  let ?s = "enc_socketaddr src" and ?d = "enc_socketaddr dst"
  let ?total = "3 + length ?s + length ?d + length data"
  let ?h = "le16 (word_of_nat ?total) @ [cmd_code UdpX]"
  have total: "2 + 1 + (length data + (if is_ipv4 (sa_ip src) then 7 else 19) + (if is_ipv4 (sa_ip dst) then 7 else 19)) = ?total"
    by (simp add: length_enc_socketaddr)
  have s1: "put_at 0 (le16 (word_of_nat ?total)) (replicate ?total 0)
      = Inr (le16 (word_of_nat ?total) @ replicate (?total - 2) 0)"
    using put_at_end [of "[]" 0 "le16 (word_of_nat ?total)" ?total] by simp
  have s2: "put_at 2 [cmd_code UdpX] (le16 (word_of_nat ?total) @ replicate (?total - 2) 0)
      = Inr (?h @ replicate (?total - 3) 0)"
    using put_at_end [of "le16 (word_of_nat ?total)" 2 "[cmd_code UdpX]" "?total - 2"] by simp
  have s3: "write_socketaddr (?h @ replicate (?total - 3) 0) 3 src
      = Inr ((?h @ ?s) @ replicate (length ?d + length data) 0, 3 + length ?s)"
    using write_socketaddr_end [of ?h 3 src "?total - 3"] by simp
  have s4: "write_socketaddr ((?h @ ?s) @ replicate (length ?d + length data) 0) (3 + length ?s) dst
      = Inr (((?h @ ?s) @ ?d) @ replicate (length data) 0, 3 + length ?s + length ?d)"
    using write_socketaddr_end [of "?h @ ?s" "3 + length ?s" dst "length ?d + length data"] by simp
  show ?thesis
    unfolding udp_proxy_north_def Let_def total s1 s2 and_then_simps s3 prod.case s4
    by (simp add: tun_msg_def add.assoc)
qed

lemma udpx_received:
  assumes "rm_buf msg = tun_msg UdpX (enc_socketaddr src @ enc_socketaddr dst @ data)" "tn_udpx_tx t = Some u"
  shows "on_tunnel_msg alive now t msg = Inr (t\<lparr>tn_busy := tn_busy t + (length (rm_buf msg) - 2)\<rparr>,
     if alive u then [SentUdp u data src dst] else [])"
proof -
  let ?s = "enc_socketaddr src" and ?d = "enc_socketaddr dst"
  obtain a b where buf: "rm_buf msg = a # b # cmd_code UdpX # ?s @ ?d @ data"
    using assms(1) tun_msg_take by metis
  have r1: "read_socketaddr (?s @ ?d @ data) 0 = Inr (src, length ?s)"
    using read_socketaddr_enc(1) [of 0 "?s @ ?d @ data" src] by simp
  have r2: "read_socketaddr (?s @ ?d @ data) (length ?s) = Inr (dst, length ?s + length ?d)"
    using read_socketaddr_enc(1) [of "length ?s" "?s @ ?d @ data" dst] by simp
  show ?thesis
    using assms(2) r1 r2
    by (simp add: on_tunnel_msg_dispatch [OF buf] dispatch_def on_udpx_south_def slice_from_def buf numeral_3_eq_3)
qed

section \<open>Properties\<close>

text \<open>
  C16: a datagram sent north through one tunnel and handed, as the tunnel message it became, to a
  tunnel with a UDP proxy comes out as the same payload with the same source and destination, for
  addresses of either family and payloads of any length.
\<close>

theorem udp_round_trip:
  assumes "alive (tn_tx t1)" "rm_buf msg = wm_buf m" "tn_udpx_tx t2 = Some u" "alive u"
    "udp_proxy_north alive t1 data src dst = Inr [Sent (tn_tx t1) m]"
  shows "on_tunnel_msg alive now t2 msg
    = Inr (t2\<lparr>tn_busy := tn_busy t2 + (length (rm_buf msg) - 2)\<rparr>, [SentUdp u data src dst])"
proof -
  have "m = wmessage_new (tun_msg UdpX (enc_socketaddr src @ enc_socketaddr dst @ data)) 0"
    using assms(1,5) by (simp add: north_message tx_send_def)
  then have "rm_buf msg = tun_msg UdpX (enc_socketaddr src @ enc_socketaddr dst @ data)"
    using assms(2) by (simp add: wmessage_new_def)
  then show ?thesis using assms(3,4) by (simp add: udpx_received)
qed

lemma udp_round_trip_witness:
  "on_tunnel_msg (\<lambda>_. True) 0 (set_udpx_tx (tunnel_new 0 1 2 3 4 5) 9)
     (received (tun_msg UdpX (enc_socketaddr (SocketAddr (V4 (Ipv4Addr 1 2 3 4)) 53)
        @ enc_socketaddr (SocketAddr (V4 (Ipv4Addr 5 6 7 8)) 54) @ [7, 7])) 19)
   = Inr ((set_udpx_tx (tunnel_new 0 1 2 3 4 5) 9)\<lparr>tn_busy := 17\<rparr>,
       [SentUdp 9 [7, 7] (SocketAddr (V4 (Ipv4Addr 1 2 3 4)) 53) (SocketAddr (V4 (Ipv4Addr 5 6 7 8)) 54)])"
  by (subst udp_round_trip [where m = "wmessage_new (tun_msg UdpX (enc_socketaddr (SocketAddr (V4 (Ipv4Addr 1 2 3 4)) 53)
        @ enc_socketaddr (SocketAddr (V4 (Ipv4Addr 5 6 7 8)) 54) @ [7, 7])) 0" and ?t1.0 = "tunnel_new 0 1 2 3 4 5" and u = 9
        and data = "[7, 7]" and src = "SocketAddr (V4 (Ipv4Addr 1 2 3 4)) 53" and dst = "SocketAddr (V4 (Ipv4Addr 5 6 7 8)) 54"])
    (simp_all add: received_def wmessage_new_def set_udpx_tx_def tunnel_new_def north_message tx_send_def length_enc_socketaddr)

text \<open>
  C9: data for a request reaches the client that owns it and nobody else: if anything is sent it is
  the payload, on the channel of the slot the header names, and that slot is in use under that very
  tag; conversely a live handle with an open channel gets it. A stale header changes nothing.
\<close>

theorem data_reaches_owner:
  assumes "tunnel_ok t" "rm_buf msg = tun_msg ReqData (req_body idx tag payload)"
  shows "\<exists>eff. on_tunnel_msg alive now t msg = Inr (t\<lparr>tn_busy := tn_busy t + (5 + length payload)\<rparr>, eff) \<and>
    (eff \<noteq> [] \<longleftrightarrow> (idx, tag) \<in> reqq_live (tn_requests t) \<and>
       (\<exists>tx. rq_request_tx (rqq_elements (tn_requests t) ! unat idx) = Some tx \<and> alive tx)) \<and>
    (\<forall>e \<in> set eff. \<exists>tx m. e = Sent tx m \<and> wm_bytes m = Inr payload \<and>
       rq_request_tx (rqq_elements (tn_requests t) ! unat idx) = Some tx)"
proof -
  let ?es = "rqq_elements (tn_requests t)"
  obtain a b where buf: "rm_buf msg = a # b # cmd_code ReqData # req_body idx tag payload"
    using assms(2) tun_msg_take by metis
  have ok: "reqq_ok (tn_requests t)" using assms(1) by (simp add: tunnel_ok_def reqs_ok_def)
  let ?m = "wmessage_new (rm_buf msg) 7"
  have payload: "wm_bytes ?m = Inr payload"
    by (simp add: wm_bytes_def wmessage_new_def buf req_body_def le16_def)
  have same: "get_request_tx (t\<lparr>tn_busy := b\<rparr>) idx tag = get_request_tx t idx tag" for b
    by (simp add: get_request_tx_def)
  have busy: "on_tunnel_msg alive now t msg = (case get_request_tx t idx tag of
       None \<Rightarrow> Inr (t\<lparr>tn_busy := tn_busy t + (5 + length payload)\<rparr>, [])
     | Some tx \<Rightarrow> Inr (t\<lparr>tn_busy := tn_busy t + (5 + length payload)\<rparr>, fst (tx_send alive tx ?m)))"
    unfolding on_tunnel_msg_dispatch [OF buf] dispatch_def req_body_def
    by (cases "get_request_tx t idx tag") (simp_all add: theader_new_def same)
  have live: "(idx, tag) \<in> reqq_live (tn_requests t) \<and> rq_request_tx (?es ! unat idx) = Some tx
      \<longleftrightarrow> get_request_tx t idx tag = Some tx" for tx
    using ok by (auto simp: get_request_tx_def reqq_live_def reqq_ok_def Let_def)
  show ?thesis
  proof (cases "get_request_tx t idx tag")
    case None
    then show ?thesis using busy live by auto
  next
    case (Some tx)
    then have "(idx, tag) \<in> reqq_live (tn_requests t)" "rq_request_tx (?es ! unat idx) = Some tx" using live by auto
    then show ?thesis using busy Some payload by (auto simp: tx_send_def)
  qed
qed

lemma data_reaches_owner_witness:
  "\<exists>eff. on_tunnel_msg (\<lambda>_. True) 0 (tunnel_new 0 1 2 3 4 5) (received (tun_msg ReqData (req_body 0 1 [9])) 8)
      = Inr ((tunnel_new 0 1 2 3 4 5)\<lparr>tn_busy := tn_busy (tunnel_new 0 1 2 3 4 5) + (5 + length [9 :: u8])\<rparr>, eff) \<and>
    (eff \<noteq> [] \<longleftrightarrow> (0, 1) \<in> reqq_live (tn_requests (tunnel_new 0 1 2 3 4 5)) \<and>
       (\<exists>tx. rq_request_tx (rqq_elements (tn_requests (tunnel_new 0 1 2 3 4 5)) ! unat (0 :: u16)) = Some tx \<and> True)) \<and>
    (\<forall>e \<in> set eff. \<exists>tx m. e = Sent tx m \<and> wm_bytes m = Inr [9] \<and>
       rq_request_tx (rqq_elements (tn_requests (tunnel_new 0 1 2 3 4 5)) ! unat (0 :: u16)) = Some tx)"
  by (rule data_reaches_owner) (simp_all add: tunnel_new_ok received_def)

text \<open>
  A ping sent at one time and echoed by the peer's dispatcher comes back as a pong that clears the
  count of unanswered pings and records exactly the time that passed; it never trips the assertion on
  the clock.
\<close>

theorem ping_pong:
  assumes "tunnel_ok t" "tn_time t \<le> now" "now \<le> now2" "now2 - tn_time t < 2 ^ 64" "alive (tn_tx p)"
    "send_ping alive now t = Inr (t1, [Sent (tn_tx t) m], True)" "rm_buf ping = wm_buf m"
    "on_tunnel_msg alive now3 p ping = Inr (p1, [Sent (tn_tx p) m2])" "rm_buf pong = wm_buf m2"
  shows "\<exists>t2. on_tunnel_msg alive now2 t1 pong = Inr (t2, []) \<and> tn_ping_count t2 = 0 \<and>
    tn_rtt_queue t2 = (tn_rtt_queue t1)[tn_rtt_index t1 := word_of_nat (now2 - now)]"
proof -
  let ?ts = "get_elapsed_milliseconds now t"
  have bs: "and_then (put_at 0 (le16 11) (replicate 11 0)) (\<lambda>bs. and_then (put_at 2 [8] bs) (\<lambda>bs.
      and_then (put_at 3 (le64 ts) bs) f)) = f ([11, 0, 8] @ le64 ts)" for ts and f :: "bytes \<Rightarrow> 'b res"
    by (simp add: put_at_def le16_def le64_def le32_def)
  have t1: "tunnel_ok t1" using send_ping_ok [OF assms(1), of alive now] assms(6) by auto
  have m: "wm_buf m = [11, 0, 8] @ le64 ?ts" and time: "tn_time t1 = tn_time t"
    using assms(6)
    by (auto simp: send_ping_def bs Let_def tx_send_def and_then_Inr_iff append_rtt_def wmessage_new_def split: if_splits)
  have ping: "rm_buf ping = 11 # 0 # cmd_code Ping # le64 ?ts" using assms(7) m by simp
  have "wm_buf m2 = [11, 0, 9] @ le64 ?ts"
    using assms(5,8) unfolding on_tunnel_msg_dispatch [OF ping] dispatch_def
    by (auto simp: reply_ping_def ping put_at_def tx_send_def wmessage_new_def numeral_3_eq_3)
  then have pong: "rm_buf pong = 11 # 0 # cmd_code Pong # le64 ?ts" using assms(9) by simp
  let ?t1 = "t1\<lparr>tn_busy := tn_busy t1 + length (le64 ?ts) + 1\<rparr>"
  have now2: "unat (get_elapsed_milliseconds now2 ?t1) = now2 - tn_time t" and now: "unat ?ts = now - tn_time t"
    using assms(2-4) time unfolding get_elapsed_milliseconds_def by (subst unat_of_nat_less; simp)+
  then have le: "?ts \<le> get_elapsed_milliseconds now2 ?t1" using assms(2,3) by (simp add: word_le_nat_alt)
  have diff: "get_elapsed_milliseconds now2 ?t1 - ?ts = word_of_nat (now2 - now)"
  proof -
    have "unat (get_elapsed_milliseconds now2 ?t1 - ?ts) = now2 - now"
      using le now now2 assms(2,3) by (simp add: unat_sub)
    moreover have "word_of_nat (unat w) = w" for w :: u64 by simp
    ultimately show ?thesis by metis
  qed
  let ?z = "?t1\<lparr>tn_ping_count := 0\<rparr>"
  have "rtt_ok ?z" using t1 by (simp add: tunnel_ok_def rtt_ok_def)
  then obtain t2 where t2: "append_rtt ?z (word_of_nat (now2 - now)) = Inr t2" "tn_ping_count t2 = 0"
      "tn_rtt_queue t2 = (tn_rtt_queue t1)[tn_rtt_index t1 := word_of_nat (now2 - now)]"
    using append_rtt_ok [of ?z "word_of_nat (now2 - now)"] by auto
  have "on_pong now2 ?t1 (le64 ?ts) = Inr t2"
    using t2(1) le diff rd_u64_append [of "[]" 0 ?ts "[]"]
    by (simp add: on_pong_def Let_def get_elapsed_milliseconds_def not_less)
  then show ?thesis using t2 unfolding on_tunnel_msg_dispatch [OF pong] dispatch_def by simp
qed

lemma ping_pong_witness:
  "\<exists>t2. on_tunnel_msg (\<lambda>_. True) 180 ((tunnel_new 0 1 2 3 4 5)\<lparr>tn_ping_count := 1\<rparr>)
      (received ([11, 0, 9] @ le64 100) 11) = Inr (t2, []) \<and> tn_ping_count t2 = 0 \<and>
    tn_rtt_queue t2 = (tn_rtt_queue ((tunnel_new 0 1 2 3 4 5)\<lparr>tn_ping_count := 1\<rparr>))
      [tn_rtt_index ((tunnel_new 0 1 2 3 4 5)\<lparr>tn_ping_count := 1\<rparr>) := word_of_nat (180 - 100)]"
proof (rule ping_pong)
  show "tunnel_ok (tunnel_new 0 1 2 3 4 5)" by (simp add: tunnel_new_ok)
  show "send_ping (\<lambda>_. True) 100 (tunnel_new 0 1 2 3 4 5) = Inr ((tunnel_new 0 1 2 3 4 5)\<lparr>tn_ping_count := 1\<rparr>,
      [Sent (tn_tx (tunnel_new 0 1 2 3 4 5)) (wmessage_new ([11, 0, 8] @ le64 100) 0)], True)"
    by (simp add: send_ping_def tunnel_new_def Let_def get_elapsed_milliseconds_def put_at_def le16_def le64_def
        le32_def tx_send_def)
  show "rm_buf (received ([11, 0, 8] @ le64 100) 11) = wm_buf (wmessage_new ([11, 0, 8] @ le64 100) 0)"
    by (simp add: received_def wmessage_new_def)
  show "on_tunnel_msg (\<lambda>_. True) 7 (tunnel_new 0 10 2 3 4 5) (received ([11, 0, 8] @ le64 100) 11)
      = Inr ((tunnel_new 0 10 2 3 4 5)\<lparr>tn_busy := 9\<rparr>,
          [Sent (tn_tx (tunnel_new 0 10 2 3 4 5)) (wmessage_new ([11, 0, 9] @ le64 100) 0)])"
    by (subst on_tunnel_msg_dispatch [where c = Ping and body = "le64 100" and a = 11 and b = 0])
      (simp_all add: received_def dispatch_def reply_ping_def put_at_def tx_send_def tunnel_new_def wmessage_new_def numeral_3_eq_3)
  show "rm_buf (received ([11, 0, 9] @ le64 100) 11) = wm_buf (wmessage_new ([11, 0, 9] @ le64 100) 0)"
    by (simp add: received_def wmessage_new_def)
qed (simp_all add: tunnel_new_def)

fun ping_ticks :: "(chan \<Rightarrow> bool) \<Rightarrow> nat list \<Rightarrow> tunnel \<Rightarrow> bool list res" where
  "ping_ticks alive [] t = Inr []"
| "ping_ticks alive (now # ticks) t =
     and_then (send_ping alive now t) (\<lambda>(t, eff, b). and_then (ping_ticks alive ticks t) (\<lambda>bs. Inr (b # bs)))"

lemma ping_ticks_answers:
  "tunnel_ok t \<Longrightarrow> alive (tn_tx t) \<Longrightarrow> ping_ticks alive ticks t = Inr
     (replicate (min (length ticks) (6 - unat (tn_ping_count t))) True
      @ replicate (length ticks - (6 - unat (tn_ping_count t))) False)"
proof (induction ticks arbitrary: t)
  case (Cons now ticks)
  obtain t' eff b where p: "send_ping alive now t = Inr (t', eff, b)" "tunnel_ok t'" "b \<longleftrightarrow> tn_ping_count t \<le> 5"
    "tn_ping_count t' = (if b then tn_ping_count t + 1 else tn_ping_count t)" "tn_tx t' = tn_tx t"
    using send_ping_ok [OF Cons.prems(1), of alive now] Cons.prems(2) by auto
  note IH = Cons.IH [OF p(2)]
  show ?case
  proof (cases b)
    case True
    then have le: "unat (tn_ping_count t) \<le> 5" using p(3) by (simp add: word_le_nat_alt)
    then have "unat (tn_ping_count t + 1) = Suc (unat (tn_ping_count t))"
      by (subst unat_add_lem [THEN iffD1]) simp_all
    moreover have "6 - unat (tn_ping_count t) = Suc (5 - unat (tn_ping_count t))" using le by simp
    ultimately show ?thesis using IH p True Cons.prems(2) by simp
  next
    case False
    then have "unat (tn_ping_count t) = 6"
      using p(3) Cons.prems(1) by (simp add: word_le_nat_alt tunnel_ok_def rtt_ok_def)
    then show ?thesis using IH p False Cons.prems(2) by simp
  qed
qed simp

text \<open>
  On a tunnel whose sends succeed but whose peer never answers, exactly the next six timer ticks
  send a ping; from the seventh on the tunnel reports that it is dead.
\<close>

theorem ping_gives_up:
  assumes "tunnel_ok t" "alive (tn_tx t)" "tn_ping_count t = 0"
  shows "ping_ticks alive ticks t = Inr (replicate (min (length ticks) 6) True @ replicate (length ticks - 6) False)"
  using ping_ticks_answers [of t alive ticks] assms by simp

lemma ping_gives_up_witness:
  "ping_ticks (\<lambda>_. True) [1, 2, 3, 4, 5, 6, 7, 8] (tunnel_new 0 1 2 3 4 5)
   = Inr ([True, True, True, True, True, True, False, False])"
  by (subst ping_gives_up) (simp_all add: tunnel_new_ok, simp_all add: tunnel_new_def numeral_eq_Suc)



text \<open>
  The chunks of a client's stream become, in order, data messages that the receiving transport
  accepts as frames and whose payloads are the chunks, followed by one end-of-data message, all under
  the request's own index and tag.
\<close>

theorem stream_forwarded:
  assumes "alive (ts_tunnel_tx ts)"
    "\<forall>m \<in> set chunks. \<exists>bs. tm_buf m = replicate 7 0 @ bs \<and> length (tm_buf m) \<le> DEFAULT_CAP"
  shows "\<exists>eff. receive_fut alive ts (map Inr chunks) = Inr eff \<and>
    eff = map (\<lambda>bs. Sent (ts_tunnel_tx ts) (wmessage_new bs 0))
      (map (\<lambda>m. tun_msg ReqData (req_body (ts_req_idx ts) (ts_req_tag ts) (drop 7 (tm_buf m)))) chunks
       @ [tun_msg ReqClientFinished (req_body (ts_req_idx ts) (ts_req_tag ts) [])]) \<and>
    (\<forall>e \<in> set eff. \<exists>m. e = Sent (ts_tunnel_tx ts) m \<and> frame (wm_buf m))"
  using assms(2)
proof (induction chunks)
  case Nil
  then show ?case using assms(1) tun_msg_frame [of "req_body (ts_req_idx ts) (ts_req_tag ts) []" ReqClientFinished]
    by (simp add: request_messages tx_send_def wmessage_new_def)
next
  case (Cons m chunks)
  then obtain bs where bs: "tm_buf m = replicate 7 0 @ bs" "length (tm_buf m) \<le> DEFAULT_CAP" by auto
  then have "frame (tun_msg ReqData (req_body (ts_req_idx ts) (ts_req_tag ts) bs))"
    by (intro tun_msg_frame) (simp add: DEFAULT_CAP_def)
  then show ?case using Cons bs assms(1) by (auto simp: on_request_msg_eq tx_send_def wmessage_new_def)
qed

lemma stream_forwarded_witness:
  "\<exists>eff. receive_fut (\<lambda>_. True) \<lparr>ts_tunnel_tx = 1, ts_tun_idx = 3, ts_req_idx = 0, ts_req_tag = 1, ts_request_quota = 5\<rparr>
      (map Inr [tm_advance_mut tmessage_new [8, 9]]) = Inr eff \<and> length eff = 2"
  using stream_forwarded [of "\<lambda>_. True" "\<lparr>ts_tunnel_tx = 1, ts_tun_idx = 3, ts_req_idx = 0, ts_req_tag = 1, ts_request_quota = 5\<rparr>"
      "[tm_advance_mut tmessage_new [8, 9]]"]
  by (auto simp: tm_advance_mut_def tmessage_new_def TMESSAGE_KEEP_def DEFAULT_CAP_def)

fun quota_items :: "(chan \<Rightarrow> bool) \<Rightarrow> tun_stub \<Rightarrow> nat \<Rightarrow> u16 \<Rightarrow> (u16 \<times> effect list) res" where
  "quota_items alive ts 0 w = Inr (w, [])"
| "quota_items alive ts (Suc n) w =
     and_then (quota_item alive ts w) (\<lambda>(w, eff).
     and_then (quota_items alive ts n w) (\<lambda>(w, eff2). Inr (w, eff @ eff2)))"

lemma quota_items_count:
  fixes ts :: tun_stub
  defines "thr \<equiv> quota_report_threshold (ts_request_quota ts)"
  assumes alive: "alive (ts_tunnel_tx ts)" and pos: "0 < thr"
  shows "w < thr \<Longrightarrow> \<exists>w' k. quota_items alive ts n w = Inr (w', replicate k (Sent (ts_tunnel_tx ts)
      (wmessage_new (tun_msg ReqClientQuota (req_body (ts_req_idx ts) (ts_req_tag ts) (le16 thr))) 0))) \<and>
    w' < thr \<and> unat w + n = k * unat thr + unat w'"
proof (induction n arbitrary: w)
  case (Suc n)
  have lt: "unat w < unat thr" using Suc.prems by (simp add: word_less_nat_alt)
  have "unat thr < 2 ^ LENGTH(16)" by (rule unsigned_less)
  then have one: "unat (w + 1) = unat w + 1" using lt by (subst unat_add_lem [THEN iffD1]) simp_all
  show ?case
  proof (cases "w + 1 = thr")
    case True
    obtain w' k where "quota_items alive ts n 0 = Inr (w', replicate k (Sent (ts_tunnel_tx ts)
        (wmessage_new (tun_msg ReqClientQuota (req_body (ts_req_idx ts) (ts_req_tag ts) (le16 thr))) 0)))"
      "w' < thr" "unat (0 :: u16) + n = k * unat thr + unat w'"
      using Suc.IH [of 0] pos by blast
    then show ?thesis using True alive one
      by (intro exI [of _ w'] exI [of _ "Suc k"])
        (simp add: quota_item_def request_messages tx_send_def flip: thr_def)
  next
    case False
    then have "w + 1 < thr" using one lt by (auto simp: word_less_nat_alt word_unat_eq_iff)
    then obtain w' k where "quota_items alive ts n (w + 1) = Inr (w', replicate k (Sent (ts_tunnel_tx ts)
        (wmessage_new (tun_msg ReqClientQuota (req_body (ts_req_idx ts) (ts_req_tag ts) (le16 thr))) 0)))"
      "w' < thr" "unat (w + 1) + n = k * unat thr + unat w'"
      using Suc.IH [of "w + 1"] by blast
    then show ?thesis using False one
      by (intro exI [of _ w'] exI [of _ k]) (simp add: quota_item_def flip: thr_def)
  qed
qed simp

text \<open>
  With a threshold of at least one item, what is reported and what is still counted add up to the
  items passed on: after any number of items the relay has been told of all but fewer than the
  threshold, in reports of exactly the threshold.
\<close>

theorem quota_reported:
  assumes "alive (ts_tunnel_tx ts)" "2 \<le> ts_request_quota ts"
  shows "\<exists>w k. quota_items alive ts n 0 = Inr (w, replicate k (Sent (ts_tunnel_tx ts)
      (wmessage_new (tun_msg ReqClientQuota (req_body (ts_req_idx ts) (ts_req_tag ts)
        (le16 (ts_request_quota ts div 2)))) 0))) \<and>
    unat w < unat (ts_request_quota ts) div 2 \<and> n = k * (unat (ts_request_quota ts) div 2) + unat w"
proof -
  have thr: "unat (quota_report_threshold (ts_request_quota ts)) = unat (ts_request_quota ts) div 2"
    by (simp add: quota_report_threshold_def unat_div)
  have "2 \<le> unat (ts_request_quota ts)" using assms(2) by (simp add: word_le_nat_alt)
  then have "0 < quota_report_threshold (ts_request_quota ts)" by (simp add: word_less_nat_alt thr)
  then show ?thesis
    using quota_items_count [of alive ts 0 n] assms(1) thr
    by (auto simp: word_less_nat_alt quota_report_threshold_def)
qed

lemma quota_reported_witness:
  "\<exists>w k. quota_items (\<lambda>_. True) \<lparr>ts_tunnel_tx = 1, ts_tun_idx = 3, ts_req_idx = 0, ts_req_tag = 1, ts_request_quota = 5\<rparr> 7 0
    = Inr (w, replicate k (Sent 1 (wmessage_new (tun_msg ReqClientQuota (req_body 0 1 (le16 (5 div 2)))) 0))) \<and>
    unat w < unat (5 :: u16) div 2 \<and> 7 = k * (unat (5 :: u16) div 2) + unat w"
  using quota_reported [of "\<lambda>_. True" "\<lparr>ts_tunnel_tx = 1, ts_tun_idx = 3, ts_req_idx = 0, ts_req_tag = 1, ts_request_quota = 5\<rparr>" 7]
  by simp

end
