(* ===== verification/Dns_Buffer.thy ===== *)
theory Dns_Buffer imports Prelude begin

text \<open>
  \<^verbatim>\<open>BytePacketBuffer\<close> of \<^verbatim>\<open>src/dns/dnspacket.rs\<close>: a byte slice with a cursor, its checked reads and
  writes, and the reader and writer of DNS names. A read or write past position 512 is the code's
  \<^verbatim>\<open>Err\<close> (\<^const>\<open>EndOfBuffer\<close>); one past the end of a shorter slice is an index panic.
  A reader returns the value and the advanced buffer, a writer the changed buffer.
\<close>

section \<open>Cursor and single bytes\<close>

record bpb =
  bp_buf :: bytes
  bp_pos :: nat

definition bpb_new :: "bytes \<Rightarrow> bpb" where
  "bpb_new b = \<lparr>bp_buf = b, bp_pos = 0\<rparr>"

definition bp_step :: "nat \<Rightarrow> bpb \<Rightarrow> bpb res" where
  "bp_step steps b = Inr (b\<lparr>bp_pos := bp_pos b + steps\<rparr>)"

definition bp_seek :: "nat \<Rightarrow> bpb \<Rightarrow> bpb res" where
  "bp_seek p b = Inr (b\<lparr>bp_pos := p\<rparr>)"

definition bp_read :: "bpb \<Rightarrow> (u8 \<times> bpb) res" where
  "bp_read b =
     (if 512 \<le> bp_pos b then Inl EndOfBuffer
      else and_then (vec_get (bp_buf b) (bp_pos b)) (\<lambda>r.
        Inr (r, b\<lparr>bp_pos := bp_pos b + 1\<rparr>)))"

definition bp_get :: "nat \<Rightarrow> bpb \<Rightarrow> u8 res" where
  "bp_get p b = (if 512 \<le> p then Inl EndOfBuffer else vec_get (bp_buf b) p)"

definition bp_get_range :: "nat \<Rightarrow> nat \<Rightarrow> bpb \<Rightarrow> bytes res" where
  "bp_get_range start len b =
     (if 512 \<le> start + len then Inl EndOfBuffer
      else if start + len \<le> length (bp_buf b) then Inr (take len (drop start (bp_buf b)))
      else Inl Panicked)"

definition bp_read_u16 :: "bpb \<Rightarrow> (u16 \<times> bpb) res" where
  "bp_read_u16 b =
     and_then (bp_read b) (\<lambda>(x, b).
     and_then (bp_read b) (\<lambda>(y, b). Inr (of_be16 x y, b)))"

definition bp_read_u32 :: "bpb \<Rightarrow> (u32 \<times> bpb) res" where
  "bp_read_u32 b =
     and_then (bp_read b) (\<lambda>(x, b).
     and_then (bp_read b) (\<lambda>(y, b).
     and_then (bp_read b) (\<lambda>(z, b).
     and_then (bp_read b) (\<lambda>(w, b). Inr (of_be32 x y z w, b)))))"

definition bp_write :: "u8 \<Rightarrow> bpb \<Rightarrow> bpb res" where
  "bp_write v b =
     (if 512 \<le> bp_pos b then Inl EndOfBuffer
      else and_then (vec_set (bp_buf b) (bp_pos b) v) (\<lambda>xs.
        Inr (b\<lparr>bp_buf := xs, bp_pos := bp_pos b + 1\<rparr>)))"

definition bp_write_u8 :: "u8 \<Rightarrow> bpb \<Rightarrow> bpb res" where
  "bp_write_u8 v b = bp_write v b"

definition bp_write_u16 :: "u16 \<Rightarrow> bpb \<Rightarrow> bpb res" where
  "bp_write_u16 v b =
     and_then (bp_write (ucast (drop_bit 8 v)) b) (\<lambda>b.
     bp_write (ucast (v AND 0xFF)) b)"

definition bp_write_u32 :: "u32 \<Rightarrow> bpb \<Rightarrow> bpb res" where
  "bp_write_u32 v b =
     and_then (bp_write (ucast (drop_bit 24 v AND 0xFF)) b) (\<lambda>b.
     and_then (bp_write (ucast (drop_bit 16 v AND 0xFF)) b) (\<lambda>b.
     and_then (bp_write (ucast (drop_bit 8 v AND 0xFF)) b) (\<lambda>b.
     bp_write (ucast (v AND 0xFF)) b)))"

definition bp_set :: "nat \<Rightarrow> u8 \<Rightarrow> bpb \<Rightarrow> bpb res" where
  "bp_set p v b = and_then (vec_set (bp_buf b) p v) (\<lambda>xs. Inr (b\<lparr>bp_buf := xs\<rparr>))"

definition bp_set_u16 :: "nat \<Rightarrow> u16 \<Rightarrow> bpb \<Rightarrow> bpb res" where
  "bp_set_u16 p v b =
     and_then (bp_set p (ucast (drop_bit 8 v)) b) (\<lambda>b.
     bp_set (p + 1) (ucast (v AND 0xFF)) b)"

section \<open>Names\<close>

text \<open>
  \<^verbatim>\<open>String::from_utf8_lossy(s).to_lowercase()\<close>: on ASCII bytes it lowers \<open>A\<close>--\<open>Z\<close>; what it does to
  other bytes is the Unicode case table of the standard library, the parameter \<open>uni\<close>.
\<close>

definition ascii_lower :: "u8 \<Rightarrow> u8" where
  "ascii_lower c = (if 65 \<le> c \<and> c \<le> 90 then c + 32 else c)"

definition lossy_lower :: "(bytes \<Rightarrow> bytes) \<Rightarrow> bytes \<Rightarrow> bytes" where
  "lossy_lower uni s = (if list_all (\<lambda>c. c < 128) s then map ascii_lower s else uni s)"

text \<open>
  The loop of \<^verbatim>\<open>read_qname\<close>, one unit of fuel per iteration; \<open>jumped\<close>, \<open>delim\<close> and the output
  string are its mutable locals. It returns the locals when the loop breaks.
\<close>

fun read_qname_loop ::
  "(bytes \<Rightarrow> bytes) \<Rightarrow> nat \<Rightarrow> nat \<Rightarrow> bool \<Rightarrow> str \<Rightarrow> str \<Rightarrow> bpb \<Rightarrow> (nat \<times> bool \<times> str \<times> bpb) res" where
  "read_qname_loop uni 0 pos jumped delim outstr b = Inl Diverged"
| "read_qname_loop uni (Suc fuel) pos jumped delim outstr b =
     and_then (bp_get pos b) (\<lambda>len.
       if len AND 0xC0 = 0xC0 then
         and_then (if \<not> jumped then bp_seek (pos + 2) b else Inr b) (\<lambda>b.
         and_then (bp_get (pos + 1) b) (\<lambda>b2.
           let offset = push_bit 8 (ucast len XOR 0xC0) OR (ucast b2 :: u16)
           in read_qname_loop uni fuel (unat offset) True delim outstr b))
       else if len = 0 then Inr (pos + 1, jumped, outstr, b)
       else
         and_then (bp_get_range (pos + 1) (unat len) b) (\<lambda>s.
           read_qname_loop uni fuel (pos + 1 + unat len) jumped (lit ''.'')
             (outstr @ delim @ lossy_lower uni s) b))"

text \<open>
  Every position the loop reads is below 512, so a run of more than 512 iterations has visited a
  position twice and never ends (\<open>qname_loop_exact\<close> below): this fuel loses no result.
\<close>

definition qname_fuel :: nat where
  "qname_fuel = 513"

definition bp_read_qname :: "(bytes \<Rightarrow> bytes) \<Rightarrow> str \<Rightarrow> bpb \<Rightarrow> (str \<times> bpb) res" where
  "bp_read_qname uni outstr b =
     and_then (read_qname_loop uni qname_fuel (bp_pos b) False [] outstr b)
       (\<lambda>(pos, jumped, outstr, b).
          and_then (if \<not> jumped then bp_seek pos b else Inr b) (\<lambda>b. Inr (outstr, b)))"

text \<open>\<^verbatim>\<open>s.split(c)\<close>: the parts between the separators, at least one.\<close>

fun split_on :: "'a \<Rightarrow> 'a list \<Rightarrow> 'a list list" where
  "split_on c [] = [[]]"
| "split_on c (x # xs) =
     (if x = c then [] # split_on c xs
      else (case split_on c xs of [] \<Rightarrow> [[x]] | p # ps \<Rightarrow> (x # p) # ps))"

definition dot :: u8 where
  "dot = 46"

fun write_bytes :: "bytes \<Rightarrow> bpb \<Rightarrow> bpb res" where
  "write_bytes [] b = Inr b"
| "write_bytes (v # vs) b = and_then (bp_write_u8 v b) (write_bytes vs)"

fun write_labels :: "str list \<Rightarrow> bpb \<Rightarrow> bpb res" where
  "write_labels [] b = Inr b"
| "write_labels (label # ls) b =
     (if 0x34 < length label then Inl LabelTooLong
      else and_then (bp_write_u8 (word_of_nat (length label)) b) (\<lambda>b.
           and_then (write_bytes label b) (write_labels ls)))"

definition bp_write_qname :: "str \<Rightarrow> bpb \<Rightarrow> bpb res" where
  "bp_write_qname qname b =
     and_then (write_labels (split_on dot qname) b) (bp_write_u8 0)"

section \<open>Bytes at a position\<close>

text \<open>\<open>at_bytes p bs xs\<close>: the bytes \<open>bs\<close> stand in \<open>xs\<close> from \<open>p\<close> on, all below position 512.\<close>

fun at_bytes :: "nat \<Rightarrow> bytes \<Rightarrow> bytes \<Rightarrow> bool" where
  "at_bytes p [] xs \<longleftrightarrow> p \<le> 512 \<and> p \<le> length xs"
| "at_bytes p (v # vs) xs \<longleftrightarrow> p < 512 \<and> p < length xs \<and> xs ! p = v \<and> at_bytes (Suc p) vs xs"

lemma at_bytes_bound: "at_bytes p vs xs \<Longrightarrow> p + length vs \<le> 512 \<and> p + length vs \<le> length xs"
  by (induction vs arbitrary: p) fastforce+

lemma at_bytes_append:
  "at_bytes p (us @ vs) xs \<longleftrightarrow> at_bytes p us xs \<and> at_bytes (p + length us) vs xs"
  by (induction us arbitrary: p) (auto dest: at_bytes_bound)

lemma at_bytes_take: "at_bytes p vs xs \<Longrightarrow> take (length vs) (drop p xs) = vs"
proof (induction vs arbitrary: p)
  case Nil
  then show ?case by simp
next
  case (Cons v vs)
  then have "drop p xs = v # drop (Suc p) xs" by (auto simp: Cons_nth_drop_Suc)
  with Cons show ?case by simp
qed

lemma at_bytes_frame:
  "at_bytes p vs xs \<Longrightarrow> (\<And>i. p \<le> i \<Longrightarrow> i < p + length vs \<Longrightarrow> ys ! i = xs ! i) \<Longrightarrow> length ys = length xs
   \<Longrightarrow> at_bytes p vs ys"
  by (induction vs arbitrary: p) auto

lemma at_bytes_whole: "length vs \<le> 512 \<Longrightarrow> at_bytes 0 vs vs"
proof -
  have "length us + length vs \<le> 512 \<Longrightarrow> at_bytes (length us) vs (us @ vs)" for us
  proof (induction vs arbitrary: us)
    case Nil
    then show ?case by simp
  next
    case (Cons v vs)
    then show ?case using Cons.IH [of "us @ [v]"] by simp
  qed
  from this [of "[]"] show "length vs \<le> 512 \<Longrightarrow> at_bytes 0 vs vs" by simp
qed

section \<open>Writers write their encoding\<close>

text \<open>
  Every writer equals \<^const>\<open>write_bytes\<close> of an encoding, and \<^const>\<open>write_bytes\<close> puts the bytes at
  the cursor, moves it behind them and changes nothing before it.
\<close>

lemma write_bytes_append:
  "write_bytes (us @ vs) b = and_then (write_bytes us b) (write_bytes vs)"
  by (induction us arbitrary: b) (auto simp: and_then_assoc intro: and_then_eqI)

lemma write_bytes_fun:
  "write_bytes [] = Inr" "write_bytes (v # vs) = (\<lambda>b. and_then (bp_write v b) (write_bytes vs))"
  by (auto simp: bp_write_u8_def)

lemma bp_write_u16_eq: "bp_write_u16 v b = write_bytes (be16 v) b"
  by (simp add: bp_write_u16_def be16_def write_bytes_fun del: write_bytes.simps)

lemma bp_write_u32_eq: "bp_write_u32 v b = write_bytes (be32 v) b"
  by (simp add: bp_write_u32_def be32_def write_bytes_fun del: write_bytes.simps)

lemma bp_write_Inr:
  "bp_write v b = Inr b' \<longleftrightarrow> bp_pos b < 512 \<and> bp_pos b < length (bp_buf b)
     \<and> b' = b\<lparr>bp_buf := (bp_buf b)[bp_pos b := v], bp_pos := bp_pos b + 1\<rparr>"
  by (auto simp: bp_write_def vec_set_def)

lemma write_bytes_fits:
  "bp_pos b + length vs \<le> 512 \<Longrightarrow> bp_pos b + length vs \<le> length (bp_buf b) \<Longrightarrow>
   \<exists>b'. write_bytes vs b = Inr b'"
proof (induction vs arbitrary: b)
  case Nil
  then show ?case by simp
next
  case (Cons v vs)
  then obtain b1 where "bp_write v b = Inr b1" and "bp_pos b1 = bp_pos b + 1"
    and "length (bp_buf b1) = length (bp_buf b)"
    by (auto simp: bp_write_Inr)
  with Cons show ?case by (auto simp: bp_write_u8_def)
qed

lemma write_bytes_Inr:
  assumes "write_bytes vs b = Inr b'" "bp_pos b \<le> 512" "bp_pos b \<le> length (bp_buf b)"
  shows "at_bytes (bp_pos b) vs (bp_buf b') \<and> bp_pos b' = bp_pos b + length vs
     \<and> length (bp_buf b') = length (bp_buf b)
     \<and> (\<forall>i < bp_pos b. bp_buf b' ! i = bp_buf b ! i)"
  using assms
proof (induction vs arbitrary: b)
  case Nil
  then show ?case by simp
next
  case (Cons v vs)
  then obtain b1 where w: "bp_write v b = Inr b1" "write_bytes vs b1 = Inr b'"
    by (auto simp: bp_write_u8_def and_then_Inr_iff)
  then have b1: "bp_pos b1 = Suc (bp_pos b)" "length (bp_buf b1) = length (bp_buf b)"
    "bp_pos b < 512" "bp_pos b < length (bp_buf b)" "bp_buf b1 = (bp_buf b)[bp_pos b := v]"
    by (auto simp: bp_write_Inr)
  have IH: "at_bytes (bp_pos b1) vs (bp_buf b') \<and> bp_pos b' = bp_pos b1 + length vs
     \<and> length (bp_buf b') = length (bp_buf b1) \<and> (\<forall>i < bp_pos b1. bp_buf b' ! i = bp_buf b1 ! i)"
    by (rule Cons.IH [OF w(2)]) (use b1 in auto)
  with b1 show ?case by auto
qed

section \<open>Readers read the bytes at the cursor\<close>

text \<open>
  \<open>reads f bs v\<close>: wherever the bytes \<open>bs\<close> stand at the cursor, the reader \<open>f\<close> returns \<open>v\<close> and moves
  the cursor behind them. Readers compose along the code's \<^verbatim>\<open>?\<close>.
\<close>

definition reads :: "(bpb \<Rightarrow> ('a \<times> bpb) res) \<Rightarrow> bytes \<Rightarrow> 'a \<Rightarrow> bool" where
  "reads f bs v \<longleftrightarrow> (\<forall>b. at_bytes (bp_pos b) bs (bp_buf b) \<longrightarrow>
     f b = Inr (v, b\<lparr>bp_pos := bp_pos b + length bs\<rparr>))"

named_theorems reads_intros \<open>readers of the wire forms\<close>

lemma reads_return [reads_intros]: "reads (\<lambda>b. Inr (v, b)) [] v"
  by (simp add: reads_def)

lemma reads_then:
  "reads f us x \<Longrightarrow> reads (\<lambda>b. g x b) vs y \<Longrightarrow> reads (\<lambda>b. and_then (f b) (\<lambda>(x, b). g x b)) (us @ vs) y"
  by (auto simp: reads_def at_bytes_append add.assoc)

lemma reads_map:
  "reads f us x \<Longrightarrow> reads (\<lambda>b. and_then (f b) (\<lambda>(x, b). Inr (h x, b))) us (h x)"
  by (auto simp: reads_def)

lemma reads_at:
  "reads f bs v \<Longrightarrow> at_bytes (bp_pos b) bs (bp_buf b) \<Longrightarrow>
   f b = Inr (v, b\<lparr>bp_pos := bp_pos b + length bs\<rparr>)"
  by (simp add: reads_def)

lemma reads_u8 [reads_intros]: "reads bp_read [x] x"
  by (simp add: reads_def bp_read_def)

lemma reads_u16_pair: "reads bp_read_u16 [x, y] (of_be16 x y)"
  by (simp add: reads_def bp_read_u16_def bp_read_def)

lemma reads_u16 [reads_intros]: "reads bp_read_u16 (be16 v) v"
  using reads_u16_pair [of "ucast (drop_bit 8 v)" "ucast (v AND 0xFF)"] by (simp add: be16_def)

lemma reads_u32_quad: "reads bp_read_u32 [x, y, z, w] (of_be32 x y z w)"
  by (simp add: reads_def bp_read_u32_def bp_read_def)

lemma reads_u32 [reads_intros]: "reads bp_read_u32 (be32 v) v"
  unfolding be32_def
  using reads_u32_quad [of "ucast (drop_bit 24 v AND 0xFF)" "ucast (drop_bit 16 v AND 0xFF)"
      "ucast (drop_bit 8 v AND 0xFF)" "ucast (v AND 0xFF)"] by simp

text \<open>The loop \<^verbatim>\<open>for _ in 0..n { v.push(read(buffer)?); }\<close>.\<close>

fun read_many :: "(bpb \<Rightarrow> ('a \<times> bpb) res) \<Rightarrow> nat \<Rightarrow> bpb \<Rightarrow> ('a list \<times> bpb) res" where
  "read_many f 0 b = Inr ([], b)"
| "read_many f (Suc n) b =
     and_then (f b) (\<lambda>(x, b).
     and_then (read_many f n b) (\<lambda>(xs, b). Inr (x # xs, b)))"

text \<open>
  A reader and a wire form that agree on the values \<open>ok\<close>: what the packet reader asks of the
  readers of questions and of records.
\<close>

locale wire_codec =
  fixes dec :: "bpb \<Rightarrow> ('a \<times> bpb) res" and enc :: "'a \<Rightarrow> bytes" and ok :: "'a \<Rightarrow> bool"
  assumes dec_enc: "ok x \<Longrightarrow> reads dec (enc x) x"
begin

lemma reads_all:
  "list_all ok xs \<Longrightarrow> reads (read_many dec (length xs)) (concat (map enc xs)) xs"
proof (induction xs)
  case Nil
  then show ?case by (simp add: reads_def)
next
  case (Cons x xs)
  have "reads (\<lambda>b. and_then (read_many dec (length xs) b) (\<lambda>(xs, b). Inr (x # xs, b)))
      (concat (map enc xs)) (x # xs)"
    using Cons by (intro reads_map) simp
  then have "reads (\<lambda>b. and_then (dec b) (\<lambda>(x, b).
      and_then (read_many dec (length xs) b) (\<lambda>(xs, b). Inr (x # xs, b)))) (enc x @ concat (map enc xs)) (x # xs)"
    using Cons.prems dec_enc [of x] by (intro reads_then [where x = x]) auto
  then show ?case by simp
qed

lemma enc_inj: "ok x \<Longrightarrow> ok y \<Longrightarrow> enc x = enc y \<Longrightarrow> length (enc x) \<le> 512 \<Longrightarrow> x = y"
  using reads_at [OF dec_enc [of x], of "bpb_new (enc x)"] reads_at [OF dec_enc [of y], of "bpb_new (enc x)"]
    at_bytes_whole [of "enc x"]
  by (simp add: bpb_new_def)

end

lemma bp_get_range_at:
  "at_bytes p vs (bp_buf b) \<Longrightarrow> p + length vs < 512 \<Longrightarrow> bp_get_range p (length vs) b = Inr vs"
  by (auto simp: bp_get_range_def at_bytes_take dest: at_bytes_bound)

section \<open>Splitting and joining at a separator\<close>

fun join_on :: "'a \<Rightarrow> 'a list list \<Rightarrow> 'a list" where
  "join_on c [] = []"
| "join_on c [p] = p"
| "join_on c (p # ps) = p @ c # join_on c ps"

lemma split_on_not_Nil [simp]: "split_on c xs \<noteq> []"
  by (cases xs) (auto split: list.splits)

lemma join_split [simp]: "join_on c (split_on c xs) = xs"
proof (induction xs)
  case Nil
  then show ?case by simp
next
  case (Cons x xs)
  obtain p ps where ps: "split_on c xs = p # ps" by (cases "split_on c xs") auto
  with Cons show ?case by (cases ps) auto
qed

lemma split_on_parts: "p \<in> set (split_on c xs) \<Longrightarrow> c \<notin> set p"
  by (induction xs arbitrary: p) (auto split: list.splits if_splits)

lemma split_on_id: "c \<notin> set xs \<Longrightarrow> split_on c xs = [xs]"
  by (induction xs) auto

lemma split_on_append: "c \<notin> set p \<Longrightarrow> split_on c (p @ c # xs) = p # split_on c xs"
  by (induction p) auto

lemma split_join:
  "ps \<noteq> [] \<Longrightarrow> (\<And>p. p \<in> set ps \<Longrightarrow> c \<notin> set p) \<Longrightarrow> split_on c (join_on c ps) = ps"
  by (induction c ps rule: join_on.induct) (auto simp: split_on_id split_on_append)

section \<open>The wire form of a name\<close>

fun enc_labels :: "str list \<Rightarrow> bytes" where
  "enc_labels [] = []"
| "enc_labels (l # ls) = (word_of_nat (length l) # l) @ enc_labels ls"

definition enc_qname :: "str \<Rightarrow> bytes" where
  "enc_qname q = enc_labels (split_on dot q) @ [0]"

definition short_labels :: "str \<Rightarrow> bool" where
  "short_labels q \<longleftrightarrow> list_all (\<lambda>l. length l \<le> 0x34) (split_on dot q)"

text \<open>A name as the reader returns it: non-empty labels of lower-case ASCII.\<close>

definition plain_label :: "str \<Rightarrow> bool" where
  "plain_label l \<longleftrightarrow> l \<noteq> [] \<and> length l \<le> 0x34 \<and> list_all (\<lambda>c. c < 128 \<and> ascii_lower c = c) l"

definition plain_name :: "str \<Rightarrow> bool" where
  "plain_name q \<longleftrightarrow> list_all plain_label (split_on dot q)"

lemma plain_name_short: "plain_name q \<Longrightarrow> short_labels q"
  by (auto simp: plain_name_def short_labels_def plain_label_def list_all_iff)

lemma write_labels_eq:
  "list_all (\<lambda>l. length l \<le> 0x34) ls \<Longrightarrow> write_labels ls b = write_bytes (enc_labels ls) b"
proof (induction ls arbitrary: b)
  case Nil
  then show ?case by simp
next
  case (Cons l ls)
  then show ?case by (auto simp: write_bytes_append intro!: and_then_eqI)
qed

lemma bp_write_qname_eq:
  "short_labels q \<Longrightarrow> bp_write_qname q b = write_bytes (enc_qname q) b"
  unfolding bp_write_qname_def enc_qname_def short_labels_def
  by (auto simp: write_labels_eq write_bytes_append write_bytes_fun(1) intro!: and_then_eqI)

lemma map_lower_plain: "list_all (\<lambda>c. c < 128 \<and> ascii_lower c = c) l \<Longrightarrow> lossy_lower uni l = l"
  by (auto simp: lossy_lower_def list_all_iff intro!: map_idI)

lemma label_length_byte:
  assumes "plain_label l"
  shows "(word_of_nat (length l) :: u8) AND 0xC0 \<noteq> 0xC0" "(word_of_nat (length l) :: u8) \<noteq> 0"
    "unat (word_of_nat (length l) :: u8) = length l"
proof -
  have len: "0 < length l" "length l \<le> 52" using assms by (auto simp: plain_label_def)
  show u: "unat (word_of_nat (length l) :: u8) = length l"
    using len by (simp add: unat_of_nat take_bit_nat_eq_self)
  show "(word_of_nat (length l) :: u8) \<noteq> 0"
    using u len by (metis unat_0 less_numeral_extra(3))
  show "(word_of_nat (length l) :: u8) AND 0xC0 \<noteq> 0xC0"
  proof
    assume "(word_of_nat (length l) :: u8) AND 0xC0 = 0xC0"
    then have "(0xC0 :: u8) \<le> word_of_nat (length l)" by (metis word_and_le2)
    then have "192 \<le> length l" using u by (simp add: word_le_nat_alt)
    with len show False by simp
  qed
qed

section \<open>Reading a name back\<close>

lemma at_enc_labels_length:
  "at_bytes p (enc_labels ls @ [0]) xs \<Longrightarrow> list_all plain_label ls \<Longrightarrow> 2 * length ls + p < 512"
proof (induction ls arbitrary: p)
  case Nil
  then show ?case by simp
next
  case (Cons l ls)
  then have "at_bytes (p + 1 + length l) (enc_labels ls @ [0]) xs"
    by (simp add: at_bytes_append)
  from Cons.IH [OF this] have "2 * length ls + (p + 1 + length l) < 512" using Cons.prems by simp
  moreover have "0 < length l" using Cons.prems by (simp add: plain_label_def)
  ultimately show ?case by (cases l) auto
qed

text \<open>Each label read adds the delimiter and the label to the output.\<close>

fun with_delim :: "str \<Rightarrow> str list \<Rightarrow> str" where
  "with_delim d [] = []"
| "with_delim d (l # ls) = d @ l @ with_delim (lit ''.'') ls"

lemma lit_dot: "lit ''.'' = [dot]"
  by (simp add: lit_def dot_def)

lemma with_delim_join: "ls \<noteq> [] \<Longrightarrow> with_delim [] ls = join_on dot ls"
proof -
  have "with_delim (lit ''.'') ls = (if ls = [] then [] else dot # join_on dot ls)" for ls
    by (induction ls) (auto simp: lit_dot neq_Nil_conv)
  then show "ls \<noteq> [] \<Longrightarrow> with_delim [] ls = join_on dot ls" by (cases ls) (auto simp: neq_Nil_conv)
qed

lemma read_qname_loop_labels:
  "at_bytes p (enc_labels ls @ [0]) (bp_buf b) \<Longrightarrow> list_all plain_label ls \<Longrightarrow> length ls < fuel \<Longrightarrow>
   read_qname_loop uni fuel p j d out b =
     Inr (p + length (enc_labels ls) + 1, j, out @ with_delim d ls, b)"
proof (induction ls arbitrary: p fuel d out)
  case Nil
  then show ?case by (cases fuel) (auto simp: bp_get_def)
next
  case (Cons l ls)
  obtain f where fuel: "fuel = Suc f" using Cons.prems by (cases fuel) auto
  have l: "plain_label l" using Cons.prems by simp
  note len = label_length_byte [OF l]
  have at: "p < 512" "p < length (bp_buf b)" "bp_buf b ! p = word_of_nat (length l)"
    "at_bytes (Suc p) l (bp_buf b)" "at_bytes (Suc p + length l) (enc_labels ls @ [0]) (bp_buf b)"
    using Cons.prems by (auto simp: at_bytes_append)
  have "Suc p + length l < 512" using at_bytes_bound [OF at(5)] by simp
  then have range: "bp_get_range (Suc p) (length l) b = Inr l"
    using bp_get_range_at [OF at(4)] by simp
  have "lossy_lower uni l = l" using l by (auto simp: plain_label_def intro: map_lower_plain)
  then show ?case
    using Cons.IH [OF at(5), of f "lit ''.''" "out @ d @ l"] Cons.prems at range len fuel
    by (simp add: bp_get_def)
qed

lemma reads_qname:
  assumes "plain_name q"
  shows "reads (bp_read_qname uni out) (enc_qname q) (out @ q)"
  unfolding reads_def
proof (intro allI impI)
  fix b :: bpb
  assume "at_bytes (bp_pos b) (enc_qname q) (bp_buf b)"
  then have at: "at_bytes (bp_pos b) (enc_labels (split_on dot q) @ [0]) (bp_buf b)"
    and plain: "list_all plain_label (split_on dot q)"
    using assms by (auto simp: enc_qname_def plain_name_def)
  have "length (split_on dot q) < qname_fuel"
    using at_enc_labels_length [OF at plain] by (simp add: qname_fuel_def)
  from read_qname_loop_labels [OF at plain this]
  show "bp_read_qname uni out b = Inr (out @ q, b\<lparr>bp_pos := bp_pos b + length (enc_qname q)\<rparr>)"
    by (simp add: bp_read_qname_def bp_seek_def enc_qname_def with_delim_join add.assoc)
qed

section \<open>The fuel of the name loop is exact\<close>

text \<open>Where an iteration at a position goes next; \<^const>\<open>None\<close> when the loop ends there.\<close>

definition qname_next :: "bpb \<Rightarrow> nat \<Rightarrow> nat option" where
  "qname_next b p =
     (case bp_get p b of
        Inl e \<Rightarrow> None
      | Inr len \<Rightarrow>
          if len AND 0xC0 = 0xC0 then
            (case bp_get (p + 1) b of
               Inl e \<Rightarrow> None
             | Inr b2 \<Rightarrow> Some (unat (push_bit 8 (ucast len XOR 0xC0) OR (ucast b2 :: u16))))
          else if len = 0 then None
          else (case bp_get_range (p + 1) (unat len) b of
                  Inl e \<Rightarrow> None
                | Inr s \<Rightarrow> Some (p + 1 + unat len)))"

fun runs_on :: "('a \<Rightarrow> 'a option) \<Rightarrow> nat \<Rightarrow> 'a \<Rightarrow> bool" where
  "runs_on f 0 x \<longleftrightarrow> True"
| "runs_on f (Suc n) x \<longleftrightarrow> (case f x of None \<Rightarrow> False | Some y \<Rightarrow> runs_on f n y)"

lemma bp_get_no_diverge [simp]: "bp_get p b \<noteq> Inl Diverged"
  by (auto simp: bp_get_def vec_get_def)

lemma bp_get_range_no_diverge [simp]: "bp_get_range p n b \<noteq> Inl Diverged"
  by (auto simp: bp_get_range_def)

lemma bp_get_pos [simp]: "bp_get p (b\<lparr>bp_pos := q\<rparr>) = bp_get p b"
  by (simp add: bp_get_def)

lemma bp_get_range_pos [simp]: "bp_get_range p n (b\<lparr>bp_pos := q\<rparr>) = bp_get_range p n b"
  by (simp add: bp_get_range_def)

lemma qname_loop_diverged:
  "bp_buf b' = bp_buf b \<Longrightarrow>
   read_qname_loop uni n p j d out b' = Inl Diverged \<longleftrightarrow> runs_on (qname_next b) n p"
proof (induction n arbitrary: p j d out b')
  case 0
  then show ?case by simp
next
  case (Suc n)
  have get: "\<And>p. bp_get p b' = bp_get p b" and range: "\<And>p k. bp_get_range p k b' = bp_get_range p k b"
    using Suc.prems by (simp_all add: bp_get_def bp_get_range_def)
  note step = Suc.prems get range qname_next_def bp_seek_def
  show ?case
  proof (cases "bp_get p b")
    case (Inl e)
    then show ?thesis using bp_get_no_diverge [of p b] by (simp add: step)
  next
    case len: (Inr len)
    show ?thesis
    proof (cases "len AND 0xC0 = 0xC0")
      case True
      then show ?thesis using len bp_get_no_diverge [of "p + 1" b]
        by (cases "bp_get (p + 1) b"; cases j) (simp_all add: step Suc.IH)
    next
      case False
      then show ?thesis using len bp_get_range_no_diverge [of "p + 1" "unat len" b]
        by (cases "bp_get_range (p + 1) (unat len) b") (auto simp: step Suc.IH)
    qed
  qed
qed

text \<open>A run that outlives the finitely many places it can be at has come back to one of them.\<close>

lemma runs_on_iterate: "runs_on f n x \<longleftrightarrow> (\<forall>i < n. f (((\<lambda>y. the (f y)) ^^ i) x) \<noteq> None)"
proof (induction n arbitrary: x)
  case 0
  then show ?case by simp
next
  case (Suc n)
  then show ?case
    by (auto simp: All_less_Suc2 funpow_Suc_right simp del: funpow.simps(2) split: option.splits)
qed

lemma cycle_bounds_iterates:
  fixes g :: "'a \<Rightarrow> 'a"
  assumes "(g ^^ i) x = (g ^^ j) x" "i < j"
  shows "\<exists>l < j. (g ^^ k) x = (g ^^ l) x"
proof (induction k rule: less_induct)
  case (less k)
  show ?case
  proof (cases "k < j")
    case True
    then show ?thesis by blast
  next
    case False
    then have "(g ^^ k) x = (g ^^ (k - j)) ((g ^^ j) x)" by (simp flip: funpow_add [THEN fun_cong, simplified])
    also have "\<dots> = (g ^^ (k - j + i)) x" by (simp add: assms(1) [symmetric] funpow_add)
    finally have "(g ^^ k) x = (g ^^ (k - j + i)) x" .
    moreover have "k - j + i < k" using False assms(2) by simp
    ultimately show ?thesis using less by metis
  qed
qed

lemma runs_on_finite:
  assumes fin: "finite A" and dom: "\<And>y. f y \<noteq> None \<Longrightarrow> y \<in> A" and run: "runs_on f (Suc (card A)) x"
  shows "runs_on f n x"
proof -
  define g where "g = (\<lambda>y. the (f y))"
  have live: "f ((g ^^ i) x) \<noteq> None" if "i \<le> card A" for i
    using run that by (auto simp: runs_on_iterate g_def simp del: runs_on.simps)
  have "\<not> inj_on (\<lambda>i. (g ^^ i) x) {..card A}"
  proof
    assume "inj_on (\<lambda>i. (g ^^ i) x) {..card A}"
    moreover have "(\<lambda>i. (g ^^ i) x) ` {..card A} \<subseteq> A" using live dom by blast
    ultimately have "card {..card A} \<le> card A" using fin by (rule card_inj_on_le)
    then show False by simp
  qed
  then obtain i j where ij: "i < j" "j \<le> card A" "(g ^^ i) x = (g ^^ j) x"
    by (metis (no_types, lifting) inj_onI atMost_iff linorder_neqE_nat)
  show ?thesis
  proof (unfold runs_on_iterate, intro allI impI)
    fix k
    obtain l where "l < j" "(g ^^ k) x = (g ^^ l) x"
      using cycle_bounds_iterates [OF ij(3,1)] by blast
    then show "f (((\<lambda>y. the (f y)) ^^ k) x) \<noteq> None"
      using live [of l] ij(2) by (simp add: g_def)
  qed
qed

lemma qname_next_bound: "qname_next b p \<noteq> None \<Longrightarrow> p \<in> {..<512}"
  by (auto simp: qname_next_def bp_get_def split: if_splits)

text \<open>More fuel changes nothing once the loop has ended.\<close>

lemma qname_loop_mono:
  "read_qname_loop uni n p j d out b = r \<Longrightarrow> r \<noteq> Inl Diverged \<Longrightarrow>
   read_qname_loop uni (n + k) p j d out b = r"
proof (induction n arbitrary: p j d out b)
  case 0
  then show ?case by simp
next
  case (Suc n)
  then show ?case
    by (cases "bp_get p b"; cases "bp_get (p + 1) b"; cases "bp_get_range (p + 1) (unat (projr (bp_get p b))) b")
       (auto simp: bp_seek_def Let_def split: if_splits)
qed

lemma qname_loop_exact:
  "read_qname_loop uni qname_fuel p j d out b = Inl Diverged \<Longrightarrow>
   read_qname_loop uni n p j d out b = Inl Diverged"
  unfolding qname_loop_diverged [OF refl] qname_fuel_def
  using runs_on_finite [of "{..<512}" "qname_next b" p n] qname_next_bound by simp

end
