(* ===== verification/Config.thy ===== *)
theory Config imports Dns_Buffer begin

text \<open>
  \<^verbatim>\<open>src/config/tuncfg.rs\<close> and the constants of \<^verbatim>\<open>src/config/mod.rs\<close>: the configuration the server sends,
  how its JSON text is read with defaults, and the requests the client writes.
\<close>

section \<open>Constants\<close>

definition IPSET_NETHASH_TABLE_NULL :: str where "IPSET_NETHASH_TABLE_NULL = lit ''LPROXYN'' @ [0]"
definition IPSET_TABLE_NULL :: str where "IPSET_TABLE_NULL = lit ''LPROXY'' @ [0]"
definition IPSET_TABLE6_NULL :: str where "IPSET_TABLE6_NULL = lit ''LPROXY6'' @ [0]"
definition DEFAULT_DNS_SERVER :: str where "DEFAULT_DNS_SERVER = lit ''223.5.5.5''"
definition LOCAL_SERVER :: str where "LOCAL_SERVER = lit ''127.0.0.1''"
definition LOCAL_TPROXY_SERVER_PORT :: u16 where "LOCAL_TPROXY_SERVER_PORT = 5000"
definition LOCAL_DNS_SERVER_PORT :: u16 where "LOCAL_DNS_SERVER_PORT = 5001"
definition CFG_MONITOR_INTERVAL :: u64 where "CFG_MONITOR_INTERVAL = 5 * 60 * 1000"

definition colon :: u8 where "colon = 58"

section \<open>Data\<close>

record tun_cfg =
  tc_tunnel_number :: nat
  tc_tunnel_url :: str
  tc_tunnel_req_cap :: nat
  tc_relay_domain :: str
  tc_relay_port :: u16
  tc_dns_tunnel_number :: nat
  tc_domains_ver :: str
  tc_domain_array :: "str list option"
  tc_default_dns_server :: str
  tc_request_quota :: nat
  tc_xport_url :: str
  tc_token :: str
  tc_cfg_monitor_url :: str
  tc_cfg_access_report_url :: str
  tc_work_as_global :: bool

record auth_req =
  aq_uuid :: str
  aq_current_version :: str
  aq_arch :: str
  aq_macs :: "str list"

record cfg_monitor_req =
  cq_current_version :: str
  cq_domains_ver :: str
  cq_arch :: str

record auth_resp =
  ar_error :: i64
  ar_token :: str
  ar_restart :: bool
  ar_need_upgrade :: bool
  ar_upgrade_url :: str
  ar_tuncfg :: "tun_cfg option"

section \<open>Requests as text\<close>

definition quote_char :: str where "quote_char = [34]"

text \<open>\<^verbatim>\<open>format_macs\<close>: a comma after every element but the last.\<close>

fun push_macs :: "str list \<Rightarrow> nat \<Rightarrow> nat \<Rightarrow> str \<Rightarrow> str" where
  "push_macs [] i len macs = macs"
| "push_macs (mac # rest) i len macs =
     (let macs = macs @ quote_char @ mac @ quote_char
      in push_macs rest (i + 1) len (if i < len - 1 then macs @ lit '','' else macs))"

definition format_macs :: "auth_req \<Rightarrow> str" where
  "format_macs r = push_macs (aq_macs r) 0 (length (aq_macs r)) []"

definition auth_req_to_json_str :: "auth_req \<Rightarrow> str" where
  "auth_req_to_json_str r =
     (let q = quote_char; macs = format_macs r in
      lit ''{'' @ q @ lit ''uuid'' @ q @ lit '':'' @ q @ aq_uuid r @ q
      @ lit '','' @ q @ lit ''current_version'' @ q @ lit '':'' @ q @ aq_current_version r @ q
      @ lit '','' @ q @ lit ''arch'' @ q @ lit '':'' @ q @ aq_arch r @ q
      @ lit '', '' @ q @ lit ''macs'' @ q @ lit '':['' @ macs @ lit '']}'')"

definition cfg_monitor_req_to_json_str :: "cfg_monitor_req \<Rightarrow> str" where
  "cfg_monitor_req_to_json_str r =
     (let q = quote_char in
      lit ''{'' @ q @ lit ''current_version'' @ q @ lit '':'' @ q @ cq_current_version r @ q
      @ lit '','' @ q @ lit ''domains_ver'' @ q @ lit '':'' @ q @ cq_domains_ver r @ q
      @ lit '','' @ q @ lit ''arch'' @ q @ lit '':'' @ q @ cq_arch r @ q @ lit ''}'')"

section \<open>The reply\<close>

text \<open>What the reader uses of the \<^verbatim>\<open>serde_json\<close> crate, as a parameter: parsing a text, indexing a value
  with \<^verbatim>\<open>v["key"]\<close>, and the typed accessors.\<close>

record 'v json_api =
  js_parse :: "str \<Rightarrow> 'v option"
  js_index :: "'v \<Rightarrow> str \<Rightarrow> 'v"
  js_is_object :: "'v \<Rightarrow> bool"
  js_is_string :: "'v \<Rightarrow> bool"
  js_as_str :: "'v \<Rightarrow> str option"
  js_as_bool :: "'v \<Rightarrow> bool option"
  js_as_i64 :: "'v \<Rightarrow> i64 option"
  js_as_u64 :: "'v \<Rightarrow> u64 option"
  js_as_array :: "'v \<Rightarrow> 'v list option"

definition or_default :: "'a option \<Rightarrow> 'a \<Rightarrow> 'a" where
  "or_default x d = (case x of Some t \<Rightarrow> t | None \<Rightarrow> d)"

fun push_strs :: "'v json_api \<Rightarrow> 'v list \<Rightarrow> str list \<Rightarrow> str list" where
  "push_strs js [] domain_array = domain_array"
| "push_strs js (vv # rest) domain_array =
     push_strs js rest (case js_as_str js vv of Some t \<Rightarrow> domain_array @ [t] | None \<Rightarrow> domain_array)"

definition dns_server_from_json :: "str option \<Rightarrow> str res" where
  "dns_server_from_json s =
     (let default_dns_server = or_default s DEFAULT_DNS_SERVER in
      if colon \<in> set default_dns_server then vec_get (split_on colon default_dns_server) 0
      else Inr default_dns_server)"

definition tun_cfg_from_json :: "'v json_api \<Rightarrow> str \<Rightarrow> 'v \<Rightarrow> tun_cfg res" where
  "tun_cfg_from_json js token v =
     (let strv = (\<lambda>k. js_as_str js (js_index js v (lit k)));
          num = (\<lambda>k d. case js_as_u64 js (js_index js v (lit k)) of Some t \<Rightarrow> unat t | None \<Rightarrow> d)
      in
      and_then (dns_server_from_json (strv ''local_dns_server'')) (\<lambda>default_dns_server.
      Inr \<lparr>tc_tunnel_number = num ''tunnel_number'' 2,
           tc_tunnel_url = or_default (strv ''tunnel_url'') (lit ''wss://127.0.0.1/tun''),
           tc_tunnel_req_cap = num ''tunnel_req_cap'' 100,
           tc_relay_domain = or_default (strv ''relay_domain'') (lit ''127.0.0.1''),
           tc_relay_port = (case js_as_u64 js (js_index js v (lit ''relay_port'')) of Some t \<Rightarrow> ucast t | None \<Rightarrow> 12345),
           tc_dns_tunnel_number = num ''dns_tunnel_number'' 1,
           tc_domains_ver = or_default (strv ''domains_ver'') (lit ''0.1.0''),
           tc_domain_array = Some (case js_as_array js (js_index js v (lit ''domain_array'')) of
                               Some a \<Rightarrow> push_strs js a [] | None \<Rightarrow> []),
           tc_default_dns_server = default_dns_server,
           tc_request_quota = num ''request_quota'' 100,
           tc_xport_url = or_default (strv ''xport_url'') [],
           tc_token = token,
           tc_cfg_monitor_url = or_default (strv ''cfg_monitor_url'') [],
           tc_cfg_access_report_url = or_default (strv ''cfg_access_report_url'') [],
           tc_work_as_global =
             or_default (js_as_bool js (js_index js v (lit ''work_as_global''))) False\<rparr>))"

definition auth_resp_from_json_str :: "'v json_api \<Rightarrow> str \<Rightarrow> auth_resp option res" where
  "auth_resp_from_json_str js s =
     (case js_parse js s of
        None \<Rightarrow> Inr None
      | Some v \<Rightarrow>
          let v_token = js_index js v (lit ''token''); v_tuncfg = js_index js v (lit ''tuncfg'') in
          and_then (if js_is_string js v_token then unwrap (js_as_str js v_token) else Inr []) (\<lambda>token.
          and_then
            (if js_is_object js v_tuncfg
             then and_then (tun_cfg_from_json js token v_tuncfg) (\<lambda>tc. Inr (Some tc)) else Inr None)
            (\<lambda>tuncfg.
          Inr (Some \<lparr>ar_error = or_default (js_as_i64 js (js_index js v (lit ''error''))) 0,
                     ar_token = token,
                     ar_restart = or_default (js_as_bool js (js_index js v (lit ''restart''))) False,
                     ar_need_upgrade = or_default (js_as_bool js (js_index js v (lit ''need_upgrade''))) False,
                     ar_upgrade_url = or_default (js_as_str js (js_index js v (lit ''upgrade_url''))) [],
                     ar_tuncfg = tuncfg\<rparr>))))"

section \<open>Lemmas\<close>

lemma join_on_Cons: "ps \<noteq> [] \<Longrightarrow> join_on c (p # ps) = p @ c # join_on c ps"
  by (cases ps) simp_all

lemma push_macs_join:
  "push_macs ms i (i + length ms) acc = acc @ join_on 44 (map (\<lambda>m. quote_char @ m @ quote_char) ms)"
proof (induction ms arbitrary: i acc)
  case (Cons m ms)
  show ?case using Cons [of "Suc i"] by (cases "ms = []") (simp_all add: Let_def lit_def join_on_Cons)
qed simp

lemma format_macs_join: "format_macs r = join_on 44 (map (\<lambda>m. quote_char @ m @ quote_char) (aq_macs r))"
  using push_macs_join [of "aq_macs r" 0] by (simp add: format_macs_def)

lemma push_strs_filter: "push_strs js vs acc = acc @ List.map_filter (js_as_str js) vs"
  by (induction vs arbitrary: acc) (simp_all add: map_filter_simps split: option.splits)

lemma dns_server_no_colon:
  "\<exists>a. dns_server_from_json s = Inr a \<and> colon \<notin> set a"
proof -
  let ?d = "or_default s DEFAULT_DNS_SERVER"
  have "split_on colon ?d ! 0 \<in> set (split_on colon ?d)" by (rule nth_mem) simp
  then have "colon \<notin> set (split_on colon ?d ! 0)" by (rule split_on_parts)
  then show ?thesis by (simp add: dns_server_from_json_def Let_def)
qed

text \<open>What the crate documents: \<^verbatim>\<open>is_string\<close> is whether \<^verbatim>\<open>as_str\<close> finds a text.\<close>

definition json_api_ok :: "'v json_api \<Rightarrow> bool" where
  "json_api_ok js \<longleftrightarrow> (\<forall>v. js_is_string js v \<longrightarrow> js_as_str js v \<noteq> None)"

lemma auth_resp_total:
  assumes "json_api_ok js"
  shows "\<exists>r. auth_resp_from_json_str js s = Inr r \<and> (r = None \<longleftrightarrow> js_parse js s = None) \<and>
    (\<forall>a c. r = Some a \<and> ar_tuncfg a = Some c \<longrightarrow> colon \<notin> set (tc_default_dns_server c) \<and> tc_token c = ar_token a
       \<and> tc_domain_array c \<noteq> None)"
proof (cases "js_parse js s")
  case None
  then show ?thesis by (simp add: auth_resp_from_json_str_def)
next
  case (Some v)
  let ?t = "js_index js v (lit ''token'')" and ?c = "js_index js v (lit ''tuncfg'')"
  obtain token where t: "(if js_is_string js ?t then unwrap (js_as_str js ?t) else Inr []) = Inr token"
    using assms unfolding json_api_ok_def by (cases "js_is_string js ?t") (auto simp del: split_paired_Ex)
  obtain a where a: "dns_server_from_json (js_as_str js (js_index js ?c (lit ''local_dns_server''))) = Inr a"
    "colon \<notin> set a"
    using dns_server_no_colon by blast
  show ?thesis
    using Some t a by (auto simp: auth_resp_from_json_str_def tun_cfg_from_json_def Let_def)
qed

text \<open>A configuration for the examples of the other theories.\<close>

definition sample_cfg :: tun_cfg where
  "sample_cfg = \<lparr>tc_tunnel_number = 2, tc_tunnel_url = lit ''wss://relay/tun'', tc_tunnel_req_cap = 4,
     tc_relay_domain = lit ''relay'', tc_relay_port = 443, tc_dns_tunnel_number = 1, tc_domains_ver = lit ''0.1.0'',
     tc_domain_array = Some [], tc_default_dns_server = lit ''223.5.5.5'', tc_request_quota = 10,
     tc_xport_url = [], tc_token = lit ''t'', tc_cfg_monitor_url = [], tc_cfg_access_report_url = [],
     tc_work_as_global = False\<rparr>"

end
