(* ===== verification/Tun_Mgr.thy ===== *)
theory Tun_Mgr imports Req_Serv Config "HOL-Library.Multiset" begin

text \<open>
  \<^verbatim>\<open>src/tunnels/tunmgr.rs\<close> and the life of a tunnel in \<^verbatim>\<open>src/tunnels/tunbuilder.rs\<close>: the set of tunnels,
  the choice of one for a request, keep-alive and reconnection.
\<close>

section \<open>State\<close>

text \<open>
  A tunnel is shared between its slot and the future that reads it, which ends when the slot is
  emptied; the model keeps it in the slot. \<open>mg_access_log\<close> is a hash set: its order is nobody's business.
\<close>

record tun_mgr =
  mg_relay_domain :: str
  mg_relay_port :: u16
  mg_url :: str
  mg_capacity :: nat
  mg_tunnel_req_cap :: nat
  mg_request_quota :: u16
  mg_dns_server :: str
  mg_tunnels :: "tunnel option list"
  mg_sorted_tun_indies :: "u16 list"
  mg_current_tun_idx :: u16
  mg_reconnect_queue :: "u16 list"
  mg_discarded :: bool
  mg_keepalive_trigger :: bool
  mg_token :: str
  mg_service_tx :: chan
  mg_udpx_tx :: "chan option"
  mg_access_log :: "(ip_addr \<times> ip_addr) set"

datatype mgr_effect =
    Tun effect
  | Connect nat str u16 str str
  | ReportAccess chan "(ip_addr \<times> ip_addr) set"

definition tun_mgr_new :: "chan \<Rightarrow> nat \<Rightarrow> tun_cfg \<Rightarrow> tun_mgr" where
  "tun_mgr_new service_tx tunnel_count cfg =
     \<lparr>mg_relay_domain = tc_relay_domain cfg, mg_relay_port = tc_relay_port cfg, mg_url = tc_tunnel_url cfg,
      mg_capacity = tunnel_count, mg_tunnel_req_cap = tc_tunnel_req_cap cfg,
      mg_request_quota = word_of_nat (tc_request_quota cfg), mg_dns_server = tc_default_dns_server cfg,
      mg_tunnels = map (\<lambda>_. None) [0..<tunnel_count],
      mg_sorted_tun_indies = map word_of_nat [0..<tunnel_count], mg_current_tun_idx = 0,
      mg_reconnect_queue = [], mg_discarded = False, mg_keepalive_trigger = False, mg_token = tc_token cfg,
      mg_service_tx = service_tx, mg_udpx_tx = None, mg_access_log = {}\<rparr>"

definition update_tuncfg :: "tun_mgr \<Rightarrow> tun_cfg \<Rightarrow> tun_mgr" where
  "update_tuncfg m cfg = m\<lparr>mg_url := tc_tunnel_url cfg, mg_relay_domain := tc_relay_domain cfg,
     mg_relay_port := tc_relay_port cfg, mg_request_quota := word_of_nat (tc_request_quota cfg)\<rparr>"

section \<open>Connecting\<close>

text \<open>\<open>url_ok\<close> is whether the \<^verbatim>\<open>url\<close> crate parses the text; the future then dials and upgrades.\<close>

definition connect :: "(str \<Rightarrow> bool) \<Rightarrow> tun_mgr \<Rightarrow> nat \<Rightarrow> str \<Rightarrow> mgr_effect res" where
  "connect url_ok tm index dns_server =
     (let ws_url = mg_url tm @ lit ''?tok='' @ mg_token tm @ lit ''&cap='' @ dec_digits (mg_tunnel_req_cap tm)
                   @ lit ''&quota='' @ dec_digits (unat (mg_request_quota tm))
      in if url_ok ws_url then Inr (Connect index (mg_relay_domain tm) (mg_relay_port tm) ws_url dns_server)
         else Inl Panicked)"

fun connect_all :: "(str \<Rightarrow> bool) \<Rightarrow> tun_mgr \<Rightarrow> nat list \<Rightarrow> mgr_effect list res" where
  "connect_all url_ok m [] = Inr []"
| "connect_all url_ok m (n # ns) =
     and_then (connect url_ok m n (mg_dns_server m)) (\<lambda>e.
     and_then (connect_all url_ok m ns) (\<lambda>es. Inr (e # es)))"

definition mgr_init :: "(str \<Rightarrow> bool) \<Rightarrow> tun_mgr \<Rightarrow> (tun_mgr \<times> mgr_effect list) res" where
  "mgr_init url_ok m =
     and_then (connect_all url_ok m [0..<mg_capacity m]) (\<lambda>eff. Inr (m\<lparr>mg_keepalive_trigger := True\<rparr>, eff))"

section \<open>Tunnels come and go\<close>

text \<open>\<open>False\<close> is \<^verbatim>\<open>Err(())\<close>: the builder shuts the socket down.\<close>

definition on_tunnel_created :: "tun_mgr \<Rightarrow> tunnel \<Rightarrow> (tun_mgr \<times> bool) res" where
  "on_tunnel_created m tun =
     (if mg_discarded m \<noteq> False then Inr (m, False)
      else
        let index = tn_index tun in
        and_then (vec_get (mg_tunnels m) index) (\<lambda>t.
        if t \<noteq> None then Inl Panicked
        else
          let tun = (case mg_udpx_tx m of Some tx \<Rightarrow> set_udpx_tx tun tx | None \<Rightarrow> tun) in
          Inr (m\<lparr>mg_tunnels := (mg_tunnels m)[index := Some tun]\<rparr>, True)))"

definition on_tunnel_closed_interal :: "tun_mgr \<Rightarrow> nat \<Rightarrow> (tun_mgr \<times> tunnel option) res" where
  "on_tunnel_closed_interal m index =
     and_then (vec_get (mg_tunnels m) index) (\<lambda>t.
     case t of
       Some t \<Rightarrow> Inr (m\<lparr>mg_tunnels := (mg_tunnels m)[index := None]\<rparr>, Some t)
     | None \<Rightarrow> Inr (m, None))"

text \<open>The closed tunnel is returned beside the manager: the futures of its requests still hold handles.\<close>

definition on_tunnel_closed :: "tun_mgr \<Rightarrow> nat \<Rightarrow> (tun_mgr \<times> tunnel option) res" where
  "on_tunnel_closed m index =
     and_then (on_tunnel_closed_interal m index) (\<lambda>(m, t).
     case t of
       Some t \<Rightarrow>
         let t = on_closed t in
         if mg_discarded m then Inr (m, Some t)
         else Inr (m\<lparr>mg_reconnect_queue := mg_reconnect_queue m @ [word_of_nat index]\<rparr>, Some t)
     | None \<Rightarrow> Inr (m, None))"

definition on_tunnel_build_error :: "tun_mgr \<Rightarrow> nat \<Rightarrow> tun_mgr" where
  "on_tunnel_build_error m index =
     (if mg_discarded m \<noteq> False then m
      else m\<lparr>mg_reconnect_queue := mg_reconnect_queue m @ [word_of_nat index]\<rparr>)"

section \<open>Requests\<close>

text \<open>The body of both loops of \<^verbatim>\<open>alloc_tunnel_for_req\<close>, over the positions \<open>ns\<close>.\<close>

fun scan_tunnels :: "tun_mgr \<Rightarrow> nat list \<Rightarrow> (tun_mgr \<times> nat option) res" where
  "scan_tunnels m [] = Inr (m, None)"
| "scan_tunnels m (n # ns) =
     and_then (vec_get (mg_sorted_tun_indies m) n) (\<lambda>tun_idx.
     and_then (vec_get (mg_tunnels m) (unat tun_idx)) (\<lambda>tun2.
     case tun2 of
       None \<Rightarrow> scan_tunnels m ns
     | Some tun \<Rightarrow>
         if tn_capacity tun \<le> tn_req_count tun + 1 then scan_tunnels m ns
         else Inr (m\<lparr>mg_current_tun_idx := word_of_nat ((n + 1) mod length (mg_sorted_tun_indies m))\<rparr>,
                   Some (unat tun_idx))))"

definition alloc_tunnel_for_req :: "tun_mgr \<Rightarrow> (tun_mgr \<times> nat option) res" where
  "alloc_tunnel_for_req m =
     (let len = length (mg_sorted_tun_indies m); current_idx = unat (mg_current_tun_idx m) in
      and_then (scan_tunnels m [current_idx..<len]) (\<lambda>(m, found).
      case found of
        Some i \<Rightarrow> Inr (m, Some i)
      | None \<Rightarrow> scan_tunnels m [0..<current_idx]))"

definition mgr_request_created ::
  "(chan \<Rightarrow> bool) \<Rightarrow> tun_mgr \<Rightarrow> request \<Rightarrow> ip_addr \<Rightarrow> u16 \<Rightarrow> (tun_mgr \<times> effect list \<times> tun_stub option) res" where
  "mgr_request_created alive m req ip port =
     (if mg_discarded m \<noteq> False then Inr (m, [], None)
      else
        and_then (alloc_tunnel_for_req m) (\<lambda>(m, found).
        case found of
          None \<Rightarrow> Inr (m, [], None)
        | Some i \<Rightarrow>
            and_then (vec_get (mg_tunnels m) i) (\<lambda>t. and_then (unwrap t) (\<lambda>tun.
            and_then (on_request_created alive tun req ip port) (\<lambda>(tun, eff, ts).
            Inr (m\<lparr>mg_tunnels := (mg_tunnels m)[i := Some tun]\<rparr>, eff, ts))))))"

definition mgr_request_closed :: "(chan \<Rightarrow> bool) \<Rightarrow> tun_mgr \<Rightarrow> tun_stub \<Rightarrow> (tun_mgr \<times> effect list) res" where
  "mgr_request_closed alive m tunstub =
     (let tidx = unat (ts_tun_idx tunstub) in
      and_then (vec_get (mg_tunnels m) tidx) (\<lambda>t.
      case t of
        Some tun \<Rightarrow>
          and_then (on_request_closed alive tun tunstub) (\<lambda>(tun, eff).
          Inr (m\<lparr>mg_tunnels := (mg_tunnels m)[tidx := Some tun]\<rparr>, eff))
      | None \<Rightarrow> Inr (m, [])))"

text \<open>The reading future of a tunnel hands each message to the tunnel.\<close>

definition mgr_tunnel_msg ::
  "(chan \<Rightarrow> bool) \<Rightarrow> nat \<Rightarrow> tun_mgr \<Rightarrow> nat \<Rightarrow> rmessage \<Rightarrow> (tun_mgr \<times> effect list) res" where
  "mgr_tunnel_msg alive now m index msg =
     (case mg_tunnels m ! index of
        Some tun \<Rightarrow>
          and_then (on_tunnel_msg alive now tun msg) (\<lambda>(tun, eff).
          Inr (m\<lparr>mg_tunnels := (mg_tunnels m)[index := Some tun]\<rparr>, eff))
      | None \<Rightarrow> Inr (m, []))"

section \<open>Keep-alive\<close>

datatype ord3 = Less | Equal | Greater

definition busy_cmp :: "tunnel option list \<Rightarrow> u16 \<Rightarrow> u16 \<Rightarrow> ord3" where
  "busy_cmp tunnels x y =
     (case (tunnels ! unat x, tunnels ! unat y) of
        (Some tun1, Some tun2) \<Rightarrow>
          if tn_busy tun1 < tn_busy tun2 then Less
          else if tn_busy tun1 = tn_busy tun2 then Equal else Greater
      | _ \<Rightarrow> Equal)"

text \<open>
  \<open>sort_by\<close> is \<^verbatim>\<open>slice::sort_by\<close>, a parameter because the comparison is no order when a tunnel is
  missing (equal to everything), and the result is then only some permutation.
\<close>

type_synonym sorter = "(u16 \<Rightarrow> u16 \<Rightarrow> ord3) \<Rightarrow> u16 list \<Rightarrow> u16 list"

definition sort_tunnels_by_busy :: "sorter \<Rightarrow> tun_mgr \<Rightarrow> tun_mgr" where
  "sort_tunnels_by_busy sort_by m =
     m\<lparr>mg_sorted_tun_indies := sort_by (busy_cmp (mg_tunnels m)) (mg_sorted_tun_indies m),
       mg_tunnels := map (map_option reset_busy) (mg_tunnels m)\<rparr>"

fun send_pings_to :: "(chan \<Rightarrow> bool) \<Rightarrow> nat \<Rightarrow> tunnel option list \<Rightarrow> (tunnel option list \<times> effect list) res" where
  "send_pings_to alive now [] = Inr ([], [])"
| "send_pings_to alive now (None # ts) =
     and_then (send_pings_to alive now ts) (\<lambda>(ts, eff). Inr (None # ts, eff))"
| "send_pings_to alive now (Some tun # ts) =
     and_then (send_ping alive now tun) (\<lambda>(tun, eff, ok).
     let eff = (if \<not> ok then eff @ close_rawfd tun else eff) in
     and_then (send_pings_to alive now ts) (\<lambda>(ts, eff2). Inr (Some tun # ts, eff @ eff2)))"

definition send_pings :: "(chan \<Rightarrow> bool) \<Rightarrow> nat \<Rightarrow> tun_mgr \<Rightarrow> (tun_mgr \<times> effect list) res" where
  "send_pings alive now m =
     and_then (send_pings_to alive now (mg_tunnels m)) (\<lambda>(ts, eff). Inr (m\<lparr>mg_tunnels := ts\<rparr>, eff))"

definition process_reconnect :: "(str \<Rightarrow> bool) \<Rightarrow> tun_mgr \<Rightarrow> (tun_mgr \<times> mgr_effect list) res" where
  "process_reconnect url_ok m =
     and_then (connect_all url_ok m (map unat (rev (mg_reconnect_queue m)))) (\<lambda>eff.
     Inr (m\<lparr>mg_reconnect_queue := []\<rparr>, eff))"

definition report_access_log :: "(chan \<Rightarrow> bool) \<Rightarrow> tun_mgr \<Rightarrow> tun_mgr \<times> mgr_effect list" where
  "report_access_log alive m =
     (if mg_access_log m = {} then (m, [])
      else (m\<lparr>mg_access_log := {}\<rparr>,
            if alive (mg_service_tx m) then [ReportAccess (mg_service_tx m) (mg_access_log m)] else []))"

definition mgr_keepalive ::
  "(chan \<Rightarrow> bool) \<Rightarrow> (str \<Rightarrow> bool) \<Rightarrow> sorter \<Rightarrow> nat \<Rightarrow> tun_mgr \<Rightarrow> (tun_mgr \<times> mgr_effect list) res" where
  "mgr_keepalive alive url_ok sort_by now m =
     (if mg_discarded m \<noteq> False then Inr (m, [])
      else
        let m = sort_tunnels_by_busy sort_by m in
        and_then (send_pings alive now m) (\<lambda>(m, eff1).
        and_then (process_reconnect url_ok m) (\<lambda>(m, eff2).
        case report_access_log alive m of
          (m, eff3) \<Rightarrow> Inr (m, map Tun eff1 @ eff2 @ eff3))))"

definition mgr_stop :: "tun_mgr \<Rightarrow> tun_mgr \<times> effect list" where
  "mgr_stop m =
     (if mg_discarded m \<noteq> False then (m, [])
      else (m\<lparr>mg_discarded := True, mg_keepalive_trigger := False\<rparr>,
            concat (map (\<lambda>t. case t of Some tun \<Rightarrow> close_rawfd tun | None \<Rightarrow> []) (mg_tunnels m))))"

section \<open>Access log and UDP\<close>

definition log_access :: "tun_mgr \<Rightarrow> ip_addr \<Rightarrow> ip_addr \<Rightarrow> tun_mgr" where
  "log_access m peer_addr target_ip = m\<lparr>mg_access_log := insert (peer_addr, target_ip) (mg_access_log m)\<rparr>"

definition mgr_udp_proxy_north ::
  "(chan \<Rightarrow> bool) \<Rightarrow> tun_mgr \<Rightarrow> bytes \<Rightarrow> socket_addr \<Rightarrow> socket_addr \<Rightarrow> nat \<Rightarrow> (tun_mgr \<times> effect list) res" where
  "mgr_udp_proxy_north alive m msg src_addr dst_addr hash_code =
     (if length (mg_tunnels m) = 0 then Inl Panicked
      else
        let tun_idx = hash_code mod length (mg_tunnels m) in
        case mg_tunnels m ! tun_idx of
          Some tun \<Rightarrow>
            and_then (udp_proxy_north alive tun msg src_addr dst_addr) (\<lambda>eff.
            Inr (log_access m (sa_ip src_addr) (sa_ip dst_addr), eff))
        | None \<Rightarrow> Inr (m, []))"

definition mgr_set_udpx_tx :: "tun_mgr \<Rightarrow> chan \<Rightarrow> tun_mgr" where
  "mgr_set_udpx_tx m tx =
     m\<lparr>mg_udpx_tx := Some tx, mg_tunnels := map (map_option (\<lambda>t. set_udpx_tx t tx)) (mg_tunnels m)\<rparr>"

section \<open>The manager and its builders\<close>

text \<open>
  The futures of \<^verbatim>\<open>tunbuilder\<close> are events: each \<open>Connect\<close> ends in \<open>Built\<close> or \<open>BuildFailed\<close>, each tunnel that
  was built ends. The state is the manager with the indices being dialled.
\<close>

datatype mgr_event =
    BuildFailed nat
  | Built tunnel
  | TunnelEnded nat
  | TunnelMsg nat nat rmessage
  | ReqOpened request ip_addr u16
  | ReqEnded tun_stub
  | KeepAlive nat
  | Stop
  | UdpNorth bytes socket_addr socket_addr nat
  | UdpxTx chan
  | NewConfig tun_cfg
  | Accessed ip_addr ip_addr

type_synonym mgr_state = "tun_mgr \<times> nat multiset"

fun connects :: "mgr_effect list \<Rightarrow> nat list" where
  "connects [] = []"
| "connects (Connect i _ _ _ _ # es) = i # connects es"
| "connects (Tun _ # es) = connects es"
| "connects (ReportAccess _ _ # es) = connects es"

fun mgr_step ::
  "(chan \<Rightarrow> bool) \<Rightarrow> (str \<Rightarrow> bool) \<Rightarrow> sorter \<Rightarrow> mgr_state \<Rightarrow> mgr_event \<Rightarrow> mgr_state res" where
  "mgr_step alive url_ok sort_by (m, c) (BuildFailed i) = Inr (on_tunnel_build_error m i, c - {#i#})"
| "mgr_step alive url_ok sort_by (m, c) (Built tun) =
     and_then (on_tunnel_created m tun) (\<lambda>(m, _). Inr (m, c - {#tn_index tun#}))"
| "mgr_step alive url_ok sort_by (m, c) (TunnelEnded i) =
     and_then (on_tunnel_closed m i) (\<lambda>(m, _). Inr (m, c))"
| "mgr_step alive url_ok sort_by (m, c) (TunnelMsg now i msg) =
     and_then (mgr_tunnel_msg alive now m i msg) (\<lambda>(m, _). Inr (m, c))"
| "mgr_step alive url_ok sort_by (m, c) (ReqOpened req ip port) =
     and_then (mgr_request_created alive m req ip port) (\<lambda>(m, _). Inr (m, c))"
| "mgr_step alive url_ok sort_by (m, c) (ReqEnded ts) =
     and_then (mgr_request_closed alive m ts) (\<lambda>(m, _). Inr (m, c))"
| "mgr_step alive url_ok sort_by (m, c) (KeepAlive now) =
     and_then (mgr_keepalive alive url_ok sort_by now m) (\<lambda>(m, eff). Inr (m, c + mset (connects eff)))"
| "mgr_step alive url_ok sort_by (m, c) Stop = Inr (fst (mgr_stop m), c)"
| "mgr_step alive url_ok sort_by (m, c) (UdpNorth msg src dst h) =
     and_then (mgr_udp_proxy_north alive m msg src dst h) (\<lambda>(m, _). Inr (m, c))"
| "mgr_step alive url_ok sort_by (m, c) (UdpxTx tx) = Inr (mgr_set_udpx_tx m tx, c)"
| "mgr_step alive url_ok sort_by (m, c) (NewConfig cfg) = Inr (update_tuncfg m cfg, c)"
| "mgr_step alive url_ok sort_by (m, c) (Accessed peer target) = Inr (log_access m peer target, c)"

definition open_at :: "tun_mgr \<Rightarrow> nat \<Rightarrow> bool" where
  "open_at m i \<longleftrightarrow> i < length (mg_tunnels m) \<and> mg_tunnels m ! i \<noteq> None"

text \<open>When an event can happen, for a peer and clients that name requests as they were told to.\<close>

fun mgr_enabled :: "mgr_state \<Rightarrow> mgr_event \<Rightarrow> bool" where
  "mgr_enabled (m, c) (BuildFailed i) \<longleftrightarrow> i \<in># c"
| "mgr_enabled (m, c) (Built tun) \<longleftrightarrow> tn_index tun \<in># c \<and> tunnel_ok tun"
| "mgr_enabled (m, c) (TunnelEnded i) \<longleftrightarrow> open_at m i"
| "mgr_enabled (m, c) (TunnelMsg now i msg) \<longleftrightarrow> open_at m i \<and> closes_honestly msg
     \<and> (case mg_tunnels m ! i of Some t \<Rightarrow> msg_acceptable now t (rm_buf msg) | None \<Rightarrow> False)"
| "mgr_enabled (m, c) (ReqEnded ts) \<longleftrightarrow> unat (ts_tun_idx ts) < length (mg_tunnels m) \<and> odd (ts_req_tag ts)"
| "mgr_enabled (m, c) (UdpNorth msg src dst h) \<longleftrightarrow> mg_tunnels m \<noteq> []"
| "mgr_enabled (m, c) _ \<longleftrightarrow> True"

section \<open>Every tunnel index has one owner\<close>

definition owners :: "tun_mgr \<Rightarrow> nat multiset \<Rightarrow> nat \<Rightarrow> nat" where
  "owners m c i = (if open_at m i then 1 else 0) + count_list (map unat (mg_reconnect_queue m)) i + count c i"

definition tunnels_ok :: "tunnel option list \<Rightarrow> bool" where
  "tunnels_ok ts \<longleftrightarrow> (\<forall>t. Some t \<in> set ts \<longrightarrow> tunnel_ok t)"

text \<open>
  The owner of an index is an open tunnel, the reconnect queue or a builder: exactly one, until the
  manager is discarded, at most one afterwards. The order of tunnels is a permutation of the indices.
\<close>

definition mgr_shape :: "tun_mgr \<Rightarrow> bool" where
  "mgr_shape m \<longleftrightarrow> length (mg_tunnels m) < 2 ^ 16
     \<and> mset (map unat (mg_sorted_tun_indies m)) = mset [0..<length (mg_tunnels m)]
     \<and> (mg_tunnels m = [] \<or> unat (mg_current_tun_idx m) < length (mg_tunnels m)) \<and> tunnels_ok (mg_tunnels m)
     \<and> (mg_tunnels m = [] \<longrightarrow> mg_current_tun_idx m = 0)"

definition owned :: "tun_mgr \<Rightarrow> nat multiset \<Rightarrow> bool" where
  "owned m c \<longleftrightarrow> (\<forall>i. owners m c i \<le> (if i < length (mg_tunnels m) then 1 else 0)
     \<and> (\<not> mg_discarded m \<and> i < length (mg_tunnels m) \<longrightarrow> owners m c i = 1))"

definition mgr_ok :: "mgr_state \<Rightarrow> bool" where
  "mgr_ok s \<longleftrightarrow> mgr_shape (fst s) \<and> owned (fst s) (snd s)"

lemma unat_index: "i < 2 ^ 16 \<Longrightarrow> unat (word_of_nat i :: u16) = i"
  by (simp add: unat_of_nat_less)

lemma owned_less: "owned m c \<Longrightarrow> 0 < owners m c i \<Longrightarrow> i < length (mg_tunnels m)"
  unfolding owned_def by (metis not_less_zero le_zero_eq less_numeral_extra(3) neq0_conv)

text \<open>Changes that keep the tunnels' slots and the queue.\<close>

lemma owned_cong:
  "length (mg_tunnels m') = length (mg_tunnels m) \<Longrightarrow> (\<And>i. open_at m' i = open_at m i) \<Longrightarrow>
   mg_reconnect_queue m' = mg_reconnect_queue m \<Longrightarrow> mg_discarded m' = mg_discarded m \<Longrightarrow> owned m' c = owned m c"
  by (simp add: owned_def owners_def)

lemma owned_transfer:
  assumes "owned m c" "length (mg_tunnels m') = length (mg_tunnels m)"
    "mg_discarded m \<longrightarrow> mg_discarded m'"
    "\<And>j. owners m' c' j = owners m c j \<or> mg_discarded m' \<and> owners m' c' j \<le> owners m c j"
  shows "owned m' c'"
  unfolding owned_def
proof
  fix i
  have "owners m c i \<le> (if i < length (mg_tunnels m) then 1 else 0)"
    "\<not> mg_discarded m \<and> i < length (mg_tunnels m) \<longrightarrow> owners m c i = 1"
    using assms(1) unfolding owned_def by blast+
  then show "owners m' c' i \<le> (if i < length (mg_tunnels m') then 1 else 0)
     \<and> (\<not> mg_discarded m' \<and> i < length (mg_tunnels m') \<longrightarrow> owners m' c' i = 1)"
    using assms(2,3) assms(4) [of i] by auto
qed

lemma tunnels_ok_update: "tunnels_ok ts \<Longrightarrow> tunnel_ok t \<Longrightarrow> tunnels_ok (ts[i := Some t])"
  by (auto simp: tunnels_ok_def dest!: set_update_subset_insert [THEN subsetD])

lemma tunnels_ok_none: "tunnels_ok ts \<Longrightarrow> tunnels_ok (ts[i := None])"
  by (auto simp: tunnels_ok_def dest!: set_update_subset_insert [THEN subsetD])

lemma tunnels_ok_nth: "tunnels_ok ts \<Longrightarrow> i < length ts \<Longrightarrow> ts ! i = Some t \<Longrightarrow> tunnel_ok t"
  unfolding tunnels_ok_def by (metis nth_mem)

lemma tunnels_ok_map:
  "(\<And>t. tunnel_ok t \<Longrightarrow> tunnel_ok (f t)) \<Longrightarrow> tunnels_ok ts \<Longrightarrow> tunnels_ok (map (map_option f) ts)"
  by (auto simp: tunnels_ok_def dest!: sym [of "Some _"])

lemma set_slot_ok:
  assumes "mgr_ok (m, c)" "mg_tunnels m ! i = Some t" "i < length (mg_tunnels m)" "tunnel_ok t'"
  shows "mgr_ok (m\<lparr>mg_tunnels := (mg_tunnels m)[i := Some t']\<rparr>, c)"
proof -
  let ?m = "m\<lparr>mg_tunnels := (mg_tunnels m)[i := Some t']\<rparr>"
  have "open_at ?m j = open_at m j" for j
    using assms(2,3) by (auto simp: open_at_def nth_list_update)
  then have "owned ?m c = owned m c" by (intro owned_cong) simp_all
  then show ?thesis using assms tunnels_ok_update
    by (auto simp: mgr_ok_def mgr_shape_def)
qed

lemma build_failed_ok:
  assumes ok: "mgr_ok (m, c)" and i: "i \<in># c"
  shows "mgr_ok (on_tunnel_build_error m i, c - {#i#})"
proof -
  have own: "owned m c" and shape: "mgr_shape m" using ok by (simp_all add: mgr_ok_def)
  have "i < length (mg_tunnels m)" using i by (intro owned_less [OF own]) (simp add: owners_def)
  then have u: "unat (word_of_nat i :: u16) = i" using shape by (intro unat_index) (simp add: mgr_shape_def)
  let ?m = "on_tunnel_build_error m i"
  have pos: "0 < count c i" using i by simp
  have "owners ?m (c - {#i#}) j = owners m c j \<or> mg_discarded ?m \<and> owners ?m (c - {#i#}) j \<le> owners m c j" for j
    using u pos by (auto simp: owners_def on_tunnel_build_error_def open_at_def count_list_append)
  then have "owned ?m (c - {#i#})"
    by (intro owned_transfer [OF own]) (simp_all add: on_tunnel_build_error_def)
  moreover have "mgr_shape ?m" using shape by (auto simp: mgr_shape_def on_tunnel_build_error_def)
  ultimately show ?thesis by (simp add: mgr_ok_def)
qed

lemma built_ok:
  assumes ok: "mgr_ok (m, c)" and i: "tn_index tun \<in># c" and tun: "tunnel_ok tun"
  shows "\<exists>m' b. on_tunnel_created m tun = Inr (m', b) \<and> mgr_ok (m', c - {#tn_index tun#})
    \<and> (b \<longleftrightarrow> \<not> mg_discarded m)"
proof -
  let ?i = "tn_index tun"
  have own: "owned m c" and shape: "mgr_shape m" using ok by (simp_all add: mgr_ok_def)
  have pos: "0 < count c ?i" using i by simp
  then have less: "?i < length (mg_tunnels m)" by (intro owned_less [OF own]) (simp add: owners_def)
  have "owners m c ?i \<le> 1" using own less unfolding owned_def by (metis (full_types))
  then have closed: "\<not> open_at m ?i" using pos
  proof (intro notI)
    assume "open_at m ?i" "owners m c ?i \<le> 1" "0 < count c ?i"
    then show False unfolding owners_def by (simp only: if_True)
  qed
  show ?thesis
  proof (cases "mg_discarded m")
    case True
    have "owned m (c - {#?i#})"
      by (rule owned_transfer [OF own]) (auto simp: True owners_def)
    then show ?thesis using True shape by (auto simp: on_tunnel_created_def mgr_ok_def)
  next
    case False
    define tun' where "tun' = (case mg_udpx_tx m of Some tx \<Rightarrow> set_udpx_tx tun tx | None \<Rightarrow> tun)"
    let ?m = "m\<lparr>mg_tunnels := (mg_tunnels m)[?i := Some tun']\<rparr>"
    have "tunnel_ok tun'" using tun by (simp add: tun'_def set_udpx_tx_def split: option.splits)
    then have "mgr_shape ?m" using shape tunnels_ok_update by (auto simp: mgr_shape_def)
    moreover have "owned ?m (c - {#?i#})"
    proof (rule owned_transfer [OF own])
      have "open_at ?m j \<longleftrightarrow> open_at m j \<or> j = ?i" for j
        using less by (auto simp: open_at_def nth_list_update)
      then show "owners ?m (c - {#?i#}) j = owners m c j
          \<or> mg_discarded ?m \<and> owners ?m (c - {#?i#}) j \<le> owners m c j" for j
        using closed pos by (auto simp: owners_def)
    qed simp_all
    moreover have "on_tunnel_created m tun = Inr (?m, True)"
      using False less closed by (simp add: on_tunnel_created_def open_at_def tun'_def)
    ultimately show ?thesis using False by (auto simp: mgr_ok_def)
  qed
qed

lemma ended_ok:
  assumes ok: "mgr_ok (m, c)" and o: "open_at m i"
  shows "\<exists>m' t. on_tunnel_closed m i = Inr (m', t) \<and> mgr_ok (m', c)"
proof -
  have own: "owned m c" and shape: "mgr_shape m" using ok by (simp_all add: mgr_ok_def)
  have less: "i < length (mg_tunnels m)" using o by (simp add: open_at_def)
  then have u: "unat (word_of_nat i :: u16) = i" using shape by (intro unat_index) (simp add: mgr_shape_def)
  obtain t where t: "mg_tunnels m ! i = Some t" using o by (auto simp: open_at_def)
  define m1 where "m1 = m\<lparr>mg_tunnels := (mg_tunnels m)[i := None]\<rparr>"
  define m2 where "m2 = (if mg_discarded m then m1
    else m1\<lparr>mg_reconnect_queue := mg_reconnect_queue m @ [word_of_nat i]\<rparr>)"
  have "on_tunnel_closed m i = Inr (m2, Some (on_closed t))"
    using less t by (simp add: on_tunnel_closed_def on_tunnel_closed_interal_def m2_def m1_def Let_def)
  moreover have "mgr_shape m2"
    using shape tunnels_ok_none by (auto simp: mgr_shape_def m2_def m1_def)
  moreover have "owned m2 c"
  proof (rule owned_transfer [OF own])
    have "open_at m2 j \<longleftrightarrow> open_at m j \<and> j \<noteq> i" for j
      by (cases "j = i") (auto simp: open_at_def m2_def m1_def)
    then show "owners m2 c j = owners m c j \<or> mg_discarded m2 \<and> owners m2 c j \<le> owners m c j" for j
      using o u by (auto simp: owners_def m2_def m1_def count_list_append)
  qed (simp_all add: m2_def m1_def)
  ultimately show ?thesis by (simp add: mgr_ok_def)
qed

text \<open>Choosing a tunnel only moves the cursor, and finds one with room if there is one.\<close>

definition has_room :: "tun_mgr \<Rightarrow> nat \<Rightarrow> bool" where
  "has_room m i \<longleftrightarrow> i < length (mg_tunnels m)
     \<and> (case mg_tunnels m ! i of Some t \<Rightarrow> tn_req_count t + 1 < tn_capacity t | None \<Rightarrow> False)"

lemma scan_tunnels_ok:
  assumes shape: "mgr_shape m"
  shows "\<forall>n \<in> set ns. n < length (mg_tunnels m) \<Longrightarrow>
    \<exists>m' r. scan_tunnels m ns = Inr (m', r) \<and>
      (case r of
         None \<Rightarrow> m' = m \<and> (\<forall>n \<in> set ns. \<not> has_room m (unat (mg_sorted_tun_indies m ! n)))
       | Some i \<Rightarrow> has_room m i \<and> mg_tunnels m \<noteq> [] \<and> (\<exists>k. m' = m\<lparr>mg_current_tun_idx := k\<rparr> \<and> unat k < length (mg_tunnels m)))"
proof (induction ns)
  case (Cons n ns)
  have perm: "mset (map unat (mg_sorted_tun_indies m)) = mset [0..<length (mg_tunnels m)]"
    using shape by (simp add: mgr_shape_def)
  then have len: "length (mg_sorted_tun_indies m) = length (mg_tunnels m)"
    by (metis length_map length_upt minus_nat.diff_0 size_mset)
  have n: "n < length (mg_sorted_tun_indies m)" using Cons.prems len by simp
  then have "unat (mg_sorted_tun_indies m ! n) \<in># mset (map unat (mg_sorted_tun_indies m))" by simp
  then have i: "unat (mg_sorted_tun_indies m ! n) < length (mg_tunnels m)" unfolding perm by simp
  obtain m' r where IH: "scan_tunnels m ns = Inr (m', r)"
      "case r of
         None \<Rightarrow> m' = m \<and> (\<forall>n \<in> set ns. \<not> has_room m (unat (mg_sorted_tun_indies m ! n)))
       | Some i \<Rightarrow> has_room m i \<and> mg_tunnels m \<noteq> [] \<and> (\<exists>k. m' = m\<lparr>mg_current_tun_idx := k\<rparr> \<and> unat k < length (mg_tunnels m))"
    using Cons by auto
  show ?case
  proof (cases "has_room m (unat (mg_sorted_tun_indies m ! n))")
    case True
    then obtain t where t: "mg_tunnels m ! unat (mg_sorted_tun_indies m ! n) = Some t"
      "\<not> tn_capacity t \<le> tn_req_count t + 1" by (auto simp: has_room_def split: option.splits)
    let ?k = "(n + 1) mod length (mg_sorted_tun_indies m)"
    have k: "?k < length (mg_tunnels m)" using n len by (metis gr_implies_not0 mod_less_divisor neq0_conv)
    then have "unat (word_of_nat ?k :: u16) = ?k"
      using shape by (intro unat_index) (simp add: mgr_shape_def)
    then show ?thesis using n i t True k by (auto intro!: exI)
  next
    case False
    then have "scan_tunnels m (n # ns) = scan_tunnels m ns"
      using n i by (auto simp: has_room_def split: option.splits)
    then show ?thesis using IH False by (auto split: option.splits)
  qed
qed simp

lemma alloc_tunnel_ok:
  assumes shape: "mgr_shape m"
  shows "\<exists>m' r. alloc_tunnel_for_req m = Inr (m', r) \<and>
      (case r of
         None \<Rightarrow> m' = m \<and> (\<forall>i. \<not> has_room m i)
       | Some i \<Rightarrow> has_room m i \<and> mg_tunnels m \<noteq> [] \<and> (\<exists>k. m' = m\<lparr>mg_current_tun_idx := k\<rparr> \<and> unat k < length (mg_tunnels m)))"
proof -
  let ?n = "length (mg_sorted_tun_indies m)" and ?cur = "unat (mg_current_tun_idx m)"
  have perm: "mset (map unat (mg_sorted_tun_indies m)) = mset [0..<length (mg_tunnels m)]"
    using shape by (simp add: mgr_shape_def)
  then have len: "?n = length (mg_tunnels m)"
    by (metis length_map length_upt minus_nat.diff_0 size_mset)
  have cur: "?cur \<le> ?n" using shape len by (auto simp: mgr_shape_def)
  obtain m1 r1 where a: "scan_tunnels m [?cur..<?n] = Inr (m1, r1)"
    "case r1 of
         None \<Rightarrow> m1 = m \<and> (\<forall>n \<in> set [?cur..<?n]. \<not> has_room m (unat (mg_sorted_tun_indies m ! n)))
       | Some i \<Rightarrow> has_room m i \<and> mg_tunnels m \<noteq> [] \<and> (\<exists>k. m1 = m\<lparr>mg_current_tun_idx := k\<rparr> \<and> unat k < length (mg_tunnels m))"
    using scan_tunnels_ok [OF shape, of "[?cur..<?n]"] len by auto
  obtain m2 r2 where b: "scan_tunnels m [0..<?cur] = Inr (m2, r2)"
    "case r2 of
         None \<Rightarrow> m2 = m \<and> (\<forall>n \<in> set [0..<?cur]. \<not> has_room m (unat (mg_sorted_tun_indies m ! n)))
       | Some i \<Rightarrow> has_room m i \<and> mg_tunnels m \<noteq> [] \<and> (\<exists>k. m2 = m\<lparr>mg_current_tun_idx := k\<rparr> \<and> unat k < length (mg_tunnels m))"
    using scan_tunnels_ok [OF shape, of "[0..<?cur]"] cur len by auto
  show ?thesis
  proof (cases r1)
    case (Some i)
    then show ?thesis using a by (simp add: alloc_tunnel_for_req_def Let_def)
  next
    case r1: None
    then have alloc: "alloc_tunnel_for_req m = Inr (m2, r2)" using a b by (simp add: alloc_tunnel_for_req_def Let_def)
    show ?thesis
    proof (cases r2)
      case None
      have "\<not> has_room m i" for i
      proof
        assume room: "has_room m i"
        then have "i \<in># mset (map unat (mg_sorted_tun_indies m))" unfolding perm by (simp add: has_room_def)
        then obtain n where "n < ?n" "unat (mg_sorted_tun_indies m ! n) = i"
          by (auto simp: in_set_conv_nth)
        then show False using a(2) b(2) r1 None room by (cases "n < ?cur") auto
      qed
      then show ?thesis using alloc None b by auto
    next
      case (Some i)
      then show ?thesis using alloc b(2) by auto
    qed
  qed
qed

text \<open>At 65535 slots the code's test for a full tunnel wraps around.\<close>

definition small_tunnels :: "tun_mgr \<Rightarrow> bool" where
  "small_tunnels m \<longleftrightarrow> list_all (\<lambda>t. case t of Some t \<Rightarrow> tn_capacity t < 0xFFFF | None \<Rightarrow> True) (mg_tunnels m)"

lemma request_created_ok:
  assumes ok: "mgr_ok (m, c)"
  shows "\<exists>m' eff ts. mgr_request_created alive m req ip port = Inr (m', eff, ts) \<and> mgr_ok (m', c) \<and>
    (ts \<noteq> None \<longrightarrow> \<not> mg_discarded m \<and> (\<exists>i. has_room m i)) \<and>
    (\<not> mg_discarded m \<and> (\<exists>i. has_room m i) \<and> small_tunnels m \<longrightarrow> ts \<noteq> None)"
proof (cases "mg_discarded m")
  case True
  then show ?thesis using ok by (simp add: mgr_request_created_def)
next
  case False
  have own: "owned m c" and shape: "mgr_shape m" using ok by (simp_all add: mgr_ok_def)
  obtain m1 r where a: "alloc_tunnel_for_req m = Inr (m1, r)"
    "case r of
         None \<Rightarrow> m1 = m \<and> (\<forall>i. \<not> has_room m i)
       | Some i \<Rightarrow> has_room m i \<and> mg_tunnels m \<noteq> [] \<and> (\<exists>k. m1 = m\<lparr>mg_current_tun_idx := k\<rparr> \<and> unat k < length (mg_tunnels m))"
    using alloc_tunnel_ok [OF shape] by blast
  show ?thesis
  proof (cases r)
    case None
    then show ?thesis using a False ok by (simp add: mgr_request_created_def)
  next
    case (Some i)
    then obtain k where k: "has_room m i" "mg_tunnels m \<noteq> []" "m1 = m\<lparr>mg_current_tun_idx := k\<rparr>"
      "unat k < length (mg_tunnels m)" using a by auto
    then obtain t where t: "i < length (mg_tunnels m)" "mg_tunnels m ! i = Some t" "tn_req_count t + 1 < tn_capacity t"
      by (auto simp: has_room_def split: option.splits)
    have tok: "tunnel_ok t" using shape t tunnels_ok_nth by (auto simp: mgr_shape_def)
    have "owned m1 c = owned m c" by (rule owned_cong) (simp_all add: k(3) open_at_def)
    then have m1: "mgr_ok (m1, c)" using own shape k by (auto simp: mgr_ok_def mgr_shape_def)
    obtain t' eff ts where c: "on_request_created alive t req ip port = Inr (t', eff, ts)" "tunnel_ok t'"
        "ts \<noteq> None \<longleftrightarrow> tn_req_count t < tn_capacity t"
      using created_ok [OF tok] by metis
    have small: "ts \<noteq> None" if "small_tunnels m"
    proof -
      have "tn_capacity t < 0xFFFF" using that t unfolding small_tunnels_def list_all_length by fastforce
      moreover have "unat (tn_req_count t) \<le> unat (tn_capacity t)"
        using tok reqq_room_live [of "tn_requests t"] by (simp add: tunnel_ok_def reqs_ok_def)
      ultimately have "unat (tn_req_count t) < 65535" by (simp add: word_less_nat_alt)
      then have "unat (tn_req_count t + 1) = unat (tn_req_count t) + 1"
        by (subst unat_add_lem [THEN iffD1]) simp_all
      then show ?thesis using c(3) t(3) by (simp add: word_less_nat_alt)
    qed
    have "mgr_ok (m1\<lparr>mg_tunnels := (mg_tunnels m1)[i := Some t']\<rparr>, c)"
      using set_slot_ok [OF m1, of i t t'] t c(2) k(3) by simp
    then show ?thesis using small False a Some t c k(1,3) by (auto simp: mgr_request_created_def)
  qed
qed

lemma connect_all_ok:
  "(\<And>txt. url_ok txt) \<Longrightarrow> \<exists>eff. connect_all url_ok m ns = Inr eff \<and> connects eff = ns"
  by (induction ns) (auto simp: connect_def Let_def)

lemma connects_append: "connects (map Tun es) = []" "connects (xs @ ys) = connects xs @ connects ys"
  by (induction es) (simp_all, induction xs rule: connects.induct, simp_all)

lemma send_pings_to_ok:
  "tunnels_ok ts \<Longrightarrow> \<exists>ts' eff. send_pings_to alive now ts = Inr (ts', eff) \<and> tunnels_ok ts' \<and> length ts' = length ts
    \<and> (\<forall>i < length ts. (ts' ! i = None) = (ts ! i = None))"
proof (induction alive now ts rule: send_pings_to.induct)
  case (2 alive now ts)
  then obtain ts' eff where "send_pings_to alive now ts = Inr (ts', eff)" "tunnels_ok ts'" "length ts' = length ts"
    "\<forall>i < length ts. (ts' ! i = None) = (ts ! i = None)" by (auto simp: tunnels_ok_def)
  then show ?case by (auto simp: tunnels_ok_def nth_Cons split: nat.splits)
next
  case (3 alive now tun ts)
  have "tunnel_ok tun" "tunnels_ok ts" using "3.prems" by (simp_all add: tunnels_ok_def)
  obtain t' eff b where p: "send_ping alive now tun = Inr (t', eff, b)" "tunnel_ok t'"
    using send_ping_ok [OF \<open>tunnel_ok tun\<close>, of alive now] by auto
  obtain ts' eff2 where "send_pings_to alive now ts = Inr (ts', eff2)" "tunnels_ok ts'" "length ts' = length ts"
    "\<forall>i < length ts. (ts' ! i = None) = (ts ! i = None)"
    using "3.IH" [OF p(1) refl refl refl] \<open>tunnels_ok ts\<close> by blast
  then show ?case using p by (auto simp: tunnels_ok_def nth_Cons split: nat.splits)
qed (simp add: tunnels_ok_def)

lemma queue_count: "count (image_mset f (mset q)) j = count_list (map f q) j"
  by (metis count_mset mset_map)

lemma keepalive_ok:
  assumes ok: "mgr_ok (m, c)" and url: "\<And>txt. url_ok txt" and perm: "\<And>cmp xs. mset (sort_by cmp xs) = mset xs"
  shows "\<exists>m' eff. mgr_keepalive alive url_ok sort_by now m = Inr (m', eff) \<and> mgr_ok (m', c + mset (connects eff))
    \<and> (\<not> mg_discarded m \<longrightarrow> mg_reconnect_queue m' = [] \<and> connects eff = map unat (rev (mg_reconnect_queue m)))"
proof (cases "mg_discarded m")
  case True
  then show ?thesis using ok by (simp add: mgr_keepalive_def)
next
  case False
  have own: "owned m c" and shape: "mgr_shape m" using ok by (simp_all add: mgr_ok_def)
  define m1 where "m1 = sort_tunnels_by_busy sort_by m"
  have tok: "tunnels_ok (mg_tunnels m1)"
    using shape tunnels_ok_map [of reset_busy "mg_tunnels m"]
    by (simp add: m1_def sort_tunnels_by_busy_def mgr_shape_def reset_busy_def)
  obtain ts eff1 where p: "send_pings_to alive now (mg_tunnels m1) = Inr (ts, eff1)" "tunnels_ok ts"
    "length ts = length (mg_tunnels m1)" "\<forall>i < length ts. (ts ! i = None) = (mg_tunnels m1 ! i = None)"
    using send_pings_to_ok [OF tok, of alive now] by auto
  define m2 where "m2 = m1\<lparr>mg_tunnels := ts\<rparr>"
  obtain eff2 where e2: "connect_all url_ok m2 (map unat (rev (mg_reconnect_queue m2))) = Inr eff2"
    "connects eff2 = map unat (rev (mg_reconnect_queue m2))"
    using connect_all_ok [of url_ok m2 "map unat (rev (mg_reconnect_queue m2))"] url by blast
  define m3 where "m3 = m2\<lparr>mg_reconnect_queue := []\<rparr>"
  obtain m4 eff3 where r: "report_access_log alive m3 = (m4, eff3)" by fastforce
  have m4: "connects eff3 = []" "m4 = m3\<lparr>mg_access_log := mg_access_log m4\<rparr>"
    using r by (auto simp: report_access_log_def split: if_splits)
  have res: "mgr_keepalive alive url_ok sort_by now m = Inr (m4, map Tun eff1 @ eff2 @ eff3)"
  proof -
    have s: "send_pings alive now m1 = Inr (m2, eff1)" using p(1) by (simp add: send_pings_def m2_def)
    have q: "process_reconnect url_ok m2 = Inr (m3, eff2)" using e2(1) by (simp add: process_reconnect_def m3_def)
    show ?thesis using False unfolding mgr_keepalive_def Let_def m1_def [symmetric] s q and_then_simps prod.case r by simp
  qed
  have con: "connects (map Tun eff1 @ eff2 @ eff3) = map unat (rev (mg_reconnect_queue m))"
    using e2(2) m4(1) by (simp add: connects_append m2_def m1_def sort_tunnels_by_busy_def)
  have sh3: "mgr_shape m3"
    using shape p perm by (auto simp: m3_def m2_def m1_def sort_tunnels_by_busy_def mgr_shape_def)
  have "open_at m3 j = open_at m j" for j
    using p(3,4) by (auto simp: open_at_def m3_def m2_def m1_def sort_tunnels_by_busy_def)
  then have "owned m3 (c + mset (map unat (rev (mg_reconnect_queue m))))"
    using p(3) by (intro owned_transfer [OF own])
      (auto simp: owners_def m3_def m2_def m1_def sort_tunnels_by_busy_def queue_count)
  then have "mgr_ok (m3, c + mset (map unat (rev (mg_reconnect_queue m))))" using sh3 by (simp add: mgr_ok_def)
  moreover have "mgr_ok (m4, x) = mgr_ok (m3, x)" for x
    by (subst m4(2)) (simp add: mgr_ok_def mgr_shape_def owned_def owners_def open_at_def)
  moreover have "mg_reconnect_queue m4 = []" by (subst m4(2)) (simp add: m3_def)
  ultimately show ?thesis using res con by simp
qed

lemma tunnel_msg_ok:
  assumes ok: "mgr_ok (m, c)" and en: "mgr_enabled (m, c) (TunnelMsg now i msg)"
  shows "\<exists>m' eff. mgr_tunnel_msg alive now m i msg = Inr (m', eff) \<and> mgr_ok (m', c)"
proof -
  obtain t where t: "mg_tunnels m ! i = Some t" "i < length (mg_tunnels m)" "msg_acceptable now t (rm_buf msg)"
    using en by (auto simp: open_at_def)
  then have tok: "tunnel_ok t" using ok tunnels_ok_nth by (auto simp: mgr_ok_def mgr_shape_def)
  obtain t' eff where r: "on_tunnel_msg alive now t msg = Inr (t', eff)"
    using on_tunnel_msg_exact [OF tok] t(3) by (metis surj_pair)
  then have "tunnel_ok t'" using on_tunnel_msg_ok [OF tok] en by simp
  then show ?thesis using set_slot_ok [OF ok t(1,2)] r t(1) by (simp add: mgr_tunnel_msg_def)
qed

lemma request_closed_ok:
  assumes ok: "mgr_ok (m, c)" and en: "mgr_enabled (m, c) (ReqEnded ts)"
  shows "\<exists>m' eff. mgr_request_closed alive m ts = Inr (m', eff) \<and> mgr_ok (m', c)"
proof (cases "mg_tunnels m ! unat (ts_tun_idx ts)")
  case None
  then show ?thesis using en ok by (simp add: mgr_request_closed_def)
next
  case (Some t)
  have less: "unat (ts_tun_idx ts) < length (mg_tunnels m)" using en by simp
  then have tok: "tunnel_ok t" using ok Some tunnels_ok_nth by (auto simp: mgr_ok_def mgr_shape_def)
  obtain t' eff where "on_request_closed alive t ts = Inr (t', eff)" "tunnel_ok t'"
    using closed_ok [OF tok, of ts alive] en by auto
  then show ?thesis using set_slot_ok [OF ok Some less] less Some by (simp add: mgr_request_closed_def)
qed

lemma mgr_ok_cong:
  "mg_tunnels m' = mg_tunnels m \<Longrightarrow> mg_sorted_tun_indies m' = mg_sorted_tun_indies m \<Longrightarrow>
   mg_current_tun_idx m' = mg_current_tun_idx m \<Longrightarrow> mg_reconnect_queue m' = mg_reconnect_queue m \<Longrightarrow>
   mg_discarded m \<longrightarrow> mg_discarded m' \<Longrightarrow> mgr_ok (m, c) \<Longrightarrow> mgr_ok (m', c)"
  by (simp add: mgr_ok_def mgr_shape_def) (auto simp: owned_def owners_def open_at_def)

lemma udp_north_ok:
  assumes ok: "mgr_ok (m, c)" and ne: "mg_tunnels m \<noteq> []"
  shows "\<exists>m' eff. mgr_udp_proxy_north alive m msg src dst h = Inr (m', eff) \<and> mgr_ok (m', c)"
proof -
  obtain m' eff where "mgr_udp_proxy_north alive m msg src dst h = Inr (m', eff)"
    "m' = m \<or> m' = log_access m (sa_ip src) (sa_ip dst)"
    using ne by (cases "mg_tunnels m ! (h mod length (mg_tunnels m))")
      (simp_all add: mgr_udp_proxy_north_def north_message Let_def)
  moreover from this(2) have "mgr_ok (m', c)"
    using ok mgr_ok_cong [OF _ _ _ _ _ ok, of m'] by (auto simp: log_access_def)
  ultimately show ?thesis by blast
qed

lemma udpx_tx_ok:
  assumes ok: "mgr_ok (m, c)"
  shows "mgr_ok (mgr_set_udpx_tx m tx, c)"
proof -
  let ?m = "mgr_set_udpx_tx m tx"
  have "tunnels_ok (mg_tunnels ?m)"
    using ok tunnels_ok_map [of "\<lambda>t. set_udpx_tx t tx" "mg_tunnels m"]
    by (simp add: mgr_set_udpx_tx_def mgr_ok_def mgr_shape_def set_udpx_tx_def)
  moreover have "open_at ?m j = open_at m j" for j by (auto simp: open_at_def mgr_set_udpx_tx_def)
  then have "owned ?m c = owned m c" by (intro owned_cong) (simp_all add: mgr_set_udpx_tx_def)
  ultimately show ?thesis using ok by (auto simp: mgr_ok_def mgr_shape_def mgr_set_udpx_tx_def)
qed

lemma mgr_step_ok:
  assumes ok: "mgr_ok s" and en: "mgr_enabled s e"
    and url: "\<And>txt. url_ok txt" and perm: "\<And>cmp xs. mset (sort_by cmp xs) = mset xs"
  shows "\<exists>s'. mgr_step alive url_ok sort_by s e = Inr s' \<and> mgr_ok s'"
proof -
  obtain m c where s: "s = (m, c)" by fastforce
  note ok = ok [unfolded s] and en = en [unfolded s]
  show ?thesis
  proof (cases e)
    case (BuildFailed i)
    then show ?thesis using build_failed_ok [OF ok, of i] en by (simp add: s)
  next
    case (Built tun)
    then show ?thesis using built_ok [OF ok, of tun] en by (auto simp: s)
  next
    case (TunnelEnded i)
    then show ?thesis using ended_ok [OF ok, of i] en by (auto simp: s)
  next
    case (TunnelMsg now i msg)
    then show ?thesis using tunnel_msg_ok [OF ok en [unfolded TunnelMsg], of alive] by (auto simp: s)
  next
    case (ReqOpened req ip port)
    then show ?thesis using request_created_ok [OF ok, of alive req ip port] by (auto simp: s)
  next
    case (ReqEnded ts)
    then show ?thesis using request_closed_ok [OF ok en [unfolded ReqEnded], of alive] by (auto simp: s)
  next
    case (KeepAlive now)
    then show ?thesis using keepalive_ok [where url_ok = url_ok and sort_by = sort_by, OF ok url perm, of alive now]
      by (auto simp: s)
  next
    case Stop
    then show ?thesis using mgr_ok_cong [OF _ _ _ _ _ ok, of "fst (mgr_stop m)"] by (simp add: s mgr_stop_def)
  next
    case (UdpNorth msg src dst h)
    then show ?thesis using udp_north_ok [OF ok, of alive msg src dst h] en by (auto simp: s)
  next
    case (UdpxTx tx)
    then show ?thesis using udpx_tx_ok [OF ok, of tx] by (simp add: s)
  next
    case (NewConfig cfg)
    then show ?thesis using mgr_ok_cong [OF _ _ _ _ _ ok, of "update_tuncfg m cfg"] by (simp add: s update_tuncfg_def)
  next
    case (Accessed a b)
    then show ?thesis using mgr_ok_cong [OF _ _ _ _ _ ok, of "log_access m a b"] by (simp add: s log_access_def)
  qed
qed

text \<open>No operation changes the number of slots.\<close>

lemma scan_tunnels_frame: "scan_tunnels m ns = Inr (m', r) \<Longrightarrow> mg_tunnels m' = mg_tunnels m"
proof (induction ns)
  case (Cons n ns)
  obtain x where x: "vec_get (mg_sorted_tun_indies m) n = Inr x" using Cons.prems by (auto simp: and_then_Inr_iff)
  obtain t where t: "vec_get (mg_tunnels m) (unat x) = Inr t" using Cons.prems x by (auto simp: and_then_Inr_iff)
  show ?case using Cons x t by (cases t) (auto split: if_splits)
qed simp

lemma alloc_tunnel_frame: "alloc_tunnel_for_req m = Inr (m', r) \<Longrightarrow> mg_tunnels m' = mg_tunnels m"
  by (auto simp: alloc_tunnel_for_req_def and_then_Inr_iff Let_def split: option.splits dest!: scan_tunnels_frame)

lemma send_pings_length: "send_pings_to alive now ts = Inr (ts', eff) \<Longrightarrow> length ts' = length ts"
  by (induction alive now ts arbitrary: ts' eff rule: send_pings_to.induct) (auto simp: and_then_Inr_iff Let_def)

lemma on_tunnel_created_length:
  "on_tunnel_created m tun = Inr (m', b) \<Longrightarrow> length (mg_tunnels m') = length (mg_tunnels m)"
  by (auto simp: on_tunnel_created_def and_then_Inr_iff Let_def split: if_splits)

lemma on_tunnel_closed_length:
  "on_tunnel_closed m i = Inr (m', t) \<Longrightarrow> length (mg_tunnels m') = length (mg_tunnels m)"
  by (cases "i < length (mg_tunnels m)"; cases "mg_tunnels m ! i")
     (auto simp: on_tunnel_closed_def on_tunnel_closed_interal_def vec_get_def Let_def split: if_splits)

lemma mgr_request_created_length:
  assumes "mgr_request_created alive m req ip port = Inr (m', eff, ts)"
  shows "length (mg_tunnels m') = length (mg_tunnels m)"
proof (cases "mg_discarded m")
  case False
  then obtain m1 r where a: "alloc_tunnel_for_req m = Inr (m1, r)"
    using assms by (auto simp: mgr_request_created_def and_then_Inr_iff)
  then show ?thesis using assms False alloc_tunnel_frame [OF a]
    by (cases r) (auto simp: mgr_request_created_def and_then_Inr_iff)
qed (use assms in \<open>simp add: mgr_request_created_def\<close>)

lemma mgr_request_closed_length:
  "mgr_request_closed alive m ts = Inr (m', eff) \<Longrightarrow> length (mg_tunnels m') = length (mg_tunnels m)"
  by (cases "unat (ts_tun_idx ts) < length (mg_tunnels m)"; cases "mg_tunnels m ! unat (ts_tun_idx ts)")
     (auto simp: mgr_request_closed_def and_then_Inr_iff vec_get_def Let_def)

lemma mgr_tunnel_msg_length:
  "mgr_tunnel_msg alive now m i msg = Inr (m', eff) \<Longrightarrow> length (mg_tunnels m') = length (mg_tunnels m)"
  by (cases "mg_tunnels m ! i") (auto simp: mgr_tunnel_msg_def and_then_Inr_iff)

lemma mgr_keepalive_length:
  "mgr_keepalive alive url_ok sort_by now m = Inr (m', eff) \<Longrightarrow> length (mg_tunnels m') = length (mg_tunnels m)"
  by (cases "mg_discarded m")
     (auto simp: mgr_keepalive_def send_pings_def process_reconnect_def report_access_log_def
       sort_tunnels_by_busy_def and_then_Inr_iff Let_def split: if_splits dest!: send_pings_length)

lemma mgr_udp_proxy_north_length:
  "mgr_udp_proxy_north alive m msg src dst h = Inr (m', eff) \<Longrightarrow> length (mg_tunnels m') = length (mg_tunnels m)"
  by (cases "mg_tunnels m ! (h mod length (mg_tunnels m))")
     (auto simp: mgr_udp_proxy_north_def and_then_Inr_iff log_access_def Let_def split: if_splits)

lemmas mgr_lengths = on_tunnel_created_length on_tunnel_closed_length mgr_request_created_length
  mgr_request_closed_length mgr_tunnel_msg_length mgr_keepalive_length mgr_udp_proxy_north_length

lemma mgr_step_length:
  assumes "mgr_step alive url_ok sort_by s e = Inr s'"
  shows "length (mg_tunnels (fst s')) = length (mg_tunnels (fst s))"
  using assms
  by (cases s; cases e)
    (auto simp: and_then_Inr_iff on_tunnel_build_error_def mgr_stop_def mgr_set_udpx_tx_def update_tuncfg_def
      log_access_def split: if_splits dest!: mgr_lengths)

lemma mgr_init_ok:
  assumes "n < 2 ^ 16"
  shows "mgr_ok (tun_mgr_new tx n cfg, mset [0..<n])"
proof -
  let ?m = "tun_mgr_new tx n cfg"
  have "map (unat \<circ> (word_of_nat :: nat \<Rightarrow> u16)) [0..<n] = [0..<n]"
    using assms by (intro map_idI) (auto intro!: unat_index)
  then have "mset (map unat (mg_sorted_tun_indies ?m)) = mset [0..<n]"
    by (simp add: tun_mgr_new_def flip: map_map del: map_map)
  moreover have "owners ?m (mset [0..<n]) i = (if i < n then 1 else 0)" for i
    using distinct_count_atmost_1 [of "[0..<n]"]
    by (simp add: owners_def open_at_def tun_mgr_new_def del: mset_upt)
  ultimately show ?thesis using assms
    by (auto simp: mgr_ok_def mgr_shape_def owned_def tunnels_ok_def tun_mgr_new_def)
qed

section \<open>Properties\<close>

text \<open>The histories of a manager from its initialisation, when every index is being dialled.\<close>

inductive mgr_reaches ::
  "(chan \<Rightarrow> bool) \<Rightarrow> (str \<Rightarrow> bool) \<Rightarrow> sorter \<Rightarrow> mgr_state \<Rightarrow> mgr_state \<Rightarrow> bool"
  for alive url_ok sort_by s0 where
  init: "mgr_reaches alive url_ok sort_by s0 s0"
| event: "mgr_reaches alive url_ok sort_by s0 s \<Longrightarrow> mgr_enabled s e \<Longrightarrow>
    mgr_step alive url_ok sort_by s e = Inr s' \<Longrightarrow> mgr_reaches alive url_ok sort_by s0 s'"

inductive_cases mgr_reachesE: "mgr_reaches alive url_ok sort_by s0 s"

lemma mgr_reaches_ok:
  assumes "mgr_reaches alive url_ok sort_by s0 s" "mgr_ok s0"
    and "\<And>txt. url_ok txt" "\<And>cmp xs. mset (sort_by cmp xs) = mset xs"
  shows "mgr_ok s \<and> length (mg_tunnels (fst s)) = length (mg_tunnels (fst s0))"
  using assms
proof (induction rule: mgr_reaches.induct)
  case (event s e s')
  then obtain s1 where "mgr_step alive url_ok sort_by s e = Inr s1" "mgr_ok s1"
    using mgr_step_ok [where url_ok = url_ok and sort_by = sort_by and s = s and e = e] by blast
  then show ?case using event mgr_step_length by fastforce
qed simp

text \<open>
  Whatever the order in which tunnels are built, fail, end, carry messages and requests and are
  kept alive, the manager never panics (in particular never finds a tunnel in a slot it fills), and at
  every moment each tunnel index has exactly one owner: an open tunnel, the reconnect queue, or a
  builder at work. None is lost and none is dialled twice; once discarded, none is dialled again.
\<close>

theorem every_index_owned_once:
  assumes "n < 2 ^ 16" "\<And>txt. url_ok txt" "\<And>cmp xs. mset (sort_by cmp xs) = mset xs"
    "mgr_reaches alive url_ok sort_by (tun_mgr_new tx n cfg, mset [0..<n]) (m, c)" "mgr_enabled (m, c) e"
  shows "(\<exists>s'. mgr_step alive url_ok sort_by (m, c) e = Inr s') \<and>
    (\<forall>i. owners m c i \<le> (if i < n then 1 else 0)) \<and>
    (mg_discarded m \<or> (\<forall>i < n. owners m c i = 1))"
proof -
  have init: "mgr_ok (tun_mgr_new tx n cfg, mset [0..<n])" by (rule mgr_init_ok [OF assms(1)])
  have ok: "mgr_ok (m, c)" and len: "length (mg_tunnels m) = n"
    using mgr_reaches_ok [OF assms(4) init assms(2,3)] by (simp_all add: tun_mgr_new_def)
  then have "owned m c" by (simp add: mgr_ok_def)
  then show ?thesis
    using mgr_step_ok [where alive = alive and url_ok = url_ok and sort_by = sort_by, OF ok assms(5,2,3)] len
    unfolding owned_def by blast
qed

lemma every_index_owned_once_witness:
  "(\<exists>s'. mgr_step (\<lambda>_. True) (\<lambda>_. True) (\<lambda>_ xs. xs)
      (on_tunnel_build_error (tun_mgr_new 0 2 sample_cfg) 1, mset [0..<2] - {#1#}) (KeepAlive 9) = Inr s') \<and>
    (\<forall>i. owners (on_tunnel_build_error (tun_mgr_new 0 2 sample_cfg) 1) (mset [0..<2] - {#1#}) i \<le> (if i < 2 then 1 else 0)) \<and>
    (mg_discarded (on_tunnel_build_error (tun_mgr_new 0 2 sample_cfg) 1) \<or>
     (\<forall>i < 2. owners (on_tunnel_build_error (tun_mgr_new 0 2 sample_cfg) 1) (mset [0..<2] - {#1#}) i = 1))"
proof (rule every_index_owned_once [where tx = 0 and cfg = sample_cfg])
  show "mgr_reaches (\<lambda>_. True) (\<lambda>_. True) (\<lambda>_ xs. xs) (tun_mgr_new 0 2 sample_cfg, mset [0..<2])
      (on_tunnel_build_error (tun_mgr_new 0 2 sample_cfg) 1, mset [0..<2] - {#1#})"
    by (rule mgr_reaches.event [OF mgr_reaches.init, of _ "BuildFailed 1"]) (simp_all del: mset_upt)
qed simp_all

text \<open>
  A new request never panics, is only given to a tunnel with room, and is given to one whenever
  any open tunnel has room, wherever the round-robin cursor stands and however the tunnels are sorted
  (for capacities below 65535, where the test for a full tunnel does not wrap).
\<close>

theorem request_admission:
  assumes "mgr_ok (m, c)"
  shows "\<exists>m' eff ts. mgr_request_created alive m req ip port = Inr (m', eff, ts) \<and>
    (ts \<noteq> None \<longrightarrow> \<not> mg_discarded m \<and> (\<exists>i. has_room m i)) \<and>
    (\<not> mg_discarded m \<and> (\<exists>i. has_room m i) \<and> small_tunnels m \<longrightarrow> ts \<noteq> None)"
  using request_created_ok [OF assms] by blast

lemma request_admission_witness:
  "\<exists>m' eff ts. mgr_request_created (\<lambda>_. True) (tun_mgr_new 0 3 sample_cfg) (request_with 1 2) (V4 (Ipv4Addr 1 2 3 4)) 80 = Inr (m', eff, ts) \<and>
    (ts \<noteq> None \<longrightarrow> \<not> mg_discarded (tun_mgr_new 0 3 sample_cfg) \<and> (\<exists>i. has_room (tun_mgr_new 0 3 sample_cfg) i)) \<and>
    (\<not> mg_discarded (tun_mgr_new 0 3 sample_cfg) \<and> (\<exists>i. has_room (tun_mgr_new 0 3 sample_cfg) i) \<and>
      small_tunnels (tun_mgr_new 0 3 sample_cfg) \<longrightarrow> ts \<noteq> None)"
  by (rule request_admission [OF mgr_init_ok]) simp

text \<open>
  A keep-alive round redials every index of the reconnect queue exactly once, last queued first,
  and leaves the queue empty.
\<close>

theorem keepalive_redials:
  assumes "mgr_ok (m, c)" "\<And>txt. url_ok txt" "\<And>cmp xs. mset (sort_by cmp xs) = mset xs" "\<not> mg_discarded m"
  shows "\<exists>m' eff. mgr_keepalive alive url_ok sort_by now m = Inr (m', eff) \<and> mg_reconnect_queue m' = [] \<and>
    connects eff = map unat (rev (mg_reconnect_queue m))"
  using keepalive_ok [where url_ok = url_ok and sort_by = sort_by, OF assms(1-3)] assms(4) by blast

lemma keepalive_redials_witness:
  "\<exists>m' eff. mgr_keepalive (\<lambda>_. True) (\<lambda>_. True) (\<lambda>_ xs. xs) 5 (tun_mgr_new 0 2 sample_cfg) = Inr (m', eff) \<and>
    mg_reconnect_queue m' = [] \<and> connects eff = map unat (rev (mg_reconnect_queue (tun_mgr_new 0 2 sample_cfg)))"
  by (rule keepalive_redials [OF mgr_init_ok]) (simp_all add: tun_mgr_new_def)

end
