(* ===== verification/Ledger.thy ===== *)
theory Ledger imports Prelude "HOL-Library.Multiset" begin

text \<open>
  The abstract specification of a pool of tunnels that redials: every index is in one phase, and a
  program that keeps a table of open tunnels, a queue of indices to redial and builders at work refines
  it. \<^verbatim>\<open>src/tunnels/tunmgr.rs\<close>, \<^verbatim>\<open>src/dns/forwarder.rs\<close> and \<^verbatim>\<open>src/xport/xtunnel.rs\<close> each are such a
  program; their theories interpret the locale.
\<close>

section \<open>The specification\<close>

datatype phase = Gone | Dialling | Up | Waiting

record ledger =
  lg_phase :: "nat \<Rightarrow> phase"
  lg_stopped :: bool

datatype ledger_event = LBuilt nat | LFailed nat | LEnded nat | LTick | LStop | LOther

text \<open>What a lost index becomes: it waits to be dialled, until the pool is stopped.\<close>

definition lost :: "ledger \<Rightarrow> phase" where
  "lost L = (if lg_stopped L then Gone else Waiting)"

fun ledger_step :: "ledger \<Rightarrow> ledger_event \<Rightarrow> ledger" where
  "ledger_step L (LBuilt i) = L\<lparr>lg_phase := (lg_phase L)(i := if lg_stopped L then Gone else Up)\<rparr>"
| "ledger_step L (LFailed i) = L\<lparr>lg_phase := (lg_phase L)(i := lost L)\<rparr>"
| "ledger_step L (LEnded i) = L\<lparr>lg_phase := (lg_phase L)(i := lost L)\<rparr>"
| "ledger_step L LTick = L\<lparr>lg_phase := (\<lambda>p. if p = Waiting then Dialling else p) \<circ> lg_phase L\<rparr>"
| "ledger_step L LStop = \<lparr>lg_phase = (\<lambda>p. if p = Waiting then Gone else p) \<circ> lg_phase L, lg_stopped = True\<rparr>"
| "ledger_step L LOther = L"

definition ledger_new :: "nat \<Rightarrow> ledger" where
  "ledger_new n = \<lparr>lg_phase = (\<lambda>i. if i < n then Dialling else Gone), lg_stopped = False\<rparr>"

text \<open>No index is lost while the pool runs, whatever happens.\<close>

lemma ledger_complete:
  "\<not> lg_stopped L \<Longrightarrow> lg_phase L i \<noteq> Gone \<Longrightarrow> e \<noteq> LStop \<Longrightarrow> lg_phase (ledger_step L e) i \<noteq> Gone"
  by (cases e) (auto simp: lost_def)

lemma ledger_stopped: "lg_stopped (ledger_step L e) \<longleftrightarrow> lg_stopped L \<or> e = LStop"
  by (cases e) auto

lemma ledger_stopped_dials_nothing:
  "lg_stopped L \<Longrightarrow> (\<And>i. lg_phase L i \<noteq> Waiting) \<Longrightarrow> lg_phase (ledger_step L e) i = Dialling \<Longrightarrow> lg_phase L i = Dialling"
  by (cases e) (auto simp: lost_def split: if_splits)

section \<open>What refines it\<close>

text \<open>A state, seen through its table, queue, builders and stop flag, is in the phases of a ledger. After a
  stop the queue no longer counts: nothing serves it.\<close>

definition represents ::
  "('s \<Rightarrow> nat \<Rightarrow> bool) \<Rightarrow> ('s \<Rightarrow> nat list) \<Rightarrow> ('s \<Rightarrow> nat multiset) \<Rightarrow> ('s \<Rightarrow> bool) \<Rightarrow> 's \<Rightarrow> ledger \<Rightarrow> bool" where
  "represents opens queue dialling stopped s L \<longleftrightarrow> (lg_stopped L \<longleftrightarrow> stopped s) \<and> (\<forall>i. opens s i \<longleftrightarrow> lg_phase L i = Up)
     \<and> (\<forall>i. count (dialling s) i = (if lg_phase L i = Dialling then 1 else 0))
     \<and> (if stopped s then \<forall>i. lg_phase L i \<noteq> Waiting
        else \<forall>i. count_list (queue s) i = (if lg_phase L i = Waiting then 1 else 0))"

text \<open>Runs: every event possible when it happens, and no step panics.\<close>

inductive runs :: "('s \<Rightarrow> 'e \<Rightarrow> bool) \<Rightarrow> ('s \<Rightarrow> 'e \<Rightarrow> 's res) \<Rightarrow> 's \<Rightarrow> 'e list \<Rightarrow> 's \<Rightarrow> bool"
  for enabled step s0 where
  runs_start: "runs enabled step s0 [] s0"
| runs_more: "runs enabled step s0 es s \<Longrightarrow> enabled s e \<Longrightarrow> step s e = Inr s' \<Longrightarrow> runs enabled step s0 (es @ [e]) s'"

lemma runs_two:
  assumes "enabled s e" "step s e = Inr s1" "enabled s1 e2" "step s1 e2 = Inr s2"
  shows "runs enabled step s [e, e2] s2"
proof -
  have "runs enabled step s ([] @ [e]) s1" using runs_start assms(1,2) by (rule runs_more)
  from runs_more [OF this assms(3,4)] show ?thesis by simp
qed

locale redialling =
  fixes opens :: "'s \<Rightarrow> nat \<Rightarrow> bool"
    and queue :: "'s \<Rightarrow> nat list"
    and dialling :: "'s \<Rightarrow> nat multiset"
    and stopped :: "'s \<Rightarrow> bool"
    and ok :: "'s \<Rightarrow> bool"
    and enabled :: "'s \<Rightarrow> 'e \<Rightarrow> bool"
    and step :: "'s \<Rightarrow> 'e \<Rightarrow> 's res"
    and kind :: "'e \<Rightarrow> ledger_event"
  assumes keeps_ok: "ok s \<Longrightarrow> enabled s e \<Longrightarrow> step s e = Inr s' \<Longrightarrow> ok s'"
    and built: "ok s \<Longrightarrow> enabled s e \<Longrightarrow> step s e = Inr s' \<Longrightarrow> kind e = LBuilt i \<Longrightarrow>
      i \<in># dialling s \<and> opens s' = (if stopped s then opens s else (opens s)(i := True)) \<and> queue s' = queue s
      \<and> dialling s' = dialling s - {#i#} \<and> stopped s' = stopped s"
    and failed: "ok s \<Longrightarrow> enabled s e \<Longrightarrow> step s e = Inr s' \<Longrightarrow> kind e = LFailed i \<Longrightarrow>
      i \<in># dialling s \<and> opens s' = opens s \<and> (\<not> stopped s \<longrightarrow> queue s' = queue s @ [i])
      \<and> dialling s' = dialling s - {#i#} \<and> stopped s' = stopped s"
    and ended: "ok s \<Longrightarrow> enabled s e \<Longrightarrow> step s e = Inr s' \<Longrightarrow> kind e = LEnded i \<Longrightarrow>
      opens s i \<and> opens s' = (opens s)(i := False) \<and> (\<not> stopped s \<longrightarrow> queue s' = queue s @ [i])
      \<and> dialling s' = dialling s \<and> stopped s' = stopped s"
    and tick: "ok s \<Longrightarrow> enabled s e \<Longrightarrow> step s e = Inr s' \<Longrightarrow> kind e = LTick \<Longrightarrow>
      opens s' = opens s \<and> (\<not> stopped s \<longrightarrow> queue s' = [])
      \<and> dialling s' = dialling s + (if stopped s then {#} else mset (queue s)) \<and> stopped s' = stopped s"
    and stop: "ok s \<Longrightarrow> enabled s e \<Longrightarrow> step s e = Inr s' \<Longrightarrow> kind e = LStop \<Longrightarrow>
      opens s' = opens s \<and> dialling s' = dialling s \<and> stopped s'"
    and other: "ok s \<Longrightarrow> enabled s e \<Longrightarrow> step s e = Inr s' \<Longrightarrow> kind e = LOther \<Longrightarrow>
      opens s' = opens s \<and> queue s' = queue s \<and> dialling s' = dialling s \<and> stopped s' = stopped s"
begin

lemma dialling_phase:
  "represents opens queue dialling stopped s L \<Longrightarrow> i \<in># dialling s \<Longrightarrow> lg_phase L i = Dialling"
  by (auto simp: represents_def simp flip: count_greater_zero_iff split: if_splits)

theorem refines:
  assumes "ok s" "enabled s e" "step s e = Inr s'" "represents opens queue dialling stopped s L"
  shows "represents opens queue dialling stopped s' (ledger_step L (kind e))"
proof (cases "kind e")
  case (LBuilt i)
  note b = built [OF assms(1-3) LBuilt]
  then have "lg_phase L i = Dialling" using dialling_phase assms(4) by blast
  then show ?thesis using b assms(4) LBuilt by (auto simp: represents_def)
next
  case (LFailed i)
  note b = failed [OF assms(1-3) LFailed]
  then have "lg_phase L i = Dialling" using dialling_phase assms(4) by blast
  then show ?thesis using b assms(4) LFailed by (auto simp: represents_def lost_def)
next
  case (LEnded i)
  note b = ended [OF assms(1-3) LEnded]
  then have "lg_phase L i = Up" using assms(4) by (simp add: represents_def)
  then show ?thesis using b assms(4) LEnded by (auto simp: represents_def lost_def)
next
  case LTick
  then show ?thesis using tick [OF assms(1-3) LTick] assms(4) by (auto simp: represents_def count_mset)
next
  case LStop
  then show ?thesis using stop [OF assms(1-3) LStop] assms(4) by (auto simp: represents_def)
next
  case LOther
  then show ?thesis using other [OF assms(1-3) LOther] assms(4) by (simp add: represents_def)
qed

lemma runs_ok: "runs enabled step s0 es s \<Longrightarrow> ok s0 \<Longrightarrow> ok s"
  by (induction rule: runs.induct) (auto intro: keeps_ok)

theorem runs_refine:
  "runs enabled step s0 es s \<Longrightarrow> ok s0 \<Longrightarrow> represents opens queue dialling stopped s0 L \<Longrightarrow> represents opens queue dialling stopped s (foldl ledger_step L (map kind es))"
proof (induction rule: runs.induct)
  case (runs_more es s e s')
  have "ok s" using runs_ok runs_more.hyps(1) runs_more.prems(1) .
  from refines [OF this runs_more.hyps(2,3) runs_more.IH [OF runs_more.prems]] show ?case by simp
qed simp

end

end
