(* ===== verification/Tun_Mgr_Run.thy ===== *)
theory Tun_Mgr_Run imports Tun_Mgr Ledger begin

text \<open>
  The manager of \<^verbatim>\<open>src/tunnels/tunmgr.rs\<close> with the builders of \<^verbatim>\<open>src/tunnels/tunbuilder.rs\<close> refines the
  ledger of a redialling pool.
\<close>

definition mgr_opens :: "mgr_state \<Rightarrow> nat \<Rightarrow> bool" where
  "mgr_opens s = open_at (fst s)"

definition mgr_queue :: "mgr_state \<Rightarrow> nat list" where
  "mgr_queue s = map unat (mg_reconnect_queue (fst s))"

definition mgr_stopped :: "mgr_state \<Rightarrow> bool" where
  "mgr_stopped s = mg_discarded (fst s)"

fun mgr_kind :: "mgr_event \<Rightarrow> ledger_event" where
  "mgr_kind (Built tun) = LBuilt (tn_index tun)"
| "mgr_kind (BuildFailed i) = LFailed i"
| "mgr_kind (TunnelEnded i) = LEnded i"
| "mgr_kind (KeepAlive now) = LTick"
| "mgr_kind Stop = LStop"
| "mgr_kind _ = LOther"

text \<open>The invariant, with what is assumed of the \<^verbatim>\<open>url\<close> crate and of \<^verbatim>\<open>sort_by\<close>.\<close>

definition mgr_good :: "(str \<Rightarrow> bool) \<Rightarrow> sorter \<Rightarrow> mgr_state \<Rightarrow> bool" where
  "mgr_good url_ok sort_by s \<longleftrightarrow> mgr_ok s \<and> (\<forall>txt. url_ok txt) \<and> (\<forall>cmp xs. mset (sort_by cmp xs) = mset xs)"

section \<open>Slots\<close>

definition slots :: "tun_mgr \<Rightarrow> bool list" where
  "slots m = map (\<lambda>x. x = None) (mg_tunnels m)"

lemma open_at_slots: "open_at m i \<longleftrightarrow> i < length (slots m) \<and> \<not> slots m ! i"
  by (auto simp: open_at_def slots_def)

lemma slots_eq_open: "slots m' = slots m \<Longrightarrow> open_at m' = open_at m"
  by (auto simp: fun_eq_iff open_at_slots)

lemma slots_refill:
  "mg_tunnels m ! i = Some t \<Longrightarrow> slots (m\<lparr>mg_tunnels := (mg_tunnels m)[i := Some t']\<rparr>) = slots m"
  by (cases "i < length (mg_tunnels m)") (auto simp: slots_def map_update list_update_same_conv list_update_beyond)

definition same_pool :: "tun_mgr \<Rightarrow> tun_mgr \<Rightarrow> bool" where
  "same_pool m m' \<longleftrightarrow> slots m' = slots m \<and> mg_reconnect_queue m' = mg_reconnect_queue m \<and> mg_discarded m' = mg_discarded m"

lemma same_pool_refl [simp]: "same_pool m m"
  by (simp add: same_pool_def)

lemma same_pool_refill:
  "mg_tunnels m ! i = Some t \<Longrightarrow> same_pool m (m\<lparr>mg_tunnels := (mg_tunnels m)[i := Some t']\<rparr>)"
  by (simp add: same_pool_def slots_refill)

lemma scan_same: "scan_tunnels m ns = Inr (m', r) \<Longrightarrow> \<exists>k. m' = m\<lparr>mg_current_tun_idx := k\<rparr>"
proof (induction ns)
  case Nil
  then show ?case by (auto intro!: exI [of _ "mg_current_tun_idx m"])
next
  case (Cons n ns)
  obtain x where x: "vec_get (mg_sorted_tun_indies m) n = Inr x" using Cons.prems by (auto simp: and_then_Inr_iff)
  obtain t where t: "vec_get (mg_tunnels m) (unat x) = Inr t" using Cons.prems x by (auto simp: and_then_Inr_iff)
  show ?case using Cons x t by (cases t) (auto split: if_splits)
qed

lemma alloc_same:
  assumes "alloc_tunnel_for_req m = Inr (m', r)"
  shows "\<exists>k. m' = m\<lparr>mg_current_tun_idx := k\<rparr>"
proof -
  obtain m1 r1 where s: "scan_tunnels m [unat (mg_current_tun_idx m)..<length (mg_sorted_tun_indies m)] = Inr (m1, r1)"
    "(case r1 of Some i \<Rightarrow> Inr (m1, Some i) | None \<Rightarrow> scan_tunnels m1 [0..<unat (mg_current_tun_idx m)]) = Inr (m', r)"
    using assms by (auto simp: alloc_tunnel_for_req_def Let_def and_then_Inr_iff)
  then show ?thesis using scan_same [OF s(1)] scan_same by (cases r1) fastforce+
qed

lemma same_pool_created:
  assumes "mgr_request_created alive m req ip port = Inr (m', eff, ts)"
  shows "same_pool m m'"
proof (cases "mg_discarded m")
  case True
  then show ?thesis using assms by (simp add: mgr_request_created_def same_pool_def)
next
  case False
  obtain m1 r where a: "alloc_tunnel_for_req m = Inr (m1, r)"
    using assms False by (auto simp: mgr_request_created_def and_then_Inr_iff)
  then obtain k where k: "m1 = m\<lparr>mg_current_tun_idx := k\<rparr>" using alloc_same by blast
  then have one: "same_pool m m1" by (simp add: same_pool_def slots_def)
  show ?thesis
  proof (cases r)
    case None
    then show ?thesis using assms False a one by (simp add: mgr_request_created_def)
  next
    case (Some i)
    obtain t t' where "mg_tunnels m1 ! i = Some t" "m' = m1\<lparr>mg_tunnels := (mg_tunnels m1)[i := Some t']\<rparr>"
      using assms False a Some
      by (auto simp: mgr_request_created_def and_then_Inr_iff vec_get_def unwrap_def split: if_splits option.splits)
    then show ?thesis using same_pool_refill [of m1 i t t'] one by (simp add: same_pool_def)
  qed
qed

lemma same_pool_closed:
  "mgr_request_closed alive m ts = Inr (m', eff) \<Longrightarrow> same_pool m m'"
  by (auto simp: mgr_request_closed_def and_then_Inr_iff vec_get_def same_pool_refill Let_def
      split: if_splits option.splits)

lemma same_pool_msg: "mgr_tunnel_msg alive now m i msg = Inr (m', eff) \<Longrightarrow> same_pool m m'"
  by (auto simp: mgr_tunnel_msg_def and_then_Inr_iff same_pool_refill split: option.splits)

lemma same_pool_north: "mgr_udp_proxy_north alive m msg src dst h = Inr (m', eff) \<Longrightarrow> same_pool m m'"
  by (auto simp: mgr_udp_proxy_north_def and_then_Inr_iff log_access_def same_pool_def slots_def Let_def
      split: if_splits option.splits)

lemma same_pool_other:
  assumes "mgr_step alive url_ok sort_by (m, c) e = Inr (m', c')" "mgr_kind e = LOther"
  shows "same_pool m m' \<and> c' = c"
  using assms
  by (cases e) (auto simp: and_then_Inr_iff mgr_set_udpx_tx_def update_tuncfg_def log_access_def same_pool_def slots_def
      dest!: same_pool_created [unfolded same_pool_def slots_def] same_pool_closed [unfolded same_pool_def slots_def]
        same_pool_msg [unfolded same_pool_def slots_def] same_pool_north [unfolded same_pool_def slots_def])

section \<open>The manager redials\<close>

lemma keepalive_slots:
  assumes "mgr_ok (m, c)" "\<And>txt. url_ok txt" "mgr_keepalive alive url_ok sort_by now m = Inr (m', eff)"
  shows "slots m' = slots m \<and> mg_discarded m' = mg_discarded m"
proof (cases "mg_discarded m")
  case True
  then show ?thesis using assms(3) by (simp add: mgr_keepalive_def)
next
  case False
  define m1 where "m1 = sort_tunnels_by_busy sort_by m"
  have "tunnels_ok (mg_tunnels m1)" using assms(1) tunnels_ok_map [of reset_busy "mg_tunnels m"]
    by (simp add: m1_def sort_tunnels_by_busy_def mgr_ok_def mgr_shape_def reset_busy_def)
  then obtain ts eff1 where p: "send_pings_to alive now (mg_tunnels m1) = Inr (ts, eff1)"
    "length ts = length (mg_tunnels m1)" "\<forall>i < length ts. (ts ! i = None) = (mg_tunnels m1 ! i = None)"
    using send_pings_to_ok [of "mg_tunnels m1" alive now] by auto
  have s: "send_pings alive now m1 = Inr (m1\<lparr>mg_tunnels := ts\<rparr>, eff1)" using p(1) by (simp add: send_pings_def)
  have "map (\<lambda>x. x = None) ts = map (\<lambda>x. x = None) (mg_tunnels m1)"
    using p(2,3) by (simp add: list_eq_iff_nth_eq)
  moreover have "mg_tunnels m' = ts" "mg_discarded m' = mg_discarded m"
    using assms(3) False unfolding mgr_keepalive_def Let_def m1_def [symmetric] s and_then_simps split
    by (auto simp: process_reconnect_def report_access_log_def and_then_Inr_iff m1_def sort_tunnels_by_busy_def
        split: if_splits)
  ultimately show ?thesis by (simp add: slots_def m1_def sort_tunnels_by_busy_def comp_def)
qed

interpretation mgrp: redialling mgr_opens mgr_queue snd mgr_stopped "mgr_good url_ok sort_by" mgr_enabled
  "mgr_step alive url_ok sort_by" mgr_kind for alive url_ok sort_by
proof (unfold_locales, goal_cases)
  case (1 s e s')
  then show ?case
    using mgr_step_ok [where s = s and e = e and alive = alive and url_ok = url_ok and sort_by = sort_by]
    by (auto simp: mgr_good_def)
next
  case (2 s e s' i)
  obtain m c tun where s: "s = (m, c)" "e = Built tun" "tn_index tun = i" using 2(4) by (cases s; cases e) auto
  then show ?case using 2(2,3)
    by (auto simp: mgr_opens_def mgr_queue_def mgr_stopped_def on_tunnel_created_def and_then_Inr_iff vec_get_def Let_def fun_eq_iff
        open_at_def nth_list_update split: if_splits)
next
  case (3 s e s' i)
  obtain m c where s: "s = (m, c)" "e = BuildFailed i" using 3(4) by (cases s; cases e) auto
  have "owned m c" "mgr_shape m" "i \<in># c" using 3(1,2) s by (simp_all add: mgr_good_def mgr_ok_def)
  moreover have "i < length (mg_tunnels m)" using calculation by (intro owned_less) (auto simp: owners_def)
  ultimately have "unat (word_of_nat i :: u16) = i" by (intro unat_index) (simp add: mgr_shape_def)
  then show ?case using 3(2,3) s
    by (auto simp: mgr_opens_def mgr_queue_def mgr_stopped_def on_tunnel_build_error_def open_at_def fun_eq_iff
        split: if_splits)
next
  case (4 s e s' i)
  obtain m c where s: "s = (m, c)" "e = TunnelEnded i" using 4(4) by (cases s; cases e) auto
  have o: "open_at m i" "mgr_shape m" using 4(1,2) s by (simp_all add: mgr_good_def mgr_ok_def)
  then have "unat (word_of_nat i :: u16) = i" by (intro unat_index) (simp add: open_at_def mgr_shape_def)
  then show ?case using 4(2,3) s o
    by (auto simp: mgr_opens_def mgr_queue_def mgr_stopped_def on_tunnel_closed_def on_tunnel_closed_interal_def
        open_at_def fun_eq_iff nth_list_update Let_def split: if_splits)
next
  case (5 s e s')
  obtain m c now where s: "s = (m, c)" "e = KeepAlive now" using 5(4) by (cases s; cases e) auto
  obtain m' eff where k: "mgr_keepalive alive url_ok sort_by now m = Inr (m', eff)" "s' = (m', c + mset (connects eff))"
    using 5(3) s by (auto simp: and_then_Inr_iff)
  have g: "mgr_ok (m, c)" "\<And>txt. url_ok txt" "\<And>cmp xs. mset (sort_by cmp xs) = mset xs"
    using 5(1) s by (simp_all add: mgr_good_def)
  have sl: "slots m' = slots m" "mg_discarded m' = mg_discarded m" using keepalive_slots [OF g(1,2) k(1)] by auto
  have q: "mg_reconnect_queue m' = [] \<and> connects eff = map unat (rev (mg_reconnect_queue m))" if "\<not> mg_discarded m"
    using keepalive_ok [where alive = alive and url_ok = url_ok and sort_by = sort_by and now = now, OF g] that k(1) by auto
  have d: "eff = []" if "mg_discarded m" using k(1) that by (simp add: mgr_keepalive_def)
  show ?case using k(2) s slots_eq_open [OF sl(1)] sl(2) q d
    by (cases "mg_discarded m") (simp_all add: mgr_opens_def mgr_queue_def mgr_stopped_def)
next
  case (6 s e s')
  obtain m c where s: "s = (m, c)" "e = Stop" using 6(4) by (cases s; cases e) auto
  then show ?case using 6(3) by (auto simp: mgr_opens_def mgr_stopped_def mgr_stop_def open_at_def fun_eq_iff split: if_splits)
next
  case (7 s e s')
  obtain m c m' c' where s: "s = (m, c)" "s' = (m', c')" by (cases s; cases s') auto
  have "same_pool m m'" "c' = c" using same_pool_other [OF 7(3) [unfolded s] 7(4)] by auto
  then show ?case using slots_eq_open [of m' m] unfolding s same_pool_def mgr_opens_def mgr_queue_def mgr_stopped_def by simp
qed

section \<open>Properties\<close>



end
