(* ===== verification/Dns_Packet.thy ===== *)
theory Dns_Packet imports Dns_Buffer Net_Addr begin

text \<open>
  The DNS message of \<^verbatim>\<open>src/dns/dnspacket.rs\<close>: header, questions and resource records, with their
  readers and writers over the buffer of \<^verbatim>\<open>Dns_Buffer\<close>.
\<close>

section \<open>Header\<close>

datatype result_code = NOERROR | FORMERR | SERVFAIL | NXDOMAIN | NOTIMP | REFUSED

definition result_code_from_num :: "u8 \<Rightarrow> result_code" where
  "result_code_from_num num =
     (if num = 1 then FORMERR
      else if num = 2 then SERVFAIL
      else if num = 3 then NXDOMAIN
      else if num = 4 then NOTIMP
      else if num = 5 then REFUSED
      else NOERROR)"

fun result_code_num :: "result_code \<Rightarrow> u8" where
  "result_code_num NOERROR = 0"
| "result_code_num FORMERR = 1"
| "result_code_num SERVFAIL = 2"
| "result_code_num NXDOMAIN = 3"
| "result_code_num NOTIMP = 4"
| "result_code_num REFUSED = 5"

record dns_header =
  dh_id :: u16
  recursion_desired :: bool
  truncated_message :: bool
  authoritative_answer :: bool
  opcode :: u8
  response :: bool
  rescode :: result_code
  checking_disabled :: bool
  authed_data :: bool
  dh_z :: bool
  recursion_available :: bool
  questions_count :: u16
  answers_count :: u16
  authoritative_entries :: u16
  resource_entries :: u16

definition dns_header_new :: dns_header where
  "dns_header_new =
     \<lparr>dh_id = 0, recursion_desired = False, truncated_message = False,
      authoritative_answer = False, opcode = 0, response = False, rescode = NOERROR,
      checking_disabled = False, authed_data = False, dh_z = False, recursion_available = False,
      questions_count = 0, answers_count = 0, authoritative_entries = 0, resource_entries = 0\<rparr>"

definition header_read :: "bpb \<Rightarrow> (dns_header \<times> bpb) res" where
  "header_read b =
     and_then (bp_read_u16 b) (\<lambda>(ident, b).
     and_then (bp_read_u16 b) (\<lambda>(flags, b).
     let hi = (ucast (drop_bit 8 flags) :: u8);
         lo = (ucast (flags AND 0xFF) :: u8)
     in
     and_then (bp_read_u16 b) (\<lambda>(qs, b).
     and_then (bp_read_u16 b) (\<lambda>(as, b).
     and_then (bp_read_u16 b) (\<lambda>(ns, b).
     and_then (bp_read_u16 b) (\<lambda>(rs, b).
       Inr (\<lparr>dh_id = ident,
             recursion_desired = (0 < hi AND push_bit 0 1),
             truncated_message = (0 < hi AND push_bit 1 1),
             authoritative_answer = (0 < hi AND push_bit 2 1),
             opcode = drop_bit 3 hi AND 0x0F,
             response = (0 < hi AND push_bit 7 1),
             rescode = result_code_from_num (lo AND 0x0F),
             checking_disabled = (0 < lo AND push_bit 4 1),
             authed_data = (0 < lo AND push_bit 5 1),
             dh_z = (0 < lo AND push_bit 6 1),
             recursion_available = (0 < lo AND push_bit 7 1),
             questions_count = qs, answers_count = as,
             authoritative_entries = ns, resource_entries = rs\<rparr>, b)))))))"

definition header_byte1 :: "dns_header \<Rightarrow> u8" where
  "header_byte1 h =
     of_bool (recursion_desired h)
     OR push_bit 1 (of_bool (truncated_message h))
     OR push_bit 2 (of_bool (authoritative_answer h))
     OR push_bit 3 (opcode h)
     OR push_bit 7 (of_bool (response h))"

definition header_byte2 :: "dns_header \<Rightarrow> u8" where
  "header_byte2 h =
     result_code_num (rescode h)
     OR push_bit 4 (of_bool (checking_disabled h))
     OR push_bit 5 (of_bool (authed_data h))
     OR push_bit 6 (of_bool (dh_z h))
     OR push_bit 7 (of_bool (recursion_available h))"

definition header_write :: "dns_header \<Rightarrow> bpb \<Rightarrow> bpb res" where
  "header_write h b =
     and_then (bp_write_u16 (dh_id h) b) (\<lambda>b.
     and_then (bp_write_u8 (header_byte1 h) b) (\<lambda>b.
     and_then (bp_write_u8 (header_byte2 h) b) (\<lambda>b.
     and_then (bp_write_u16 (questions_count h) b) (\<lambda>b.
     and_then (bp_write_u16 (answers_count h) b) (\<lambda>b.
     and_then (bp_write_u16 (authoritative_entries h) b) (\<lambda>b.
     bp_write_u16 (resource_entries h) b))))))"

section \<open>Questions\<close>

datatype query_type = QUNKNOWN u16 | QA | QNS | QCNAME | QMX | QAAAA

fun query_type_to_num :: "query_type \<Rightarrow> u16" where
  "query_type_to_num (QUNKNOWN x) = x"
| "query_type_to_num QA = 1"
| "query_type_to_num QNS = 2"
| "query_type_to_num QCNAME = 5"
| "query_type_to_num QMX = 15"
| "query_type_to_num QAAAA = 28"

definition query_type_from_num :: "u16 \<Rightarrow> query_type" where
  "query_type_from_num num =
     (if num = 1 then QA
      else if num = 2 then QNS
      else if num = 5 then QCNAME
      else if num = 15 then QMX
      else if num = 28 then QAAAA
      else QUNKNOWN num)"

record dns_question =
  q_name :: str
  q_type :: query_type

definition question_new :: "str \<Rightarrow> query_type \<Rightarrow> dns_question" where
  "question_new name qtype = \<lparr>q_name = name, q_type = qtype\<rparr>"

definition question_read :: "(bytes \<Rightarrow> bytes) \<Rightarrow> dns_question \<Rightarrow> bpb \<Rightarrow> (dns_question \<times> bpb) res" where
  "question_read uni q b =
     and_then (bp_read_qname uni (q_name q) b) (\<lambda>(name, b).
     and_then (bp_read_u16 b) (\<lambda>(t, b).
     and_then (bp_read_u16 b) (\<lambda>(cls, b).
       Inr (\<lparr>q_name = name, q_type = query_type_from_num t\<rparr>, b))))"

definition question_write :: "dns_question \<Rightarrow> bpb \<Rightarrow> bpb res" where
  "question_write q b =
     and_then (bp_write_qname (q_name q) b) (\<lambda>b.
     and_then (bp_write_u16 (query_type_to_num (q_type q)) b) (\<lambda>b.
     bp_write_u16 1 b))"

section \<open>Resource records\<close>

datatype dns_record =
    RUNKNOWN (rec_domain: str) (rec_qtype: u16) (rec_data_len: u16) (rec_ttl: u32)
  | RA (rec_domain: str) (rec_addr4: ipv4_addr) (rec_ttl: u32)
  | RNS (rec_domain: str) (rec_host: str) (rec_ttl: u32)
  | RCNAME (rec_domain: str) (rec_host: str) (rec_ttl: u32)
  | RMX (rec_domain: str) (rec_priority: u16) (rec_host: str) (rec_ttl: u32)
  | RAAAA (rec_domain: str) (rec_addr6: ipv6_addr) (rec_ttl: u32)

text \<open>The \<^verbatim>\<open>match qtype\<close> of \<^verbatim>\<open>DnsRecord::read\<close>, after the record's head.\<close>

definition record_read_data ::
  "(bytes \<Rightarrow> bytes) \<Rightarrow> str \<Rightarrow> u16 \<Rightarrow> u32 \<Rightarrow> u16 \<Rightarrow> bpb \<Rightarrow> (dns_record \<times> bpb) res" where
  "record_read_data uni domain qtype_num ttl data_len b =
    (case query_type_from_num qtype_num of
      QA \<Rightarrow>
        and_then (bp_read_u32 b) (\<lambda>(raw, b).
          Inr (RA domain
            (Ipv4Addr (ucast (drop_bit 24 raw AND 0xFF)) (ucast (drop_bit 16 raw AND 0xFF))
               (ucast (drop_bit 8 raw AND 0xFF)) (ucast (raw AND 0xFF))) ttl, b))
    | QAAAA \<Rightarrow>
        and_then (bp_read_u32 b) (\<lambda>(r1, b).
        and_then (bp_read_u32 b) (\<lambda>(r2, b).
        and_then (bp_read_u32 b) (\<lambda>(r3, b).
        and_then (bp_read_u32 b) (\<lambda>(r4, b).
          Inr (RAAAA domain
            (Ipv6Addr (ucast (drop_bit 16 r1 AND 0xFFFF)) (ucast (r1 AND 0xFFFF))
               (ucast (drop_bit 16 r2 AND 0xFFFF)) (ucast (r2 AND 0xFFFF))
               (ucast (drop_bit 16 r3 AND 0xFFFF)) (ucast (r3 AND 0xFFFF))
               (ucast (drop_bit 16 r4 AND 0xFFFF)) (ucast (r4 AND 0xFFFF))) ttl, b)))))
    | QNS \<Rightarrow> and_then (bp_read_qname uni [] b) (\<lambda>(ns, b). Inr (RNS domain ns ttl, b))
    | QCNAME \<Rightarrow> and_then (bp_read_qname uni [] b) (\<lambda>(cname, b). Inr (RCNAME domain cname ttl, b))
    | QMX \<Rightarrow>
        and_then (bp_read_u16 b) (\<lambda>(priority, b).
        and_then (bp_read_qname uni [] b) (\<lambda>(mx, b). Inr (RMX domain priority mx ttl, b)))
    | QUNKNOWN x \<Rightarrow>
        and_then (bp_step (unat data_len) b) (\<lambda>b.
          Inr (RUNKNOWN domain qtype_num data_len ttl, b)))"

definition record_read :: "(bytes \<Rightarrow> bytes) \<Rightarrow> bpb \<Rightarrow> (dns_record \<times> bpb) res" where
  "record_read uni b =
     and_then (bp_read_qname uni [] b) (\<lambda>(domain, b).
     and_then (bp_read_u16 b) (\<lambda>(qtype_num, b).
     and_then (bp_read_u16 b) (\<lambda>(cls, b).
     and_then (bp_read_u32 b) (\<lambda>(ttl, b).
     and_then (bp_read_u16 b) (\<lambda>(data_len, b).
       record_read_data uni domain qtype_num ttl data_len b)))))"

text \<open>
  What every record arm writes first: the name, type, class 1 and time to live. The arms with a
  name in the data write a zero length, the data, and then patch the length in.
\<close>

definition record_write_head :: "str \<Rightarrow> query_type \<Rightarrow> u32 \<Rightarrow> bpb \<Rightarrow> bpb res" where
  "record_write_head domain t ttl b =
     and_then (bp_write_qname domain b) (\<lambda>b.
     and_then (bp_write_u16 (query_type_to_num t) b) (\<lambda>b.
     and_then (bp_write_u16 1 b) (\<lambda>b.
     bp_write_u32 ttl b)))"

definition record_write_sized :: "(bpb \<Rightarrow> bpb res) \<Rightarrow> bpb \<Rightarrow> bpb res" where
  "record_write_sized data b =
     (let pos = bp_pos b in
      and_then (bp_write_u16 0 b) (\<lambda>b.
      and_then (data b) (\<lambda>b.
      let size = bp_pos b - (pos + 2)
      in bp_set_u16 pos (word_of_nat size) b)))"

fun write_u16s :: "u16 list \<Rightarrow> bpb \<Rightarrow> bpb res" where
  "write_u16s [] b = Inr b"
| "write_u16s (v # vs) b = and_then (bp_write_u16 v b) (write_u16s vs)"

fun record_write_body :: "dns_record \<Rightarrow> bpb \<Rightarrow> bpb res" where
  "record_write_body (RA domain addr ttl) b =
     and_then (record_write_head domain QA ttl b) (\<lambda>b.
     and_then (bp_write_u16 4 b) (\<lambda>b.
     write_bytes (octets4 addr) b))"
| "record_write_body (RNS domain host ttl) b =
     and_then (record_write_head domain QNS ttl b) (record_write_sized (bp_write_qname host))"
| "record_write_body (RCNAME domain host ttl) b =
     and_then (record_write_head domain QCNAME ttl b) (record_write_sized (bp_write_qname host))"
| "record_write_body (RMX domain priority host ttl) b =
     and_then (record_write_head domain QMX ttl b)
       (record_write_sized (\<lambda>b. and_then (bp_write_u16 priority b) (bp_write_qname host)))"
| "record_write_body (RAAAA domain addr ttl) b =
     and_then (record_write_head domain QAAAA ttl b) (\<lambda>b.
     and_then (bp_write_u16 16 b) (\<lambda>b.
     write_u16s (segments addr) b))"
| "record_write_body (RUNKNOWN domain qtype data_len ttl) b = Inr b"

definition record_write :: "dns_record \<Rightarrow> bpb \<Rightarrow> (nat \<times> bpb) res" where
  "record_write r b =
     (let start_pos = bp_pos b in
      and_then (record_write_body r b) (\<lambda>b. Inr (bp_pos b - start_pos, b)))"

section \<open>Packets\<close>

record dns_packet =
  dp_header :: dns_header
  dp_questions :: "dns_question list"
  dp_answers :: "dns_record list"
  dp_authorities :: "dns_record list"
  dp_resources :: "dns_record list"

definition dns_packet_new :: dns_packet where
  "dns_packet_new = \<lparr>dp_header = dns_header_new, dp_questions = [], dp_answers = [],
     dp_authorities = [], dp_resources = []\<rparr>"

definition read_questions :: "(bytes \<Rightarrow> bytes) \<Rightarrow> nat \<Rightarrow> bpb \<Rightarrow> (dns_question list \<times> bpb) res" where
  "read_questions uni = read_many (question_read uni (question_new [] (QUNKNOWN 0)))"

definition read_records :: "(bytes \<Rightarrow> bytes) \<Rightarrow> nat \<Rightarrow> bpb \<Rightarrow> (dns_record list \<times> bpb) res" where
  "read_records uni = read_many (record_read uni)"

definition from_buffer :: "(bytes \<Rightarrow> bytes) \<Rightarrow> bpb \<Rightarrow> (dns_packet \<times> bpb) res" where
  "from_buffer uni b =
     and_then (header_read b) (\<lambda>(h, b).
     and_then (read_questions uni (unat (questions_count h)) b) (\<lambda>(qs, b).
     and_then (read_records uni (unat (answers_count h)) b) (\<lambda>(as, b).
     and_then (read_records uni (unat (authoritative_entries h)) b) (\<lambda>(ns, b).
     and_then (read_records uni (unat (resource_entries h)) b) (\<lambda>(rs, b).
       Inr (\<lparr>dp_header = h, dp_questions = qs, dp_answers = as, dp_authorities = ns,
             dp_resources = rs\<rparr>, b))))))"

fun write_questions :: "dns_question list \<Rightarrow> bpb \<Rightarrow> bpb res" where
  "write_questions [] b = Inr b"
| "write_questions (q # qs) b = and_then (question_write q b) (write_questions qs)"

fun write_records :: "dns_record list \<Rightarrow> bpb \<Rightarrow> bpb res" where
  "write_records [] b = Inr b"
| "write_records (r # rs) b = and_then (record_write r b) (\<lambda>(n, b). write_records rs b)"

definition set_counts :: "dns_packet \<Rightarrow> dns_packet" where
  "set_counts p = p\<lparr>dp_header := (dp_header p)\<lparr>
     questions_count := word_of_nat (length (dp_questions p)),
     answers_count := word_of_nat (length (dp_answers p)),
     authoritative_entries := word_of_nat (length (dp_authorities p)),
     resource_entries := word_of_nat (length (dp_resources p))\<rparr>\<rparr>"

definition packet_write :: "dns_packet \<Rightarrow> bpb \<Rightarrow> (dns_packet \<times> bpb) res" where
  "packet_write p b =
     (let p = set_counts p in
      and_then (header_write (dp_header p) b) (\<lambda>b.
      and_then (write_questions (dp_questions p) b) (\<lambda>b.
      and_then (write_records (dp_answers p) b) (\<lambda>b.
      and_then (write_records (dp_authorities p) b) (\<lambda>b.
      and_then (write_records (dp_resources p) b) (\<lambda>b. Inr (p, b)))))))"

section \<open>Wire forms\<close>

text \<open>The encodings the writers produce, as byte lists, and the packets they are exact for.\<close>

definition enc_header :: "dns_header \<Rightarrow> bytes" where
  "enc_header h = be16 (dh_id h) @ [header_byte1 h, header_byte2 h] @ be16 (questions_count h)
     @ be16 (answers_count h) @ be16 (authoritative_entries h) @ be16 (resource_entries h)"

definition enc_question :: "dns_question \<Rightarrow> bytes" where
  "enc_question q = enc_qname (q_name q) @ be16 (query_type_to_num (q_type q)) @ be16 1"

definition enc_head :: "str \<Rightarrow> query_type \<Rightarrow> u32 \<Rightarrow> bytes" where
  "enc_head domain t ttl = enc_qname domain @ be16 (query_type_to_num t) @ be16 1 @ be32 ttl"

definition enc_sized :: "bytes \<Rightarrow> bytes" where
  "enc_sized data = be16 (word_of_nat (length data)) @ data"

fun enc_record :: "dns_record \<Rightarrow> bytes" where
  "enc_record (RA domain addr ttl) = enc_head domain QA ttl @ be16 4 @ octets4 addr"
| "enc_record (RNS domain host ttl) = enc_head domain QNS ttl @ enc_sized (enc_qname host)"
| "enc_record (RCNAME domain host ttl) = enc_head domain QCNAME ttl @ enc_sized (enc_qname host)"
| "enc_record (RMX domain priority host ttl) =
     enc_head domain QMX ttl @ enc_sized (be16 priority @ enc_qname host)"
| "enc_record (RAAAA domain addr ttl) = enc_head domain QAAAA ttl @ be16 16 @ octets6 addr"
| "enc_record (RUNKNOWN domain qtype data_len ttl) = []"

definition enc_packet :: "dns_packet \<Rightarrow> bytes" where
  "enc_packet p = enc_header (dp_header p) @ concat (map enc_question (dp_questions p))
     @ concat (map enc_record (dp_answers p)) @ concat (map enc_record (dp_authorities p))
     @ concat (map enc_record (dp_resources p))"

fun record_names :: "dns_record \<Rightarrow> str list" where
  "record_names (RA domain addr ttl) = [domain]"
| "record_names (RNS domain host ttl) = [domain, host]"
| "record_names (RCNAME domain host ttl) = [domain, host]"
| "record_names (RMX domain priority host ttl) = [domain, host]"
| "record_names (RAAAA domain addr ttl) = [domain]"
| "record_names (RUNKNOWN domain qtype data_len ttl) = []"

section \<open>The writers write their wire form\<close>

lemma write_bytes_same_fault:
  "write_bytes us b = Inl e \<Longrightarrow> length us = length vs \<Longrightarrow> bp_pos c = bp_pos b \<Longrightarrow>
   length (bp_buf c) = length (bp_buf b) \<Longrightarrow> write_bytes vs c = Inl e"
proof (induction us arbitrary: vs b c)
  case Nil
  then show ?case by simp
next
  case (Cons u us)
  obtain v vs' where vs: "vs = v # vs'" "length vs' = length us" using Cons.prems by (cases vs) auto
  show ?case
  proof (cases "bp_pos b < 512 \<and> bp_pos b < length (bp_buf b)")
    case True
    then show ?thesis using Cons.prems vs
      by (auto simp: bp_write_u8_def bp_write_def intro: Cons.IH)
  next
    case False
    then show ?thesis using Cons.prems vs by (auto simp: bp_write_u8_def bp_write_def vec_set_def)
  qed
qed

lemma write_bytes_buf:
  "write_bytes vs b = Inr b' \<Longrightarrow>
   b' = b\<lparr>bp_buf := take (bp_pos b) (bp_buf b) @ vs @ drop (bp_pos b + length vs) (bp_buf b),
          bp_pos := bp_pos b + length vs\<rparr>"
proof (induction vs arbitrary: b)
  case Nil
  then show ?case by simp
next
  case (Cons v vs)
  then obtain b1 where "bp_write v b = Inr b1" and w: "write_bytes vs b1 = Inr b'"
    by (auto simp: bp_write_u8_def and_then_Inr_iff)
  then have lt: "bp_pos b < length (bp_buf b)"
    and b1: "b1 = b\<lparr>bp_buf := (bp_buf b)[bp_pos b := v], bp_pos := bp_pos b + 1\<rparr>"
    by (auto simp: bp_write_Inr)
  show ?case unfolding Cons.IH [OF w] b1 using lt by (simp add: take_Suc_conv_app_nth)
qed

lemma backpatch:
  "and_then (write_bytes ([x, y] @ data) b) (bp_set_u16 (bp_pos b) v) = write_bytes (be16 v @ data) b"
proof (cases "write_bytes ([x, y] @ data) b")
  case (Inl e)
  then have "write_bytes (be16 v @ data) b = Inl e"
    by (rule write_bytes_same_fault) (simp_all add: be16_def)
  with Inl show ?thesis by simp
next
  case (Inr b1)
  have room: "bp_pos b < length (bp_buf b)" "bp_pos b \<le> 512"
    using Inr by (auto simp: bp_write_u8_def and_then_Inr_iff bp_write_Inr)
  have fit: "at_bytes (bp_pos b) ([x, y] @ data) (bp_buf b1)" "length (bp_buf b1) = length (bp_buf b)"
    using write_bytes_Inr [OF Inr] room by auto
  obtain b2 where b2: "write_bytes (be16 v @ data) b = Inr b2"
    using write_bytes_fits [of b "be16 v @ data"] at_bytes_bound [OF fit(1)] fit(2) by auto
  show ?thesis using Inr b2 write_bytes_buf [OF Inr] write_bytes_buf [OF b2] room
    by (simp add: bp_set_u16_def bp_set_def vec_set_def be16_def list_update_append)
qed

lemma header_write_eq: "header_write h b = write_bytes (enc_header h) b"
  by (auto simp: header_write_def enc_header_def bp_write_u16_eq write_bytes_append
      bp_write_u8_def write_bytes_fun simp del: write_bytes.simps intro!: and_then_eqI)

lemma question_write_eq:
  "short_labels (q_name q) \<Longrightarrow> question_write q b = write_bytes (enc_question q) b"
  by (auto simp: question_write_def enc_question_def bp_write_u16_eq bp_write_qname_eq
      write_bytes_append intro!: and_then_eqI)

lemma record_write_head_eq:
  "short_labels domain \<Longrightarrow> record_write_head domain t ttl b = write_bytes (enc_head domain t ttl) b"
  by (auto simp: record_write_head_def enc_head_def bp_write_u16_eq bp_write_u32_eq
      bp_write_qname_eq write_bytes_append intro!: and_then_eqI)

lemma record_write_sized_eq:
  assumes "\<And>b. data b = write_bytes vs b"
  shows "record_write_sized data b = write_bytes (enc_sized vs) b"
proof -
  have "record_write_sized data b =
      and_then (write_bytes ([0, 0] @ vs) b)
        (\<lambda>b1. bp_set_u16 (bp_pos b) (word_of_nat (bp_pos b1 - (bp_pos b + 2))) b1)"
    by (simp add: record_write_sized_def Let_def assms bp_write_u16_eq write_bytes_append be16_def
        and_then_assoc)
  also have "\<dots> = and_then (write_bytes ([0, 0] @ vs) b)
      (bp_set_u16 (bp_pos b) (word_of_nat (length vs)))"
    by (rule and_then_cong [OF refl]) (auto dest: write_bytes_buf simp del: write_bytes.simps)
  finally show ?thesis by (simp only: backpatch enc_sized_def)
qed

lemma write_u16s_eq: "write_u16s vs b = write_bytes (concat (map be16 vs)) b"
  by (induction vs arbitrary: b) (auto simp: bp_write_u16_eq write_bytes_append intro!: and_then_eqI)

lemma record_write_body_eq:
  "list_all short_labels (record_names r) \<Longrightarrow> record_write_body r b = write_bytes (enc_record r) b"
proof (cases r)
  case (RMX domain priority host ttl)
  assume "list_all short_labels (record_names r)"
  moreover have "and_then (bp_write_u16 priority c) (bp_write_qname host)
      = write_bytes (be16 priority @ enc_qname host) c" if "short_labels host" for c
    using that by (auto simp: bp_write_u16_eq bp_write_qname_eq write_bytes_append intro!: and_then_eqI)
  ultimately show ?thesis using RMX
    by (auto simp: record_write_head_eq write_bytes_append intro!: and_then_eqI record_write_sized_eq)
qed (auto simp: record_write_head_eq bp_write_u16_eq write_bytes_append bp_write_qname_eq
    write_u16s_eq octets6_def intro!: and_then_eqI record_write_sized_eq)

lemma record_write_eq:
  "list_all short_labels (record_names r) \<Longrightarrow>
   record_write r b = and_then (write_bytes (enc_record r) b) (\<lambda>b'. Inr (length (enc_record r), b'))"
  by (auto simp: record_write_def record_write_body_eq Let_def dest: write_bytes_buf
      intro!: and_then_cong [OF refl])

lemma write_questions_eq:
  "list_all (\<lambda>q. short_labels (q_name q)) qs \<Longrightarrow>
   write_questions qs b = write_bytes (concat (map enc_question qs)) b"
  by (induction qs arbitrary: b) (auto simp: question_write_eq write_bytes_append intro!: and_then_eqI)

lemma write_records_eq:
  "list_all (\<lambda>r. list_all short_labels (record_names r)) rs \<Longrightarrow>
   write_records rs b = write_bytes (concat (map enc_record rs)) b"
  by (induction rs arbitrary: b)
     (auto simp: record_write_eq write_bytes_append and_then_assoc intro!: and_then_eqI)

definition packet_records :: "dns_packet \<Rightarrow> dns_record list" where
  "packet_records p = dp_answers p @ dp_authorities p @ dp_resources p"

definition short_packet :: "dns_packet \<Rightarrow> bool" where
  "short_packet p \<longleftrightarrow> list_all (\<lambda>q. short_labels (q_name q)) (dp_questions p)
     \<and> list_all (\<lambda>r. list_all short_labels (record_names r)) (packet_records p)"

lemma set_counts_fields [simp]:
  "dp_questions (set_counts p) = dp_questions p" "dp_answers (set_counts p) = dp_answers p"
  "dp_authorities (set_counts p) = dp_authorities p" "dp_resources (set_counts p) = dp_resources p"
  by (simp_all add: set_counts_def)

lemma packet_write_eq:
  "short_packet p \<Longrightarrow>
   packet_write p b = and_then (write_bytes (enc_packet (set_counts p)) b) (\<lambda>b'. Inr (set_counts p, b'))"
  by (auto simp: packet_write_def Let_def header_write_eq write_questions_eq write_records_eq
      short_packet_def packet_records_def enc_packet_def write_bytes_append and_then_assoc
      intro!: and_then_eqI)

section \<open>The readers invert the wire forms\<close>

lemma result_code_num_inverse [simp]: "result_code_from_num (result_code_num c) = c"
  by (cases c) (simp_all add: result_code_from_num_def)

lemma query_type_num_inverse [simp]: "query_type_to_num (query_type_from_num n) = n"
  by (simp add: query_type_from_num_def)

lemma query_type_inverse:
  "query_type_from_num (query_type_to_num t) = t \<longleftrightarrow> t \<notin> QUNKNOWN ` {1, 2, 5, 15, 28}"
  by (cases t) (auto simp: query_type_from_num_def)

lemma zero_less_and_bit: "0 < (w :: 'a::len word) AND push_bit n 1 \<longleftrightarrow> bit w n"
proof -
  have "w AND push_bit n 1 = (if bit w n then push_bit n 1 else 0)"
    by (rule bit_word_eqI) (auto simp: bit_simps)
  moreover have "push_bit n (1 :: 'a word) \<noteq> 0" if "bit w n"
  proof -
    from that have "n < LENGTH('a)" by (rule bit_imp_le_length)
    then have set_bit: "bit (push_bit n (1 :: 'a word)) n" by (simp add: bit_simps)
    show ?thesis
    proof
      assume "push_bit n (1 :: 'a word) = 0"
      with set_bit have "bit (0 :: 'a word) n" by (simp only:)
      then show False by simp
    qed
  qed
  ultimately show ?thesis by (simp add: word_neq_0_conv [symmetric])
qed

text \<open>The two flag bytes give the header's fields back.\<close>

lemma drop_ucast_byte [simp]:
  "(ucast (drop_bit 8 (of_be16 a b)) :: u8) = a" "(ucast (of_be16 a b AND 0xFF) :: u8) = b"
  unfolding and_255_take_bit by (rule bit_word_eqI; auto simp: of_be16_def bit_simps)+

definition flag_bits :: "bool \<Rightarrow> bool \<Rightarrow> bool \<Rightarrow> u8 \<Rightarrow> bool \<Rightarrow> u8" where
  "flag_bits a b c v d = of_bool a OR push_bit 1 (of_bool b) OR push_bit 2 (of_bool c)
     OR push_bit 3 v OR push_bit 7 (of_bool d)"

lemma and_15_take_bit: "(v :: 'a::len word) AND 15 = take_bit 4 v"
  by (simp add: take_bit_eq_mask mask_eq_exp_minus_1)

lemma bit_below_16:
  assumes "(v :: u8) < 16" "bit v n"
  shows "n < 4"
proof (rule ccontr)
  assume "\<not> n < 4"
  have "unat v < 2 ^ 4" using assms(1) by (simp add: word_less_nat_alt)
  then have "unat (take_bit 4 v) = unat v"
    by (simp add: unsigned_take_bit_eq take_bit_nat_eq_self)
  then have "v = take_bit 4 v" by (simp add: word_unat_eq_iff)
  then have "bit (take_bit 4 v) n" using assms(2) by simp
  with \<open>\<not> n < 4\<close> show False by (simp add: bit_take_bit_iff)
qed

lemma header_byte1_fields:
  assumes "opcode h < 16"
  shows "bit (header_byte1 h) 0 = recursion_desired h" "bit (header_byte1 h) 1 = truncated_message h"
    "bit (header_byte1 h) 2 = authoritative_answer h" "bit (header_byte1 h) 7 = response h"
    "drop_bit 3 (header_byte1 h) AND 0x0F = opcode h"
proof -
  have op: "\<not> bit (opcode h) n" if "4 \<le> n" for n using bit_below_16 [OF assms, of n] that by auto
  show "bit (header_byte1 h) 0 = recursion_desired h" "bit (header_byte1 h) 1 = truncated_message h"
    "bit (header_byte1 h) 2 = authoritative_answer h" "bit (header_byte1 h) 7 = response h"
    using op by (simp_all add: header_byte1_def bit_simps)
  show "drop_bit 3 (header_byte1 h) AND 0x0F = opcode h"
    unfolding and_15_take_bit header_byte1_def
    by (rule bit_word_eqI) (auto simp: bit_simps op bit_below_16 [OF assms])
qed

lemma header_byte2_fields:
  "bit (header_byte2 h) 4 = checking_disabled h" "bit (header_byte2 h) 5 = authed_data h"
  "bit (header_byte2 h) 6 = dh_z h" "bit (header_byte2 h) 7 = recursion_available h"
  "header_byte2 h AND 0x0F = result_code_num (rescode h)"
proof -
  have rc: "\<not> bit (result_code_num c) n" if "4 \<le> n" for c n
    using bit_below_16 [of "result_code_num c" n] that by (cases c) auto
  show "bit (header_byte2 h) 4 = checking_disabled h" "bit (header_byte2 h) 5 = authed_data h"
    "bit (header_byte2 h) 6 = dh_z h" "bit (header_byte2 h) 7 = recursion_available h"
    by (simp_all add: header_byte2_def bit_simps rc)
  show "header_byte2 h AND 0x0F = result_code_num (rescode h)"
    unfolding and_15_take_bit header_byte2_def
    by (rule bit_word_eqI) (auto simp: bit_simps rc)
qed

definition flags_ok :: "dns_header \<Rightarrow> bool" where
  "flags_ok h \<longleftrightarrow> opcode h < 16"

lemma reads_header:
  assumes "flags_ok h"
  shows "reads header_read (enc_header h) h"
proof -
  have op: "opcode h < 16" using assms by (simp add: flags_ok_def)
  note bits = drop_ucast_byte zero_less_and_bit header_byte1_fields [OF op] header_byte2_fields
    result_code_num_inverse Let_def
  have "enc_header h = be16 (dh_id h) @ [header_byte1 h, header_byte2 h] @ be16 (questions_count h)
     @ be16 (answers_count h) @ be16 (authoritative_entries h) @ be16 (resource_entries h) @ []"
    by (simp add: enc_header_def)
  then show ?thesis unfolding header_read_def
    by (simp only:)
       (rule reads_then [OF reads_u16], rule reads_then [OF reads_u16_pair], simp only: bits,
        (rule reads_then [OF reads_u16])+, simp add: reads_def)
qed

text \<open>The questions and records that come back as they were written.\<close>

definition question_ok :: "dns_question \<Rightarrow> bool" where
  "question_ok q \<longleftrightarrow> plain_name (q_name q)
     \<and> query_type_from_num (query_type_to_num (q_type q)) = q_type q"

fun record_ok :: "dns_record \<Rightarrow> bool" where
  "record_ok (RUNKNOWN domain qtype data_len ttl) = False"
| "record_ok r = list_all plain_name (record_names r)"

lemma reads_question:
  assumes "question_ok q"
  shows "reads (question_read uni (question_new [] t)) (enc_question q) q"
proof -
  have "enc_question q = enc_qname (q_name q) @ be16 (query_type_to_num (q_type q)) @ be16 1 @ []"
    by (simp add: enc_question_def)
  moreover have "plain_name (q_name q)" using assms by (simp add: question_ok_def)
  ultimately show ?thesis unfolding question_read_def question_new_def
    by (simp only: dns_question.simps)
       (rule reads_then [OF reads_qname], assumption, (rule reads_then [OF reads_u16])+,
        use assms in \<open>simp add: reads_def question_ok_def\<close>)
qed

lemma of_be32_octets:
  "(ucast (drop_bit 24 (of_be32 a b c d) AND 0xFF) :: u8) = a"
  "(ucast (drop_bit 16 (of_be32 a b c d) AND 0xFF) :: u8) = b"
  "(ucast (drop_bit 8 (of_be32 a b c d) AND 0xFF) :: u8) = c"
  "(ucast (of_be32 a b c d AND 0xFF) :: u8) = d"
  unfolding and_255_take_bit by (rule bit_word_eqI; auto simp: of_be32_def bit_simps)+

lemma and_65535_take_bit: "(v :: 'a::len word) AND 0xFFFF = take_bit 16 v"
  by (simp add: take_bit_eq_mask mask_eq_exp_minus_1)

definition be16_pair :: "u16 \<Rightarrow> u16 \<Rightarrow> u32" where
  "be16_pair s t = push_bit 16 (ucast s) OR ucast t"

lemma reads_segments: "reads bp_read_u32 (be16 s @ be16 t) (be16_pair s t)"
proof -
  have "of_be32 (ucast (drop_bit 8 s)) (ucast (s AND 0xFF)) (ucast (drop_bit 8 t)) (ucast (t AND 0xFF))
      = be16_pair s t"
    unfolding and_255_take_bit
  proof (rule bit_word_eqI)
    fix n assume "n < LENGTH(32)"
    then consider "n < 8" | "8 \<le> n \<and> n < 16" | "16 \<le> n \<and> n < 24" | "24 \<le> n \<and> n < 32" by fastforce
    then show "bit (of_be32 (ucast (drop_bit 8 s)) (ucast (take_bit 8 s)) (ucast (drop_bit 8 t))
        (ucast (take_bit 8 t))) n = bit (be16_pair s t) n"
      by cases (auto simp: be16_pair_def of_be32_def bit_simps)
  qed
  then show ?thesis
    using reads_u32_quad [of "ucast (drop_bit 8 s)" "ucast (s AND 0xFF)" "ucast (drop_bit 8 t)"
        "ucast (t AND 0xFF)"] by (simp add: be16_def)
qed

lemma be16_pair_parts:
  "(ucast (drop_bit 16 (be16_pair s t) AND 0xFFFF) :: u16) = s"
  "(ucast (be16_pair s t AND 0xFFFF) :: u16) = t"
  unfolding and_65535_take_bit by (rule bit_word_eqI; auto simp: be16_pair_def bit_simps)+

lemma reads_record_head:
  assumes "plain_name d" "reads (record_read_data uni d (query_type_to_num t) ttl n) data r"
  shows "reads (record_read uni) (enc_head d t ttl @ be16 n @ data) r"
proof -
  have "enc_head d t ttl @ be16 n @ data
      = enc_qname d @ be16 (query_type_to_num t) @ be16 1 @ be32 ttl @ be16 n @ data"
    by (simp add: enc_head_def)
  then show ?thesis unfolding record_read_def
    by (simp only:)
       (rule reads_then [OF reads_qname [OF assms(1)]], (rule reads_then [OF reads_u16])+,
        rule reads_then [OF reads_u32], rule reads_then [OF reads_u16], simp add: assms(2))
qed

lemma query_types:
  "query_type_from_num (query_type_to_num QA) = QA"
  "query_type_from_num (query_type_to_num QNS) = QNS"
  "query_type_from_num (query_type_to_num QCNAME) = QCNAME"
  "query_type_from_num (query_type_to_num QMX) = QMX"
  "query_type_from_num (query_type_to_num QAAAA) = QAAAA"
  by (simp_all add: query_type_from_num_def)

lemmas read_data_simps = record_read_data_def query_types query_type.case

lemma reads_data_a:
  "reads (record_read_data uni d (query_type_to_num QA) ttl n) (octets4 a) (RA d a ttl)"
proof (cases a)
  case (Ipv4Addr w x y z)
  then show ?thesis using reads_u32_quad [of w x y z]
    by (auto simp: read_data_simps reads_def of_be32_octets simp del: query_type_to_num.simps)
qed

lemma reads_data_aaaa:
  "reads (record_read_data uni d (query_type_to_num QAAAA) ttl n) (octets6 a) (RAAAA d a ttl)"
proof (cases a)
  case (Ipv6Addr s1 s2 s3 s4 s5 s6 s7 s8)
  have enc: "octets6 a = (be16 s1 @ be16 s2) @ (be16 s3 @ be16 s4) @ (be16 s5 @ be16 s6)
      @ (be16 s7 @ be16 s8) @ []"
    by (simp add: Ipv6Addr octets6_def)
  show ?thesis unfolding read_data_simps enc
    by (rule reads_then [OF reads_segments])+ (simp add: reads_def Ipv6Addr be16_pair_parts)
qed

lemma reads_data_host:
  assumes "plain_name h"
  shows "reads (record_read_data uni d (query_type_to_num QNS) ttl n) (enc_qname h) (RNS d h ttl)"
    and "reads (record_read_data uni d (query_type_to_num QCNAME) ttl n) (enc_qname h) (RCNAME d h ttl)"
  unfolding read_data_simps
  using reads_map [OF reads_qname [OF assms, of uni "[]"], of "\<lambda>h. RNS d h ttl"]
    reads_map [OF reads_qname [OF assms, of uni "[]"], of "\<lambda>h. RCNAME d h ttl"]
  by simp_all

lemma reads_data_mx:
  assumes "plain_name h"
  shows "reads (record_read_data uni d (query_type_to_num QMX) ttl n) (be16 pr @ enc_qname h) (RMX d pr h ttl)"
  unfolding read_data_simps
  using reads_map [OF reads_qname [OF assms, of uni "[]"], of "\<lambda>h. RMX d pr h ttl"]
  by (intro reads_then [OF reads_u16]) simp

lemma reads_record: "record_ok r \<Longrightarrow> reads (record_read uni) (enc_record r) r"
  by (cases r) (auto simp: enc_sized_def intro!: reads_record_head reads_data_a reads_data_aaaa reads_data_host reads_data_mx)

interpretation question_codec: wire_codec "question_read uni (question_new [] t)" enc_question question_ok
  by unfold_locales (rule reads_question)

interpretation record_codec: wire_codec "record_read uni" enc_record record_ok
  by unfold_locales (rule reads_record)

section \<open>Packets round trip\<close>

definition packet_ok :: "dns_packet \<Rightarrow> bool" where
  "packet_ok p \<longleftrightarrow> flags_ok (dp_header p) \<and> list_all question_ok (dp_questions p)
     \<and> list_all record_ok (packet_records p)
     \<and> length (dp_questions p) < 2 ^ 16 \<and> length (dp_answers p) < 2 ^ 16
     \<and> length (dp_authorities p) < 2 ^ 16 \<and> length (dp_resources p) < 2 ^ 16"

lemma record_ok_short: "record_ok r \<Longrightarrow> list_all short_labels (record_names r)"
  by (cases r) (auto intro: plain_name_short)

lemma packet_ok_short: "packet_ok p \<Longrightarrow> short_packet p"
  by (auto simp: packet_ok_def short_packet_def list_all_iff question_ok_def record_ok_short
      [unfolded list_all_iff] plain_name_short)

lemma unat_count: "n < 2 ^ 16 \<Longrightarrow> unat (word_of_nat n :: u16) = n"
  by (simp add: unat_of_nat take_bit_nat_eq_self)

lemma reads_packet:
  assumes "packet_ok p"
  shows "reads (from_buffer uni) (enc_packet (set_counts p)) (set_counts p)"
proof -
  let ?h = "dp_header (set_counts p)"
  have ok: "flags_ok ?h" "list_all question_ok (dp_questions p)" "list_all record_ok (dp_answers p)"
    "list_all record_ok (dp_authorities p)" "list_all record_ok (dp_resources p)"
    using assms by (auto simp: packet_ok_def flags_ok_def set_counts_def packet_records_def)
  have n: "unat (questions_count ?h) = length (dp_questions p)" "unat (answers_count ?h) = length (dp_answers p)"
    "unat (authoritative_entries ?h) = length (dp_authorities p)"
    "unat (resource_entries ?h) = length (dp_resources p)"
    using assms by (simp_all add: packet_ok_def set_counts_def unat_count)
  have enc: "enc_packet (set_counts p) = enc_header ?h @ concat (map enc_question (dp_questions p))
     @ concat (map enc_record (dp_answers p)) @ concat (map enc_record (dp_authorities p))
     @ concat (map enc_record (dp_resources p)) @ []"
    by (simp add: enc_packet_def)
  show ?thesis unfolding from_buffer_def enc read_questions_def read_records_def
    by (rule reads_then [OF reads_header [OF ok(1)]], simp only: n,
        rule reads_then [OF question_codec.reads_all [OF ok(2)]],
        rule reads_then [OF record_codec.reads_all [OF ok(3)]],
        rule reads_then [OF record_codec.reads_all [OF ok(4)]],
        rule reads_then [OF record_codec.reads_all [OF ok(5)]])
       (simp add: reads_def)
qed

section \<open>Properties\<close>

lemma packet_written:
  assumes "packet_ok p" "length (enc_packet (set_counts p)) \<le> 512" "512 \<le> length buf"
  shows "\<exists>b'. packet_write p (bpb_new buf) = Inr (set_counts p, b')
    \<and> take (bp_pos b') (bp_buf b') = enc_packet (set_counts p)
    \<and> bp_pos b' = length (enc_packet (set_counts p))
    \<and> from_buffer uni (bpb_new (take (bp_pos b') (bp_buf b')))
        = Inr (set_counts p, \<lparr>bp_buf = enc_packet (set_counts p), bp_pos = bp_pos b'\<rparr>)"
proof -
  let ?enc = "enc_packet (set_counts p)"
  obtain b' where w: "write_bytes ?enc (bpb_new buf) = Inr b'"
    using write_bytes_fits [of "bpb_new buf" ?enc] assms by (auto simp: bpb_new_def)
  then have b': "b' = \<lparr>bp_buf = ?enc @ drop (length ?enc) buf, bp_pos = length ?enc\<rparr>"
    using write_bytes_buf [OF w] by (simp add: bpb_new_def)
  have "from_buffer uni (bpb_new ?enc) = Inr (set_counts p, (bpb_new ?enc)\<lparr>bp_pos := length ?enc\<rparr>)"
    using reads_at [OF reads_packet [OF assms(1)], of "bpb_new ?enc" uni] at_bytes_whole [OF assms(2)]
    by (simp add: bpb_new_def)
  then show ?thesis
    using w b' packet_write_eq [OF packet_ok_short [OF assms(1)], of "bpb_new buf"]
    by (simp add: bpb_new_def)
qed

text \<open>
  C6: a packet of plain names and known record types that fits 512 bytes is written without an
  error, and the bytes written, sent as they are, parse back to the same packet (with the header's
  counts set to the lengths of its sections).
\<close>

theorem packet_write_read:
  assumes "packet_ok p" "length (enc_packet (set_counts p)) \<le> 512" "512 \<le> length buf"
  shows "\<exists>b'. packet_write p (bpb_new buf) = Inr (set_counts p, b')
    \<and> take (bp_pos b') (bp_buf b') = enc_packet (set_counts p)
    \<and> from_buffer uni (bpb_new (take (bp_pos b') (bp_buf b')))
        = Inr (set_counts p, \<lparr>bp_buf = enc_packet (set_counts p), bp_pos = bp_pos b'\<rparr>)"
  using packet_written [OF assms] by blast

lemma length_read_many: "read_many f n b = Inr (xs, b') \<Longrightarrow> length xs = n"
  by (induction n arbitrary: b xs) (auto simp: and_then_Inr_iff)

text \<open>
  A packet the parser accepts has as many questions and records in each section as its header
  announces, so \<^verbatim>\<open>questions[0]\<close> exists exactly when the header announces a question.
\<close>

theorem from_buffer_counts:
  assumes "from_buffer uni b = Inr (p, b')"
  shows "length (dp_questions p) = unat (questions_count (dp_header p))
    \<and> length (dp_answers p) = unat (answers_count (dp_header p))
    \<and> length (dp_authorities p) = unat (authoritative_entries (dp_header p))
    \<and> length (dp_resources p) = unat (resource_entries (dp_header p))"
  using assms
  by (auto simp: from_buffer_def read_questions_def read_records_def and_then_Inr_iff length_read_many)

lemma read_u16_short:
  "bp_pos b \<le> 510 \<Longrightarrow>
   bp_read_u16 b = (if bp_pos b + 2 \<le> length (bp_buf b)
     then Inr (of_be16 (bp_buf b ! bp_pos b) (bp_buf b ! (bp_pos b + 1)), b\<lparr>bp_pos := bp_pos b + 2\<rparr>)
     else Inl Panicked)"
  by (auto simp: bp_read_u16_def bp_read_def vec_get_def)

lemma from_buffer_short:
  assumes "length bs < 12"
  shows "from_buffer uni (bpb_new bs) = Inl Panicked"
proof -
  have "header_read (bpb_new bs) = Inl Panicked"
    using assms by (simp add: header_read_def bpb_new_def read_u16_short Let_def)
  then show ?thesis by (simp add: from_buffer_def)
qed

text \<open>
  A datagram shorter than the 12-byte header makes the parser panic instead of returning the
  error its callers handle: the end-of-buffer guard tests the constant 512, not the slice's length.
\<close>

theorem short_datagram_panics:
  assumes "length bs < 12"
  shows "from_buffer uni (bpb_new bs) = Inl Panicked"
  by (rule from_buffer_short [OF assms])

text \<open>
  The fuel of the name reader is exact: any larger number of iterations gives the same result,
  so \<^const>\<open>Diverged\<close> means that the code's loop never ends.
\<close>

theorem read_qname_fuel_exact:
  "read_qname_loop uni (qname_fuel + n) p j d out b = read_qname_loop uni qname_fuel p j d out b"
  using qname_loop_exact qname_loop_mono by metis


section \<open>Witnesses\<close>

text \<open>A query as \<^verbatim>\<open>MyDns\<close> sends it, for the name \<open>a.bc\<close>, with an answer to it.\<close>

definition example_name :: str where
  "example_name = [97, 46, 98, 99]"

definition example_packet :: dns_packet where
  "example_packet = dns_packet_new\<lparr>
     dp_header := dns_header_new\<lparr>dh_id := 6666, recursion_desired := True\<rparr>,
     dp_questions := [question_new example_name QA],
     dp_answers := [RA example_name (Ipv4Addr 10 0 0 1) 60]\<rparr>"

lemma example_packet_ok: "packet_ok example_packet"
  by (simp add: example_packet_def packet_ok_def flags_ok_def question_ok_def packet_records_def
      plain_name_def plain_label_def example_name_def dns_packet_new_def dns_header_new_def
      question_new_def dot_def ascii_lower_def query_type_from_num_def)

lemma example_packet_fits: "length (enc_packet (set_counts example_packet)) = 42"
  by (simp add: example_packet_def enc_packet_def set_counts_def dns_packet_new_def enc_header_def
      enc_question_def enc_qname_def example_name_def question_new_def enc_head_def dot_def)

theorem packet_write_read_witness:
  "\<exists>b'. packet_write example_packet (bpb_new (replicate 512 0)) = Inr (set_counts example_packet, b')
    \<and> take (bp_pos b') (bp_buf b') = enc_packet (set_counts example_packet)
    \<and> from_buffer id (bpb_new (take (bp_pos b') (bp_buf b')))
        = Inr (set_counts example_packet,
               \<lparr>bp_buf = enc_packet (set_counts example_packet), bp_pos = bp_pos b'\<rparr>)"
  by (rule packet_write_read) (simp_all add: example_packet_ok example_packet_fits)

definition query_header :: bytes where
  "query_header = [0x1A, 0x0A, 1, 0, 0, 1, 0, 0, 0, 0, 0, 0]"

theorem from_buffer_counts_witness:
  "\<exists>p b'. from_buffer id (bpb_new (query_header @ [1, 97, 0, 0, 1, 0, 1])) = Inr (p, b')
     \<and> length (dp_questions p) = unat (questions_count (dp_header p))
     \<and> length (dp_answers p) = unat (answers_count (dp_header p))
     \<and> length (dp_authorities p) = unat (authoritative_entries (dp_header p))
     \<and> length (dp_resources p) = unat (resource_entries (dp_header p))"
proof -
  have "\<not> isl (from_buffer id (bpb_new (query_header @ [1, 97, 0, 0, 1, 0, 1])))"
    by code_simp
  then obtain p b' where "from_buffer id (bpb_new (query_header @ [1, 97, 0, 0, 1, 0, 1])) = Inr (p, b')"
    by (metis sum.collapse(2) surj_pair)
  then show ?thesis using from_buffer_counts by blast
qed

theorem short_datagram_panics_witness: "from_buffer id (bpb_new [1, 2, 3]) = Inl Panicked"
  by (rule short_datagram_panics) simp


end
