(* ===== verification/Dns_Tunnel.thy ===== *)
theory Dns_Tunnel imports Tunnel Dns_Packet "HOL-Library.Signed_Division" begin

text \<open>
  \<^verbatim>\<open>src/dns/dnstunnel.rs\<close>: a tunnel that carries DNS datagrams to the relay's resolver and its replies
  back to the clients, with the round-trip times by which the forwarder chooses a tunnel.
\<close>

section \<open>State\<close>

record dns_tunnel =
  dt_tx :: chan
  dt_index :: nat
  dt_rtt_queue :: "i64 list"
  dt_rtt_index :: nat
  dt_rtt_sum :: i64
  dt_ping_count :: u8
  dt_time :: nat
  dt_udp_tx :: "chan option"
  dt_rawfd :: nat

text \<open>
  What the DNS half of the program does to its surroundings: an effect of a tunnel, a datagram for a
  client or a resolver, a netlink message to the kernel's IP sets, the names of a reply for the access
  log, and a dial of the relay.
\<close>

datatype dns_effect =
    DEff effect
  | UdpOut chan bytes socket_addr
  | NlSend bytes
  | DnsAdd chan "(str \<times> ip_addr) list"
  | DnsConnect nat str u16 str chan str

definition dns_tunnel_new :: "nat \<Rightarrow> chan \<Rightarrow> nat \<Rightarrow> chan \<Rightarrow> nat \<Rightarrow> dns_tunnel" where
  "dns_tunnel_new now tx rawfd udp_tx idx =
     \<lparr>dt_tx = tx, dt_index = idx, dt_rtt_queue = replicate 5 0, dt_rtt_index = 0, dt_rtt_sum = 0,
      dt_ping_count = 0, dt_time = now, dt_udp_tx = Some udp_tx, dt_rawfd = rawfd\<rparr>"

section \<open>Keep-alive\<close>

definition dt_get_elapsed_milliseconds :: "nat \<Rightarrow> dns_tunnel \<Rightarrow> u64" where
  "dt_get_elapsed_milliseconds now t = word_of_nat (now - dt_time t)"

definition dt_append_rtt :: "dns_tunnel \<Rightarrow> i64 \<Rightarrow> dns_tunnel res" where
  "dt_append_rtt t rtt =
     and_then (vec_get (dt_rtt_queue t) (dt_rtt_index t)) (\<lambda>rtt_remove.
     and_then (vec_set (dt_rtt_queue t) (dt_rtt_index t) rtt) (\<lambda>queue.
     Inr (t\<lparr>dt_rtt_queue := queue, dt_rtt_index := (dt_rtt_index t + 1) mod length queue,
            dt_rtt_sum := dt_rtt_sum t + rtt - rtt_remove\<rparr>)))"

text \<open>Division of \<^verbatim>\<open>i64\<close> rounds towards zero; a zero divisor panics.\<close>

definition get_rtt :: "dns_tunnel \<Rightarrow> int res" where
  "get_rtt t = (if dt_rtt_queue t = [] then Inl Panicked
     else Inr (sint (dt_rtt_sum t) sdiv int (length (dt_rtt_queue t))))"

definition dt_on_pong :: "nat \<Rightarrow> dns_tunnel \<Rightarrow> bytes \<Rightarrow> dns_tunnel res" where
  "dt_on_pong now t bs =
     (if length bs \<noteq> 8 then Inr t
      else
        let t = t\<lparr>dt_ping_count := 0\<rparr> in
        and_then (rd_u64 bs 0) (\<lambda>(timestamp, _).
        let in_ms = dt_get_elapsed_milliseconds now t in
        if in_ms < timestamp then Inl Panicked
        else dt_append_rtt t (in_ms - timestamp)))"

definition dt_send_ping ::
  "(chan \<Rightarrow> bool) \<Rightarrow> nat \<Rightarrow> dns_tunnel \<Rightarrow> (dns_tunnel \<times> effect list \<times> bool) res" where
  "dt_send_ping alive now t =
     (let ping_count = dt_ping_count t in
      if 5 < ping_count then Inr (t, [], False)
      else
        let timestamp = dt_get_elapsed_milliseconds now t in
        and_then (put_at 0 (le16 11) (replicate 11 0)) (\<lambda>bs.
        and_then (put_at 2 [cmd_code Ping] bs) (\<lambda>bs.
        and_then (put_at 3 (le64 timestamp) bs) (\<lambda>bs.
        case tx_send alive (dt_tx t) (wmessage_new bs 0) of
          (eff, False) \<Rightarrow> Inr (t, eff, True)
        | (eff, True) \<Rightarrow>
            let t = t\<lparr>dt_ping_count := dt_ping_count t + 1\<rparr> in
            and_then (if 0 < ping_count then dt_append_rtt t (ucast ping_count * KEEP_ALIVE_INTERVAL) else Inr t)
              (\<lambda>t. Inr (t, eff, True))))))"

definition dt_close_rawfd :: "dns_tunnel \<Rightarrow> effect list" where
  "dt_close_rawfd t = [ShutdownFd (dt_rawfd t)]"

section \<open>Queries\<close>

definition dt_on_dns_udp_msg :: "(chan \<Rightarrow> bool) \<Rightarrow> dns_tunnel \<Rightarrow> bytes \<Rightarrow> socket_addr \<Rightarrow> effect list res" where
  "dt_on_dns_udp_msg alive t message addr =
     (let port = sa_port addr;
          ip = (case sa_ip addr of V4 v4 \<Rightarrow> ipv4_to_u32 v4 | V6 _ \<Rightarrow> 0);
          hsize = 9;
          total = hsize + length message
      in
      and_then (put_at 0 (le16 (word_of_nat total)) (replicate total 0)) (\<lambda>buf.
      and_then (put_at 2 [cmd_code ReqData] buf) (\<lambda>buf.
      and_then (put_at 3 (le16 port) buf) (\<lambda>buf.
      and_then (put_at 5 (le32 ip) buf) (\<lambda>buf.
      and_then (put_at hsize message buf) (\<lambda>buf.
      Inr (fst (tx_send alive (dt_tx t) (wmessage_new buf 0)))))))))"

section \<open>Replies\<close>

definition dt_reply_ping :: "(chan \<Rightarrow> bool) \<Rightarrow> dns_tunnel \<Rightarrow> rmessage \<Rightarrow> effect list res" where
  "dt_reply_ping alive t msg =
     and_then (put_at 2 [cmd_code Pong] (rm_buf msg)) (\<lambda>vec.
     Inr (fst (tx_send alive (dt_tx t) (wmessage_new vec 0))))"

definition rd_u32 :: "bytes \<Rightarrow> nat \<Rightarrow> (u32 \<times> nat) res" where
  "rd_u32 bs i = (if i + 4 \<le> length bs
     then Inr (of_le32 (bs ! i) (bs ! (i + 1)) (bs ! (i + 2)) (bs ! (i + 3)), i + 4) else Inl Panicked)"

text \<open>A datagram for the client, which \<^verbatim>\<open>tx.send(..).unwrap()\<close> panics about when the UDP server is gone.\<close>

definition udp_send_unwrap :: "(chan \<Rightarrow> bool) \<Rightarrow> chan \<Rightarrow> bytes \<Rightarrow> socket_addr \<Rightarrow> dns_effect list res" where
  "udp_send_unwrap alive tx content sa = (if alive tx then Inr [UdpOut tx content sa] else Inl Panicked)"

text \<open>\<open>save_ipset\<close> is the method of the forwarder that the dispatcher is handed.\<close>

definition dt_on_tunnel_msg ::
  "(bytes \<Rightarrow> bytes) \<Rightarrow> (chan \<Rightarrow> bool) \<Rightarrow> nat \<Rightarrow> (dns_packet \<Rightarrow> dns_effect list res) \<Rightarrow> dns_tunnel \<Rightarrow> rmessage
   \<Rightarrow> (dns_tunnel \<times> dns_effect list) res" where
  "dt_on_tunnel_msg uni alive now save_ipset t msg =
     and_then (slice_from 2 (rm_buf msg)) (\<lambda>bs.
     and_then (rd_u8 bs 0) (\<lambda>(cmd, _).
     and_then (slice_from 1 bs) (\<lambda>bs.
     and_then (cmd_from cmd) (\<lambda>cmd.
     case cmd of
       Ping \<Rightarrow> and_then (dt_reply_ping alive t msg) (\<lambda>eff. Inr (t, map DEff eff))
     | Pong \<Rightarrow> and_then (dt_on_pong now t bs) (\<lambda>t. Inr (t, []))
     | ReqData \<Rightarrow>
         if length bs < 6 then Inr (t, [])
         else
           (case dt_udp_tx t of
              Some tx \<Rightarrow>
                and_then (rd_u16 bs 0) (\<lambda>(port, off).
                and_then (rd_u32 bs off) (\<lambda>(ip32, off).
                let content = drop 6 bs in
                and_then (match_result (from_buffer uni (bpb_new content)) (\<lambda>(p, _). save_ipset p) (Inr [])) (\<lambda>eff.
                and_then (udp_send_unwrap alive tx content (SocketAddr (V4 (ipv4_of_u32 ip32)) port)) (\<lambda>eff2.
                Inr (t, eff @ eff2)))))
            | None \<Rightarrow> Inr (t, []))
     | _ \<Rightarrow> Inr (t, [])))))"

section \<open>The same keep-alive as a request tunnel\<close>

text \<open>A DNS tunnel seen as a tunnel without requests: the duplicated keep-alive code is the same code.\<close>

definition tunnel_of :: "dns_tunnel \<Rightarrow> tunnel" where
  "tunnel_of t =
     \<lparr>tn_tx = dt_tx t, tn_udpx_tx = None, tn_index = dt_index t, tn_requests = reqq_new 0, tn_capacity = 0,
      tn_rtt_queue = dt_rtt_queue t, tn_rtt_index = dt_rtt_index t, tn_rtt_sum = dt_rtt_sum t, tn_req_count = 0,
      tn_ping_count = dt_ping_count t, tn_time = dt_time t, tn_rawfd = dt_rawfd t, tn_busy = 0,
      tn_request_quota = 0\<rparr>"

lemma tunnel_of_sel [simp]:
  "tn_tx (tunnel_of t) = dt_tx t" "tn_rtt_queue (tunnel_of t) = dt_rtt_queue t"
  "tn_rtt_index (tunnel_of t) = dt_rtt_index t" "tn_rtt_sum (tunnel_of t) = dt_rtt_sum t"
  "tn_ping_count (tunnel_of t) = dt_ping_count t" "tn_time (tunnel_of t) = dt_time t"
  by (simp_all add: tunnel_of_def)

lemma tunnel_of_upd [simp]:
  "(tunnel_of t)\<lparr>tn_ping_count := c\<rparr> = tunnel_of (t\<lparr>dt_ping_count := c\<rparr>)"
  "(tunnel_of t)\<lparr>tn_rtt_queue := q, tn_rtt_index := i, tn_rtt_sum := s\<rparr>
   = tunnel_of (t\<lparr>dt_rtt_queue := q, dt_rtt_index := i, dt_rtt_sum := s\<rparr>)"
  by (simp_all add: tunnel_of_def)

lemma append_rtt_of: "append_rtt (tunnel_of t) rtt = and_then (dt_append_rtt t rtt) (\<lambda>t. Inr (tunnel_of t))"
  by (simp add: append_rtt_def dt_append_rtt_def and_then_assoc)

lemma elapsed_of: "get_elapsed_milliseconds now (tunnel_of t) = dt_get_elapsed_milliseconds now t"
  by (simp add: get_elapsed_milliseconds_def dt_get_elapsed_milliseconds_def)

lemma on_pong_of: "on_pong now (tunnel_of t) bs = and_then (dt_on_pong now t bs) (\<lambda>t. Inr (tunnel_of t))"
  by (auto simp: on_pong_def dt_on_pong_def Let_def and_then_assoc append_rtt_of elapsed_of
      dt_get_elapsed_milliseconds_def intro!: and_then_eqI)

lemma send_ping_of:
  "send_ping alive now (tunnel_of t) = and_then (dt_send_ping alive now t) (\<lambda>(t, eff, b). Inr (tunnel_of t, eff, b))"
  by (auto simp: send_ping_def dt_send_ping_def Let_def and_then_assoc append_rtt_of elapsed_of
      intro!: and_then_eqI split: prod.splits bool.splits)

definition dt_ok :: "dns_tunnel \<Rightarrow> bool" where
  "dt_ok t \<longleftrightarrow> rtt_ok (tunnel_of t)"

lemma dt_ok_tunnel_ok: "dt_ok t \<longleftrightarrow> tunnel_ok (tunnel_of t)"
proof -
  have "reqs_ok (tunnel_of t)" using reqq_new_ok [of 0] by (simp add: reqs_ok_def tunnel_of_def reqq_live_new) (simp add: reqq_new_def)
  then show ?thesis by (simp add: dt_ok_def tunnel_ok_def)
qed

lemma dns_tunnel_new_ok [simp]: "dt_ok (dns_tunnel_new now tx rawfd udp_tx idx)"
  by (simp add: dt_ok_def rtt_ok_def dns_tunnel_new_def numeral_eq_Suc)

lemma dt_send_ping_ok:
  assumes "dt_ok t"
  shows "\<exists>t' eff b. dt_send_ping alive now t = Inr (t', eff, b) \<and> dt_ok t' \<and> (b \<longleftrightarrow> dt_ping_count t \<le> 5)"
proof -
  obtain u eff b where u: "send_ping alive now (tunnel_of t) = Inr (u, eff, b)" "tunnel_ok u" "b \<longleftrightarrow> dt_ping_count t \<le> 5"
    using send_ping_ok [of "tunnel_of t" alive now] assms by (auto simp: dt_ok_tunnel_ok)
  then obtain t' where "dt_send_ping alive now t = Inr (t', eff, b)" "u = tunnel_of t'"
    by (auto simp: send_ping_of res_simps split: prod.splits)
  then show ?thesis using u by (auto simp: dt_ok_tunnel_ok)
qed

lemma dt_append_rtt_ok:
  assumes "dt_ok t"
  shows "\<exists>t'. dt_append_rtt t rtt = Inr t' \<and> dt_ok t'"
  using append_rtt_ok [of "tunnel_of t" rtt] assms by (auto simp: dt_ok_def append_rtt_of res_simps)

lemma dt_on_pong_ok:
  assumes "dt_ok t" "dt_on_pong now t bs = Inr t'"
  shows "dt_ok t'"
proof -
  have ok: "dt_ok (t\<lparr>dt_ping_count := 0\<rparr>)" using assms(1) by (simp add: dt_ok_def rtt_ok_def)
  show ?thesis
  proof (cases "length bs = 8")
    case True
    then obtain rtt where "dt_append_rtt (t\<lparr>dt_ping_count := 0\<rparr>) rtt = Inr t'"
      using assms(2) by (auto simp: dt_on_pong_def Let_def res_simps split: if_splits)
    then show ?thesis using dt_append_rtt_ok [OF ok, of rtt] by simp
  next
    case False
    then show ?thesis using assms by (simp add: dt_on_pong_def)
  qed
qed

lemma get_rtt_ok:
  assumes "dt_ok t"
  shows "get_rtt t = Inr (sint (dt_rtt_sum t) sdiv 5)"
  using assms by (auto simp: get_rtt_def dt_ok_def rtt_ok_def)

lemma sdiv_5_bound: "- (2 ^ 63) \<le> x \<Longrightarrow> x < 2 ^ 63 \<Longrightarrow> x sdiv 5 < (2 :: int) ^ 63 - 1"
  by (auto simp: signed_divide_int_def sgn_if)

lemma get_rtt_less:
  assumes "dt_ok t" "get_rtt t = Inr r"
  shows "r < 2 ^ 63 - 1"
proof -
  have "- (2 ^ (LENGTH(64) - 1)) \<le> sint (dt_rtt_sum t)" "sint (dt_rtt_sum t) < 2 ^ (LENGTH(64) - 1)"
    by (rule sint_ge, rule sint_lt)
  then have "- (2 ^ 63) \<le> sint (dt_rtt_sum t)" "sint (dt_rtt_sum t) < 2 ^ 63" by simp_all
  from sdiv_5_bound [OF this] show ?thesis using assms get_rtt_ok by simp
qed

section \<open>Questions and answers\<close>

lemma rd_u32_append [simp, codec_simps]:
  "length pre = n \<Longrightarrow> rd_u32 (pre @ le32 v @ rest) n = Inr (v, n + 4)"
  by (auto simp: rd_u32_def nth_append le32_def of_le32_inverse [unfolded le32_def])

definition dns_body :: "u16 \<Rightarrow> u32 \<Rightarrow> bytes \<Rightarrow> bytes" where
  "dns_body port ip payload = le16 port @ le32 ip @ payload"

fun client_u32 :: "ip_addr \<Rightarrow> u32" where
  "client_u32 (V4 a) = ipv4_to_u32 a"
| "client_u32 (V6 a) = 0"

lemma dt_query_message:
  "dt_on_dns_udp_msg alive t message addr =
   Inr (fst (tx_send alive (dt_tx t)
     (wmessage_new (tun_msg ReqData (dns_body (sa_port addr) (client_u32 (sa_ip addr)) message)) 0)))"
proof -
  have n: "replicate (9 + length message) (0 :: u8) = replicate 9 0 @ replicate (length message) 0"
    by (rule replicate_add)
  show ?thesis
    by (cases "sa_ip addr")
      (simp_all add: dt_on_dns_udp_msg_def Let_def n put_at_def tun_msg_def dns_body_def le16_def le32_def
        numeral_eq_Suc)
qed

lemma dt_reply_dispatch:
  assumes "rm_buf msg = tun_msg ReqData (dns_body port ip content)" "dt_udp_tx t = Some tx"
  shows "dt_on_tunnel_msg uni alive now save t msg =
    and_then (match_result (from_buffer uni (bpb_new content)) (\<lambda>(p, _). save p) (Inr [])) (\<lambda>eff.
    and_then (udp_send_unwrap alive tx content (SocketAddr (V4 (ipv4_of_u32 ip)) port)) (\<lambda>eff2.
    Inr (t, eff @ eff2)))"
proof -
  let ?bs = "le16 port @ le32 ip @ content"
  have "slice_from 2 (tun_msg ReqData (dns_body port ip content)) = Inr (cmd_code ReqData # ?bs)"
    by (simp add: tun_msg_def dns_body_def slice_from_def le16_def numeral_2_eq_2)
  moreover have "rd_u16 ?bs 0 = Inr (port, 2)" using rd_u16_append [of "[]" 0 port] by simp
  moreover have "rd_u32 ?bs 2 = Inr (ip, 6)" using rd_u32_append [of "le16 port" 2 ip] by (simp add: le16_def)
  moreover have "drop 6 ?bs = content" "\<not> length ?bs < 6" by (simp_all add: le16_def le32_def)
  moreover have "cmd_from (cmd_code ReqData) = Inr ReqData" by (simp add: cmd_from_def)
  ultimately show ?thesis
    using assms by (simp add: dt_on_tunnel_msg_def rd_u8_def slice_from_def)
qed

end
