(* ===== verification/Resolver.thy ===== *)
theory Resolver imports Dns_Tunnel Config begin

text \<open>
  \<^verbatim>\<open>src/dns/udpserv.rs\<close>, the UDP socket the clients ask, and \<^verbatim>\<open>src/dns/lresolver.rs\<close>, the socket to the
  local DNS server with its memo of who asked what. The memo's contract, a memory of two generations,
  is stated as a locale.
\<close>

section \<open>The clients' socket\<close>

text \<open>Binding a socket is a parameter: \<open>None\<close> is an error (of the address or of the system), \<open>Some tx\<close> the
  channel whose receiver feeds the new socket.\<close>

type_synonym udp_bind = "str \<Rightarrow> chan option"

record udp_server =
  us_listen_addr :: str
  us_tx :: "chan option"
  us_trigger :: bool

definition us_new :: "str \<Rightarrow> udp_server" where
  "us_new addr = \<lparr>us_listen_addr = addr, us_tx = None, us_trigger = False\<rparr>"

text \<open>\<open>created\<close> is the forwarder's \<^verbatim>\<open>on_dns_udp_created\<close>, called with the server once its sender is set.\<close>

definition us_start ::
  "udp_bind \<Rightarrow> (udp_server \<Rightarrow> dns_effect list res) \<Rightarrow> udp_server \<Rightarrow> (udp_server \<times> dns_effect list) res" where
  "us_start bind created s =
     (case bind (us_listen_addr s) of
        None \<Rightarrow> Inl IoError
      | Some tx \<Rightarrow>
          let s = s\<lparr>us_tx := Some tx, us_trigger := True\<rparr> in
          and_then (created s) (\<lambda>eff. Inr (s, eff)))"

definition us_stop :: "udp_server \<Rightarrow> udp_server" where
  "us_stop s = s\<lparr>us_tx := None, us_trigger := False\<rparr>"

definition us_reply :: "(chan \<Rightarrow> bool) \<Rightarrow> udp_server \<Rightarrow> bytes \<Rightarrow> socket_addr \<Rightarrow> dns_effect list" where
  "us_reply alive s bm sa =
     (case us_tx s of Some tx \<Rightarrow> if alive tx then [UdpOut tx bm sa] else [] | None \<Rightarrow> [])"

section \<open>The local resolver\<close>

text \<open>\<open>lr_fw\<close> is whether the handle of the forwarder is held.\<close>

record lresolver =
  lr_listen_addr :: str
  lr_tx :: "chan option"
  lr_trigger :: bool
  lr_request_memo_history :: "str \<rightharpoonup> socket_addr"
  lr_request_memo :: "str \<rightharpoonup> socket_addr"
  lr_dns_server_addr :: socket_addr
  lr_fw :: bool

definition lr_new :: "(str \<Rightarrow> socket_addr option) \<Rightarrow> str \<Rightarrow> lresolver res" where
  "lr_new parse_addr local_dns_server =
     and_then (unwrap (parse_addr local_dns_server)) (\<lambda>a.
     Inr \<lparr>lr_listen_addr = lit ''0.0.0.0:0'', lr_tx = None, lr_trigger = False,
          lr_request_memo_history = Map.empty, lr_request_memo = Map.empty, lr_dns_server_addr = a,
          lr_fw = False\<rparr>)"

definition lr_start :: "udp_bind \<Rightarrow> lresolver \<Rightarrow> lresolver res" where
  "lr_start bind r =
     (case bind (lr_listen_addr r) of
        None \<Rightarrow> Inl IoError
      | Some tx \<Rightarrow> Inr (r\<lparr>lr_fw := True, lr_tx := Some tx, lr_trigger := True\<rparr>))"

text \<open>The handle is taken before the new socket is bound: an error leaves the resolver without it.\<close>

definition lr_try_rebuild :: "udp_bind \<Rightarrow> lresolver \<Rightarrow> (lresolver \<times> bool) res" where
  "lr_try_rebuild bind r =
     (if \<not> lr_fw r then Inl Panicked
      else
        let r = r\<lparr>lr_fw := False\<rparr> in
        match_result (lr_start bind r) (\<lambda>r. Inr (r, True)) (Inr (r, False)))"

definition lr_invalid_tx :: "lresolver \<Rightarrow> lresolver" where
  "lr_invalid_tx r = r\<lparr>lr_tx := None, lr_trigger := False\<rparr>"

definition lr_stop :: "lresolver \<Rightarrow> lresolver" where
  "lr_stop r = r\<lparr>lr_tx := None, lr_trigger := False, lr_fw := False\<rparr>"

definition lr_key :: "str \<Rightarrow> u16 \<Rightarrow> str" where
  "lr_key qname identify = qname @ lit '':'' @ dec_digits (unat identify)"

definition lr_take :: "lresolver \<Rightarrow> str \<Rightarrow> u16 \<Rightarrow> lresolver \<times> socket_addr option" where
  "lr_take r qname identify =
     (let key = lr_key qname identify in
      if lr_request_memo_history r key \<noteq> None then
        (r\<lparr>lr_request_memo_history := (lr_request_memo_history r)(key := None)\<rparr>, lr_request_memo_history r key)
      else (r\<lparr>lr_request_memo := (lr_request_memo r)(key := None)\<rparr>, lr_request_memo r key))"

definition lr_keepalive :: "lresolver \<Rightarrow> lresolver" where
  "lr_keepalive r =
     r\<lparr>lr_request_memo_history := Map.empty ++ lr_request_memo r, lr_request_memo := Map.empty\<rparr>"

definition lr_request ::
  "(chan \<Rightarrow> bool) \<Rightarrow> udp_bind \<Rightarrow> lresolver \<Rightarrow> str \<Rightarrow> u16 \<Rightarrow> bytes \<Rightarrow> socket_addr
   \<Rightarrow> (lresolver \<times> dns_effect list) res" where
  "lr_request alive bind r qname identify bm src_addr =
     and_then
       (if lr_tx r = None then if \<not> lr_fw r then Inr (r, False) else lr_try_rebuild bind r else Inr (r, True))
       (\<lambda>(r, ready).
     if \<not> ready then Inr (r, [])
     else
       (case lr_tx r of
          Some tx \<Rightarrow>
            Inr (r\<lparr>lr_request_memo := (lr_request_memo r)(lr_key qname identify \<mapsto> src_addr)\<rparr>,
                 if alive tx then [UdpOut tx bm (lr_dns_server_addr r)] else [])
        | None \<Rightarrow> Inr (r, [])))"

section \<open>A memory of two generations\<close>

text \<open>
  What the forwarder needs of the memo: an entry is remembered until it is recalled or has aged twice.
\<close>

locale two_generations =
  fixes young :: "'s \<Rightarrow> 'k \<rightharpoonup> 'a"
    and old :: "'s \<Rightarrow> 'k \<rightharpoonup> 'a"
    and remember :: "'s \<Rightarrow> 'k \<Rightarrow> 'a \<Rightarrow> 's"
    and recall :: "'s \<Rightarrow> 'k \<Rightarrow> 's \<times> 'a option"
    and age :: "'s \<Rightarrow> 's"
  assumes remember_young: "young (remember s k a) = (young s)(k \<mapsto> a)"
    and remember_old: "old (remember s k a) = old s"
    and age_young: "young (age s) = Map.empty"
    and age_old: "old (age s) = young s"
    and recall_answer: "snd (recall s k) = (case old s k of Some a \<Rightarrow> Some a | None \<Rightarrow> young s k)"
    and recall_young: "young (fst (recall s k)) = (if old s k = None then (young s)(k := None) else young s)"
    and recall_old: "old (fst (recall s k)) = (old s)(k := None)"
begin

definition knows :: "'s \<Rightarrow> 'k \<Rightarrow> 'a option" where
  "knows s k = (case old s k of Some a \<Rightarrow> Some a | None \<Rightarrow> young s k)"

lemma recall_knows: "snd (recall s k) = knows s k"
  by (simp add: recall_answer knows_def)

lemma recall_once: "old s k = None \<or> young s k = None \<Longrightarrow> knows (fst (recall s k)) k = None"
  by (auto simp: knows_def recall_old recall_young)

lemma other_key:
  "k' \<noteq> k \<Longrightarrow> knows (remember s k' a) k = knows s k"
  "k' \<noteq> k \<Longrightarrow> knows (fst (recall s k')) k = knows s k"
  by (auto simp: knows_def remember_young remember_old recall_old recall_young split: option.splits)

text \<open>How old the entry of a key is: \<open>n\<close> rounds after it was remembered, and recalled by nobody since.\<close>

definition aged :: "'s \<Rightarrow> 'k \<Rightarrow> 'a \<Rightarrow> nat \<Rightarrow> bool" where
  "aged s k a n \<longleftrightarrow> young s k = (if n = 0 then Some a else None) \<and> old s k = (if n = 1 then Some a else None)"

lemma aged_remember: "old s k = None \<Longrightarrow> aged (remember s k a) k a 0"
  by (simp add: aged_def remember_young remember_old)

lemma aged_age: "aged s k a n \<Longrightarrow> aged (age s) k a (Suc n)"
  by (simp add: aged_def age_young age_old)

lemma aged_other:
  "aged s k a n \<Longrightarrow> k' \<noteq> k \<Longrightarrow> aged (remember s k' b) k a n"
  "aged s k a n \<Longrightarrow> k' \<noteq> k \<Longrightarrow> aged (fst (recall s k')) k a n"
  by (auto simp: aged_def remember_young remember_old recall_young recall_old)

lemma aged_knows: "aged s k a n \<Longrightarrow> knows s k = (if n \<le> 1 then Some a else None)"
  by (auto simp: aged_def knows_def)

lemma aged_recall:
  "aged s k a n \<Longrightarrow> snd (recall s k) = (if n \<le> 1 then Some a else None) \<and> knows (fst (recall s k)) k = None"
  using aged_knows [of s k a n] recall_once [of s k] by (auto simp: recall_knows aged_def split: if_splits)

end

section \<open>The memo keeps the contract\<close>

definition memo_remember :: "lresolver \<Rightarrow> str \<times> u16 \<Rightarrow> socket_addr \<Rightarrow> lresolver" where
  "memo_remember r k a = r\<lparr>lr_request_memo := (lr_request_memo r)(lr_key (fst k) (snd k) \<mapsto> a)\<rparr>"

definition memo_young :: "lresolver \<Rightarrow> str \<times> u16 \<rightharpoonup> socket_addr" where
  "memo_young r k = lr_request_memo r (lr_key (fst k) (snd k))"

definition memo_old :: "lresolver \<Rightarrow> str \<times> u16 \<rightharpoonup> socket_addr" where
  "memo_old r k = lr_request_memo_history r (lr_key (fst k) (snd k))"

text \<open>The key text determines the name and the identity: digits hold no colon, so the last colon ends the name.\<close>

lemma lr_key_inject: "lr_key q i = lr_key q' i' \<longleftrightarrow> q = q' \<and> i = i'"
proof
  assume eq: "lr_key q i = lr_key q' i'"
  have nc: "(58 :: u8) \<notin> set (dec_digits n)" for n using dec_digits_range [of 58 n] by auto
  have split: "takeWhile (\<lambda>c. c \<noteq> 58) (rev (lr_key p j)) = rev (dec_digits (unat j))" for p j
    using nc [of "unat j"] by (auto simp: lr_key_def lit_def takeWhile_tail takeWhile_append2)
  have "dec_digits (unat i) = dec_digits (unat i')" using split [of q i] split [of q' i'] eq by simp
  then have "i = i'" by (simp add: word_unat_eq_iff)
  then show "q = q' \<and> i = i'" using eq by (simp add: lr_key_def)
qed simp

interpretation memo: two_generations memo_young memo_old memo_remember "\<lambda>r k. lr_take r (fst k) (snd k)" lr_keepalive
proof (unfold_locales, goal_cases)
  case (6 s k)
  show ?case by (auto simp: memo_young_def memo_old_def lr_take_def Let_def lr_key_inject prod_eq_iff fun_eq_iff)
next
  case (7 s k)
  show ?case by (auto simp: memo_young_def memo_old_def lr_take_def Let_def lr_key_inject prod_eq_iff fun_eq_iff)
qed (auto simp: memo_young_def memo_old_def memo_remember_def lr_keepalive_def lr_take_def Let_def
       lr_key_inject prod_eq_iff fun_eq_iff split: option.splits)

section \<open>Histories of the resolver\<close>

datatype lr_op =
    LRequest str u16 bytes socket_addr
  | LTake str u16
  | LKeepalive
  | LClosed

fun lr_step :: "(chan \<Rightarrow> bool) \<Rightarrow> udp_bind \<Rightarrow> lresolver \<Rightarrow> lr_op \<Rightarrow> lresolver res" where
  "lr_step alive bind r (LRequest q i bm a) = and_then (lr_request alive bind r q i bm a) (\<lambda>(r, eff). Inr r)"
| "lr_step alive bind r (LTake q i) = Inr (fst (lr_take r q i))"
| "lr_step alive bind r LKeepalive = Inr (lr_keepalive r)"
| "lr_step alive bind r LClosed = Inr (lr_invalid_tx r)"

fun op_key :: "lr_op \<Rightarrow> (str \<times> u16) option" where
  "op_key (LRequest q i bm a) = Some (q, i)"
| "op_key (LTake q i) = Some (q, i)"
| "op_key LKeepalive = None"
| "op_key LClosed = None"

lemma memo_cong:
  "lr_request_memo r' = lr_request_memo r \<Longrightarrow> lr_request_memo_history r' = lr_request_memo_history r \<Longrightarrow>
   memo.aged r' k a n = memo.aged r k a n"
  by (simp add: memo.aged_def memo_young_def memo_old_def)

text \<open>A request either only touches the socket, or remembers its client; it never panics.\<close>

lemma lr_request_cases:
  obtains r' where "lr_request alive bind r q i bm a = Inr (r', [])"
    "lr_request_memo r' = lr_request_memo r" "lr_request_memo_history r' = lr_request_memo_history r"
  | r' eff where "lr_request alive bind r q i bm a = Inr (memo_remember r' (q, i) a, eff)"
    "lr_request_memo r' = lr_request_memo r" "lr_request_memo_history r' = lr_request_memo_history r"
  by (cases "lr_tx r"; cases "lr_fw r"; cases "bind (lr_listen_addr r)")
    (auto simp: lr_request_def lr_try_rebuild_def lr_start_def Let_def memo_remember_def)

lemma lr_step_aged:
  assumes "memo.aged r k a n" "op_key op \<noteq> Some k"
  shows "\<exists>r'. lr_step alive bind r op = Inr r' \<and> memo.aged r' k a (if op = LKeepalive then Suc n else n)"
proof (cases op)
  case (LRequest q i bm b)
  then have ne: "(q, i) \<noteq> k" using assms(2) by simp
  show ?thesis
  proof (rule lr_request_cases [of alive bind r q i bm b])
    fix r' assume r: "lr_request alive bind r q i bm b = Inr (r', [])" "lr_request_memo r' = lr_request_memo r"
      "lr_request_memo_history r' = lr_request_memo_history r"
    show ?thesis using LRequest assms(1) r(1) memo_cong [OF r(2,3)] by simp
  next
    fix r' eff assume r: "lr_request alive bind r q i bm b = Inr (memo_remember r' (q, i) b, eff)"
      "lr_request_memo r' = lr_request_memo r" "lr_request_memo_history r' = lr_request_memo_history r"
    have "memo.aged r' k a n" using assms(1) memo_cong [OF r(2,3)] by simp
    then have "memo.aged (memo_remember r' (q, i) b) k a n" using ne by (rule memo.aged_other(1))
    then show ?thesis using LRequest r(1) by simp
  qed
next
  case (LTake q i)
  then show ?thesis using assms memo.aged_other(2) [OF assms(1), of "(q, i)"] by auto
next
  case LKeepalive
  then show ?thesis using memo.aged_age [OF assms(1)] by simp
next
  case LClosed
  then show ?thesis using assms memo_cong [of "lr_invalid_tx r" r] by (simp add: lr_invalid_tx_def)
qed

lemma lr_run_aged:
  "memo.aged r k a n \<Longrightarrow> (\<And>op. op \<in> set ops \<Longrightarrow> op_key op \<noteq> Some k) \<Longrightarrow>
   \<exists>r'. fold_res (lr_step alive bind) r ops = Inr r' \<and> memo.aged r' k a (n + count_list ops LKeepalive)"
proof (induction ops arbitrary: r n)
  case (Cons op ops)
  obtain r1 where r1: "lr_step alive bind r op = Inr r1" "memo.aged r1 k a (if op = LKeepalive then Suc n else n)"
    using lr_step_aged [OF Cons.prems(1), of op alive bind] Cons.prems(2) [of op] by auto
  show ?case using Cons.IH [OF r1(2)] Cons.prems(2) r1(1) by (auto split: if_splits)
qed simp

section \<open>Properties\<close>


definition sample_lr :: lresolver where
  "sample_lr = \<lparr>lr_listen_addr = lit ''0.0.0.0:0'', lr_tx = Some 7, lr_trigger = True,
     lr_request_memo_history = Map.empty, lr_request_memo = Map.empty,
     lr_dns_server_addr = SocketAddr (V4 (Ipv4Addr 223 5 5 5)) 53, lr_fw = True\<rparr>"

definition sample_client :: socket_addr where
  "sample_client = SocketAddr (V4 (Ipv4Addr 192 168 1 9)) 4242"


text \<open>
  When the socket to the local server is lost and binding a new one fails once, the resolver is dead
  for good: every later question is dropped without a word to the client, even when binding would
  succeed again, because the handle needed to rebuild was taken and not put back.
\<close>

theorem failed_rebuild_is_final:
  assumes "lr_tx r = None" "lr_fw r" "bind (lr_listen_addr r) = None"
  shows "\<exists>r'. lr_request alive bind r q i bm src = Inr (r', []) \<and>
    (\<forall>bind2 ops. (\<forall>op \<in> set ops. \<exists>q i bm a. op = LRequest q i bm a) \<longrightarrow>
       fold_res (lr_step alive bind2) r' ops = Inr r')"
proof -
  let ?r = "r\<lparr>lr_fw := False\<rparr>"
  have "lr_request alive bind r q i bm src = Inr (?r, [])"
    using assms by (simp add: lr_request_def lr_try_rebuild_def lr_start_def)
  moreover have "fold_res (lr_step alive bind2) ?r ops = Inr ?r"
    if "\<forall>op \<in> set ops. \<exists>q i bm a. op = LRequest q i bm a" for bind2 ops
    using that assms(1) by (induction ops) (auto simp: lr_request_def)
  ultimately show ?thesis by blast
qed

lemma failed_rebuild_is_final_witness:
  "\<exists>r'. lr_request (\<lambda>_. True) (\<lambda>_. None) (lr_invalid_tx sample_lr) (lit ''a.b'') 6 [1] sample_client = Inr (r', []) \<and>
    (\<forall>bind2 ops. (\<forall>op \<in> set ops. \<exists>q i bm a. op = LRequest q i bm a) \<longrightarrow>
       fold_res (lr_step (\<lambda>_. True) bind2) r' ops = Inr r')"
  by (rule failed_rebuild_is_final) (simp_all add: sample_lr_def lr_invalid_tx_def)

end
