(* ===== verification/Domain_Map.thy ===== *)
theory Domain_Map imports Dns_Buffer "HOL-Library.Sublist" begin

text \<open>
  \<^verbatim>\<open>DomainMap\<close> of \<^verbatim>\<open>src/dns/domap.rs\<close>: a trie of domain labels, top-level label first, that decides
  which names go through the tunnel. \<^verbatim>\<open>insert\<close> and \<^verbatim>\<open>has\<close> recurse on an index into the label vector;
  the specification below says which names the map answers for after any sequence of insertions.
\<close>

section \<open>The trie\<close>

datatype sub_domain = SubDomain (leaf: bool) (next_subdomains: "str \<Rightarrow> sub_domain option")

definition sub_new :: sub_domain where
  "sub_new = SubDomain False (\<lambda>_. None)"

definition get_or_insert :: "sub_domain \<Rightarrow> str \<Rightarrow> sub_domain" where
  "get_or_insert t domain =
     (case next_subdomains t domain of None \<Rightarrow> sub_new | Some s \<Rightarrow> s)"

text \<open>
  \<^verbatim>\<open>insert(parts, idx)\<close> and \<^verbatim>\<open>has(parts, idx)\<close>: \<^verbatim>\<open>parts[idx]\<close> panics past the end; the recursion is on
  the labels that are left.
\<close>

function sub_insert :: "sub_domain \<Rightarrow> str list \<Rightarrow> nat \<Rightarrow> sub_domain res" where
  "sub_insert t parts idx =
     and_then (vec_get parts idx) (\<lambda>domain.
       let subdomain = get_or_insert t domain; nxt = idx + 1
       in and_then (if nxt < length parts then sub_insert subdomain parts nxt
                    else Inr (SubDomain True (next_subdomains subdomain)))
            (\<lambda>subdomain. Inr (SubDomain (leaf t) ((next_subdomains t)(domain \<mapsto> subdomain)))))"
  by pat_completeness auto
termination
  by (relation "measure (\<lambda>(t, parts, idx). length parts - idx)") auto

function sub_has :: "sub_domain \<Rightarrow> str list \<Rightarrow> nat \<Rightarrow> bool res" where
  "sub_has t parts idx =
     and_then (vec_get parts idx) (\<lambda>domain.
       case next_subdomains t domain of
         Some s \<Rightarrow>
           if leaf s \<or> length parts \<le> idx + 1 then Inr True else sub_has s parts (idx + 1)
       | None \<Rightarrow> Inr False)"
  by pat_completeness auto
termination
  by (relation "measure (\<lambda>(t, parts, idx). length parts - idx)") auto

declare sub_insert.simps [simp del] sub_has.simps [simp del]

section \<open>The map\<close>

record domain_map =
  dm_root :: sub_domain

definition domain_map_new :: domain_map where
  "domain_map_new = \<lparr>dm_root = sub_new\<rparr>"

definition domain_insert :: "domain_map \<Rightarrow> str \<Rightarrow> domain_map res" where
  "domain_insert m domain =
     (let vec = rev (split_on dot domain) in
      if length vec < 2 then Inr m
      else and_then (vec_get vec 0) (\<lambda>top.
        if length top < 1 then Inr m
        else and_then (sub_insert (dm_root m) vec 0) (\<lambda>r. Inr (m\<lparr>dm_root := r\<rparr>))))"

definition domain_has :: "domain_map \<Rightarrow> str \<Rightarrow> bool res" where
  "domain_has m domain =
     (let vec = rev (split_on dot domain) in
      if length vec < 2 then Inr False
      else sub_has (dm_root m) vec 0)"

section \<open>Paths in the trie\<close>

text \<open>The same operations along the list of labels still to go.\<close>

fun ins :: "str list \<Rightarrow> sub_domain \<Rightarrow> sub_domain" where
  "ins [] t = SubDomain True (next_subdomains t)"
| "ins (x # xs) t = SubDomain (leaf t) ((next_subdomains t)(x \<mapsto> ins xs (get_or_insert t x)))"

fun hit :: "str list \<Rightarrow> sub_domain \<Rightarrow> bool" where
  "hit [] t \<longleftrightarrow> True"
| "hit (x # xs) t \<longleftrightarrow>
     (case next_subdomains t x of None \<Rightarrow> False | Some s \<Rightarrow> leaf s \<or> hit xs s)"

lemma sub_insert_ins:
  "idx < length parts \<Longrightarrow>
   sub_insert t parts idx = Inr (ins (drop idx parts) t)"
proof (induction t parts idx rule: sub_insert.induct)
  case (1 t parts idx)
  then have d: "drop idx parts = parts ! idx # drop (idx + 1) parts" by (simp add: Cons_nth_drop_Suc)
  show ?case
  proof (cases "idx + 1 < length parts")
    case True
    then show ?thesis using 1 by (subst sub_insert.simps) (simp add: d Let_def del: drop_Suc)
  next
    case False
    then show ?thesis using 1(2) by (subst sub_insert.simps) (simp add: d Let_def)
  qed
qed

lemma sub_has_hit:
  "idx < length parts \<Longrightarrow> sub_has t parts idx = Inr (hit (drop idx parts) t)"
proof (induction t parts idx rule: sub_has.induct)
  case (1 t parts idx)
  then have d: "drop idx parts = parts ! idx # drop (idx + 1) parts" by (simp add: Cons_nth_drop_Suc)
  show ?case
  proof (cases "idx + 1 < length parts")
    case True
    then show ?thesis using 1 by (subst sub_has.simps) (auto simp: d split: option.split)
  next
    case False
    then show ?thesis using 1(2) by (subst sub_has.simps) (auto simp: d split: option.split)
  qed
qed

fun leaf_at :: "str list \<Rightarrow> sub_domain \<Rightarrow> bool" where
  "leaf_at [] t \<longleftrightarrow> leaf t"
| "leaf_at (x # xs) t \<longleftrightarrow>
     (case next_subdomains t x of None \<Rightarrow> False | Some s \<Rightarrow> leaf_at xs s)"

fun node_at :: "str list \<Rightarrow> sub_domain \<Rightarrow> bool" where
  "node_at [] t \<longleftrightarrow> True"
| "node_at (x # xs) t \<longleftrightarrow>
     (case next_subdomains t x of None \<Rightarrow> False | Some s \<Rightarrow> node_at xs s)"

lemma sub_new_empty [simp]: "\<not> leaf_at p sub_new" "node_at p sub_new \<longleftrightarrow> p = []"
  by (cases p; simp add: sub_new_def)+

lemma leaf_at_ins: "leaf_at q (ins p t) \<longleftrightarrow> q = p \<or> leaf_at q t"
proof (induction p t arbitrary: q rule: ins.induct)
  case (1 t)
  then show ?case by (cases q) simp_all
next
  case (2 x xs t)
  then show ?case by (cases q) (auto simp: get_or_insert_def split: option.splits)
qed

lemma node_at_ins: "node_at q (ins p t) \<longleftrightarrow> prefix q p \<or> node_at q t"
proof (induction p t arbitrary: q rule: ins.induct)
  case (1 t)
  then show ?case by (cases q) simp_all
next
  case (2 x xs t)
  then show ?case by (cases q) (auto simp: get_or_insert_def split: option.splits)
qed

lemma hit_iff:
  "hit xs t \<longleftrightarrow> node_at xs t \<or> (\<exists>p. p \<noteq> [] \<and> prefix p xs \<and> leaf_at p t)"
proof (induction xs t rule: hit.induct)
  case (1 t)
  then show ?case by simp
next
  case (2 x xs t)
  show ?case
  proof (cases "next_subdomains t x")
    case None
    then show ?thesis by (auto simp: prefix_Cons)
  next
    case (Some s)
    have "(\<exists>p. p \<noteq> [] \<and> prefix p (x # xs) \<and> leaf_at p t) \<longleftrightarrow>
        leaf s \<or> (\<exists>p. p \<noteq> [] \<and> prefix p xs \<and> leaf_at p s)" (is "?l \<longleftrightarrow> ?r")
    proof
      assume ?l
      then obtain p where "prefix p xs" "leaf_at p s" using Some by (auto simp: prefix_Cons)
      then show ?r by (cases p) auto
    next
      assume ?r
      then show ?l
      proof (elim disjE exE conjE)
        assume "leaf s"
        then show ?l using Some by (intro exI [of _ "[x]"]) simp
      next
        fix p assume "prefix p xs" "leaf_at p s"
        then show ?l using Some by (intro exI [of _ "x # p"]) simp
      qed
    qed
    then show ?thesis using 2 Some by auto
  qed
qed

section \<open>The contract: a set of accepted names\<close>

text \<open>
  What the forwarder needs of the map: building it from a list never fails, and asking it is
  asking whether some accepted name of the list matches.
\<close>

locale domain_filter =
  fixes empty :: 'm and insert :: "'m \<Rightarrow> str \<Rightarrow> 'm res" and has :: "'m \<Rightarrow> str \<Rightarrow> bool res"
    and names :: "'m \<Rightarrow> str set" and inv :: "'m \<Rightarrow> bool"
    and accepts :: "str \<Rightarrow> bool" and matches :: "str \<Rightarrow> str \<Rightarrow> bool"
  assumes inv_empty: "inv empty" and names_empty: "names empty = {}"
    and insert_ok: "inv m \<Longrightarrow> \<exists>m'. insert m d = Inr m' \<and> inv m'
          \<and> names m' = names m \<union> (if accepts d then {d} else {})"
    and has_ok: "inv m \<Longrightarrow> has m q = Inr (\<exists>d \<in> names m. matches d q)"
begin

lemma insert_all:
  "inv m \<Longrightarrow> \<exists>m'. fold_res insert m ds = Inr m' \<and> inv m' \<and> names m' = names m \<union> {d \<in> set ds. accepts d}"
proof (induction ds arbitrary: m)
  case Nil
  then show ?case by simp
next
  case (Cons d ds)
  obtain m1 where m1: "insert m d = Inr m1" "inv m1" "names m1 = names m \<union> (if accepts d then {d} else {})"
    using insert_ok [OF Cons.prems, of d] by blast
  from Cons.IH [OF m1(2)] show ?case using m1 by auto
qed

lemma build_has:
  "\<exists>m. fold_res insert empty ds = Inr m \<and> inv m
     \<and> (\<forall>q. has m q = Inr (\<exists>d \<in> set ds. accepts d \<and> matches d q))"
proof -
  obtain m where "fold_res insert empty ds = Inr m" "inv m" "names m = {d \<in> set ds. accepts d}"
    using insert_all [OF inv_empty, of ds] names_empty by auto
  then show ?thesis using has_ok by auto
qed

lemma has_mono:
  "inv m \<Longrightarrow> insert m d = Inr m' \<Longrightarrow> has m q = Inr True \<Longrightarrow> has m' q = Inr True"
  using insert_ok [of m d] has_ok [of m q] has_ok [of m' q] by auto

end

text \<open>The names the map keeps, and when a kept name answers for a queried one.\<close>

definition domain_accepts :: "str \<Rightarrow> bool" where
  "domain_accepts d \<longleftrightarrow> 2 \<le> length (split_on dot d) \<and> last (split_on dot d) \<noteq> []"

definition domain_matches :: "str \<Rightarrow> str \<Rightarrow> bool" where
  "domain_matches d q \<longleftrightarrow> 2 \<le> length (split_on dot q)
     \<and> (suffix (split_on dot d) (split_on dot q) \<or> suffix (split_on dot q) (split_on dot d))"

definition domain_path :: "str \<Rightarrow> str list" where
  "domain_path d = rev (split_on dot d)"

definition domain_names :: "domain_map \<Rightarrow> str set" where
  "domain_names m = {d. leaf_at (domain_path d) (dm_root m)}"

text \<open>Every node lies on the path of a kept name, and every leaf is the path of one.\<close>

definition domain_inv :: "domain_map \<Rightarrow> bool" where
  "domain_inv m \<longleftrightarrow>
     (\<forall>p. leaf_at p (dm_root m) \<longrightarrow> (\<exists>d. p = domain_path d \<and> domain_accepts d))
     \<and> (\<forall>p. p \<noteq> [] \<longrightarrow> node_at p (dm_root m) \<longrightarrow> (\<exists>q. prefix p q \<and> leaf_at q (dm_root m)))"

lemma domain_path_inj: "domain_path d = domain_path e \<longleftrightarrow> d = e"
  by (metis domain_path_def join_split rev_rev_ident)

lemma domain_insert_eq:
  "domain_insert m d =
     Inr (if domain_accepts d then m\<lparr>dm_root := ins (domain_path d) (dm_root m)\<rparr> else m)"
proof (cases "2 \<le> length (split_on dot d)")
  case True
  then have ne: "rev (split_on dot d) \<noteq> []" "0 < length (rev (split_on dot d))" by auto
  then have top: "rev (split_on dot d) ! 0 = last (split_on dot d)"
    by (simp add: rev_nth last_conv_nth)
  show ?thesis using True sub_insert_ins [OF ne(2), of "dm_root m"] top
    by (auto simp: domain_insert_def domain_accepts_def domain_path_def Let_def)
next
  case False
  then show ?thesis by (simp add: domain_insert_def domain_accepts_def Let_def)
qed

lemma domain_has_eq:
  "domain_has m q = Inr (2 \<le> length (split_on dot q) \<and> hit (domain_path q) (dm_root m))"
  by (auto simp: domain_has_def domain_path_def Let_def sub_has_hit)

lemma node_at_prefix: "leaf_at q t \<Longrightarrow> prefix p q \<Longrightarrow> node_at p t"
proof (induction p arbitrary: q t)
  case Nil
  then show ?case by simp
next
  case (Cons x p)
  then show ?case by (auto simp: prefix_def split: option.splits)
qed

lemma domain_path_not_Nil [simp]: "domain_path d \<noteq> []"
  by (simp add: domain_path_def)

lemma hit_domain:
  assumes "domain_inv m"
  shows "hit (domain_path q) (dm_root m) \<longleftrightarrow>
      (\<exists>d. leaf_at (domain_path d) (dm_root m) \<and>
        (prefix (domain_path d) (domain_path q) \<or> prefix (domain_path q) (domain_path d)))"
    (is "?hit \<longleftrightarrow> ?names")
proof
  assume ?hit
  then obtain p where p: "leaf_at p (dm_root m)" "prefix p (domain_path q) \<or> prefix (domain_path q) p"
    using assms domain_path_not_Nil unfolding hit_iff domain_inv_def by metis
  then obtain d where "p = domain_path d" using assms unfolding domain_inv_def by metis
  with p show ?names by metis
next
  assume ?names
  then obtain d where "leaf_at (domain_path d) (dm_root m)"
    "prefix (domain_path d) (domain_path q) \<or> prefix (domain_path q) (domain_path d)" by metis
  then show ?hit using node_at_prefix domain_path_not_Nil unfolding hit_iff by metis
qed

interpretation domain_trie: domain_filter domain_map_new domain_insert domain_has domain_names domain_inv
  domain_accepts domain_matches
proof
  show "domain_inv domain_map_new" "domain_names domain_map_new = {}"
    by (simp_all add: domain_inv_def domain_names_def domain_map_new_def)
next
  fix m d
  assume inv: "domain_inv m"
  show "\<exists>m'. domain_insert m d = Inr m' \<and> domain_inv m'
      \<and> domain_names m' = domain_names m \<union> (if domain_accepts d then {d} else {})"
    using inv unfolding domain_insert_eq domain_inv_def domain_names_def
    by (auto simp: leaf_at_ins node_at_ins domain_path_inj)
next
  fix m q
  assume inv: "domain_inv m"
  show "domain_has m q = Inr (\<exists>d\<in>domain_names m. domain_matches d q)"
    using hit_domain [OF inv, of q]
    by (auto simp: domain_has_eq domain_names_def domain_matches_def domain_path_def suffix_to_prefix)
qed

section \<open>Properties\<close>

text \<open>
  C24: building the map from any list of names never panics, and the map then answers for exactly
  the names that are, label by label, a subdomain or a parent domain of a listed name of at least
  two labels.
\<close>

theorem domain_map_answers:
  "\<exists>m. fold_res domain_insert domain_map_new ds = Inr m
     \<and> (\<forall>q. domain_has m q =
          Inr (\<exists>d \<in> set ds. domain_accepts d \<and> 2 \<le> length (split_on dot q)
                \<and> (suffix (split_on dot d) (split_on dot q) \<or> suffix (split_on dot q) (split_on dot d))))"
  using domain_trie.build_has [of ds] by (auto simp: domain_matches_def)

text \<open>
  A name once answered for stays answered for, whatever is inserted later.
\<close>

theorem domain_has_monotone:
  assumes "domain_inv m" "domain_insert m d = Inr m'" "domain_has m q = Inr True"
  shows "domain_has m' q = Inr True"
  using assms by (rule domain_trie.has_mono)

theorem domain_has_monotone_witness:
  "domain_has (\<lparr>dm_root = ins (domain_path [98, 46, 99]) (ins (domain_path [97, 46, 99]) sub_new)\<rparr>) [97, 46, 99]
     = Inr True"
proof -
  let ?m = "domain_map_new\<lparr>dm_root := ins (domain_path [97, 46, 99]) (dm_root domain_map_new)\<rparr>"
  have acc: "domain_accepts [97, 46, 99]" "domain_accepts [98, 46, 99]"
    by (simp_all add: domain_accepts_def dot_def)
  have inv: "domain_inv ?m"
    using domain_trie.insert_ok [OF domain_trie.inv_empty, of "[97, 46, 99]"] acc
    by (auto simp: domain_insert_eq)
  have "domain_has ?m [97, 46, 99] = Inr True"
    by (simp add: domain_has_eq domain_path_def domain_map_new_def dot_def get_or_insert_def sub_new_def)
  from domain_has_monotone [OF inv _ this, of "[98, 46, 99]"] show ?thesis
    using acc by (simp add: domain_insert_eq domain_map_new_def)
qed

end
