(* ===== verification/Netlink.thy ===== *)
theory Netlink imports Net_Addr Dns_Buffer begin

text \<open>
  \<^verbatim>\<open>src/dns/netlink.rs\<close>: the messages that add an address to a kernel IP set, written field by field
  into a caller's buffer, and the parser of CIDR ranges. The byte order of the target
  (\<^verbatim>\<open>NativeEndian\<close>) is the parameter \<open>big\<close>; the socket is in Sockets.
\<close>

section \<open>Headers and attributes\<close>

definition ne16 :: "bool \<Rightarrow> u16 \<Rightarrow> bytes" where
  "ne16 big v = (if big then be16 v else le16 v)"

definition ne32 :: "bool \<Rightarrow> u32 \<Rightarrow> bytes" where
  "ne32 big v = (if big then be32 v else le32 v)"

definition NLM_F_REQUEST :: u16 where "NLM_F_REQUEST = 1"
definition IPSET_CMD_ADD :: u16 where "IPSET_CMD_ADD = 9"
definition NFNL_SUBSYS_IPSET :: u16 where "NFNL_SUBSYS_IPSET = 6"
definition IPSET_PROTOCOL :: u8 where "IPSET_PROTOCOL = 6"
definition IPSET_ATTR_PROTOCOL :: u16 where "IPSET_ATTR_PROTOCOL = 1"
definition IPSET_ATTR_SETNAME :: u16 where "IPSET_ATTR_SETNAME = 2"
definition NLA_F_NESTED :: u16 where "NLA_F_NESTED = push_bit 15 1"
definition IPSET_ATTR_DATA :: u16 where "IPSET_ATTR_DATA = 7"
definition IPSET_ATTR_IPADDR_IPV4 :: u16 where "IPSET_ATTR_IPADDR_IPV4 = 1"
definition IPSET_ATTR_IPADDR_IPV6 :: u16 where "IPSET_ATTR_IPADDR_IPV6 = 2"
definition IPSET_ATTR_IP :: u16 where "IPSET_ATTR_IP = 1"
definition IPSET_ATTR_CIDR :: u16 where "IPSET_ATTR_CIDR = 3"
definition NLA_F_NET_BYTEORDER :: u16 where "NLA_F_NET_BYTEORDER = push_bit 14 1"
definition AF_INET :: u8 where "AF_INET = 2"

record nl_msg_hdr =
  nh_length :: u32
  nh_message_type :: u16
  nh_flags :: u16
  nh_sequence_number :: u32
  nh_port_number :: u32

definition align4 :: "nat \<Rightarrow> u32" where
  "align4 len = ucast ((word_of_nat (len + 3) :: u64) AND NOT 3)"

definition nl_msg_hdr_new :: nl_msg_hdr where
  "nl_msg_hdr_new = \<lparr>nh_length = 0, nh_message_type = IPSET_CMD_ADD OR push_bit 8 NFNL_SUBSYS_IPSET,
     nh_flags = NLM_F_REQUEST, nh_sequence_number = 0, nh_port_number = 0\<rparr>"

definition hdr_align_size :: u32 where
  "hdr_align_size = 16"

definition hdr_write_to :: "bool \<Rightarrow> nl_msg_hdr \<Rightarrow> nat \<Rightarrow> bytes \<Rightarrow> bytes res" where
  "hdr_write_to big h off out =
     and_then (put_at off (ne32 big (nh_length h)) out) (\<lambda>out.
     and_then (put_at (off + 4) (ne16 big (nh_message_type h)) out) (\<lambda>out.
     and_then (put_at (off + 6) (ne16 big (nh_flags h)) out) (\<lambda>out.
     and_then (put_at (off + 8) (ne32 big (nh_sequence_number h)) out) (\<lambda>out.
     put_at (off + 12) (ne32 big (nh_port_number h)) out))))"

record nf_gen_msg =
  nfgen_family :: u8
  nf_version :: u8
  nf_res_id :: u16

definition nf_gen_msg_new :: "u8 \<Rightarrow> nf_gen_msg" where
  "nf_gen_msg_new af = \<lparr>nfgen_family = af, nf_version = 0, nf_res_id = 0\<rparr>"

definition nfg_align_size :: u32 where
  "nfg_align_size = align4 4"

definition nfg_write_to :: "bool \<Rightarrow> nf_gen_msg \<Rightarrow> nat \<Rightarrow> bytes \<Rightarrow> bytes res" where
  "nfg_write_to big g off out =
     and_then (put_at off [nfgen_family g] out) (\<lambda>out.
     and_then (put_at (off + 1) [nf_version g] out) (\<lambda>out.
     put_at (off + 2) (ne16 big (nf_res_id g)) out))"

record nl_attr =
  nla_len :: u16
  nla_type :: u16

definition nl_attr_new_data :: "u16 \<Rightarrow> u16 \<Rightarrow> nl_attr" where
  "nl_attr_new_data ty data_len = \<lparr>nla_len = ucast (align4 4) + data_len, nla_type = ty\<rparr>"

definition attr_align_size :: "nl_attr \<Rightarrow> u32" where
  "attr_align_size a = align4 (unat (nla_len a))"

definition attr_write_to :: "bool \<Rightarrow> nl_attr \<Rightarrow> nat \<Rightarrow> bytes \<Rightarrow> bytes res" where
  "attr_write_to big a off out =
     and_then (put_at off (ne16 big (nla_len a)) out) (\<lambda>out.
     put_at (off + 2) (ne16 big (nla_type a)) out)"

section \<open>The messages\<close>

definition construct_iphash_packet :: "bool \<Rightarrow> str \<Rightarrow> bytes \<Rightarrow> bytes \<Rightarrow> (u32 \<times> bytes) res" where
  "construct_iphash_packet big setname ipvec out =
    (let nfg = nf_gen_msg_new AF_INET;
         attr1 = nl_attr_new_data IPSET_ATTR_PROTOCOL 1;
         attr2 = nl_attr_new_data IPSET_ATTR_SETNAME (word_of_nat (length setname));
         iplen = length ipvec;
         ipaddr_type = (if 4 < iplen then IPSET_ATTR_IPADDR_IPV6 else IPSET_ATTR_IPADDR_IPV4);
         attr5 = nl_attr_new_data (ipaddr_type OR NLA_F_NET_BYTEORDER) (word_of_nat iplen);
         attr4 = nl_attr_new_data (NLA_F_NESTED OR IPSET_ATTR_IP) (ucast (attr_align_size attr5));
         attr3 = nl_attr_new_data (NLA_F_NESTED OR IPSET_ATTR_DATA) (ucast (attr_align_size attr4));
         len = hdr_align_size + nfg_align_size + attr_align_size attr1 + attr_align_size attr2
               + attr_align_size attr3;
         hdr = nl_msg_hdr_new\<lparr>nh_length := len\<rparr>;
         w1 = hdr_align_size;
         w2 = w1 + nfg_align_size;
         w3 = w2 + attr_align_size attr1;
         w4 = w3 + attr_align_size attr2;
         w5 = w4 + align4 4;
         w6 = w5 + align4 4;
         w7 = w6 + align4 4
     in
     and_then (hdr_write_to big hdr 0 out) (\<lambda>out.
     and_then (nfg_write_to big nfg (unat w1) out) (\<lambda>out.
     and_then (attr_write_to big attr1 (unat w2) out) (\<lambda>out.
     and_then (put_at (unat (w2 + align4 4)) [IPSET_PROTOCOL] out) (\<lambda>out.
     and_then (attr_write_to big attr2 (unat w3) out) (\<lambda>out.
     and_then (put_at (unat (w3 + align4 4)) setname out) (\<lambda>out.
     and_then (attr_write_to big attr3 (unat w4) out) (\<lambda>out.
     and_then (attr_write_to big attr4 (unat w5) out) (\<lambda>out.
     and_then (attr_write_to big attr5 (unat w6) out) (\<lambda>out.
     and_then (put_at (unat w7) ipvec out) (\<lambda>out. Inr (len, out))))))))))))"

definition construct_v4nethash_packet ::
  "bool \<Rightarrow> str \<Rightarrow> bytes \<Rightarrow> u8 \<Rightarrow> bytes \<Rightarrow> (u32 \<times> bytes) res" where
  "construct_v4nethash_packet big setname ipvec prefix_len out =
    (let nfg = nf_gen_msg_new AF_INET;
         attr1 = nl_attr_new_data IPSET_ATTR_PROTOCOL 1;
         attr2 = nl_attr_new_data IPSET_ATTR_SETNAME (word_of_nat (length setname));
         iplen = length ipvec;
         attr6 = nl_attr_new_data IPSET_ATTR_CIDR 1;
         attr5 = nl_attr_new_data (IPSET_ATTR_IPADDR_IPV4 OR NLA_F_NET_BYTEORDER) (word_of_nat iplen);
         attr4 = nl_attr_new_data (NLA_F_NESTED OR IPSET_ATTR_IP) (ucast (attr_align_size attr5));
         attr3 = nl_attr_new_data (NLA_F_NESTED OR IPSET_ATTR_DATA)
                   (ucast (attr_align_size attr4 + attr_align_size attr6));
         len = hdr_align_size + nfg_align_size + attr_align_size attr1 + attr_align_size attr2
               + attr_align_size attr3;
         hdr = nl_msg_hdr_new\<lparr>nh_length := len\<rparr>;
         w1 = hdr_align_size;
         w2 = w1 + nfg_align_size;
         w3 = w2 + attr_align_size attr1;
         w4 = w3 + attr_align_size attr2;
         w5 = w4 + align4 4;
         w6 = w5 + align4 4;
         w7 = w6 + align4 4;
         w8 = w6 + attr_align_size attr5;
         w9 = w8 + align4 4
     in
     and_then (hdr_write_to big hdr 0 out) (\<lambda>out.
     and_then (nfg_write_to big nfg (unat w1) out) (\<lambda>out.
     and_then (attr_write_to big attr1 (unat w2) out) (\<lambda>out.
     and_then (put_at (unat (w2 + align4 4)) [IPSET_PROTOCOL] out) (\<lambda>out.
     and_then (attr_write_to big attr2 (unat w3) out) (\<lambda>out.
     and_then (put_at (unat (w3 + align4 4)) setname out) (\<lambda>out.
     and_then (attr_write_to big attr3 (unat w4) out) (\<lambda>out.
     and_then (attr_write_to big attr4 (unat w5) out) (\<lambda>out.
     and_then (attr_write_to big attr5 (unat w6) out) (\<lambda>out.
     and_then (put_at (unat w7) ipvec out) (\<lambda>out.
     and_then (attr_write_to big attr6 (unat w8) out) (\<lambda>out.
     and_then (put_at (unat w9) [prefix_len] out) (\<lambda>out. Inr (len, out))))))))))))))"

section \<open>CIDR ranges\<close>

record ipv4_range =
  ir_addr :: ipv4_addr
  ir_mask :: u8

definition slash :: u8 where
  "slash = 47"

text \<open>
  \<open>parse_u8\<close> and \<open>parse_v4\<close> are the standard library's \<^verbatim>\<open>str::parse\<close> at \<^verbatim>\<open>u8\<close> and at \<^verbatim>\<open>Ipv4Addr\<close>
  (the latter has changed its mind about leading zeros between releases).
\<close>

definition ipv4range_parse ::
  "(str \<Rightarrow> u8 option) \<Rightarrow> (str \<Rightarrow> ipv4_addr option) \<Rightarrow> str \<Rightarrow> ipv4_range res" where
  "ipv4range_parse parse_u8 parse_v4 ipstr =
     (let vec = split_on slash ipstr in
      and_then (vec_get vec 0) (\<lambda>iponly.
      and_then (if 1 < length vec then vec_get vec 1 else Inr (lit ''32'')) (\<lambda>mask.
      case parse_u8 mask of
        None \<Rightarrow> Inl ParseError
      | Some mask_u8 \<Rightarrow>
          (case parse_v4 iponly of
             None \<Rightarrow> Inl ParseError
           | Some ip \<Rightarrow> Inr \<lparr>ir_addr = ip, ir_mask = mask_u8\<rparr>))))"

section \<open>The netlink attribute format\<close>

text \<open>An attribute: its length without padding, its type, its payload, zeros up to a multiple of 4.\<close>

definition pad4 :: "nat \<Rightarrow> nat" where
  "pad4 n = 4 * ((n + 3) div 4)"

definition nla :: "bool \<Rightarrow> u16 \<Rightarrow> bytes \<Rightarrow> bytes" where
  "nla big ty payload = ne16 big (word_of_nat (4 + length payload)) @ ne16 big ty @ payload
     @ replicate (pad4 (length payload) - length payload) 0"

definition nl_message :: "bool \<Rightarrow> bytes \<Rightarrow> bytes" where
  "nl_message big attrs = ne32 big (word_of_nat (20 + length attrs)) @ ne16 big 0x0609 @ ne16 big 1
     @ ne32 big 0 @ ne32 big 0 @ [AF_INET, 0] @ ne16 big 0 @ attrs"

definition iphash_message :: "bool \<Rightarrow> str \<Rightarrow> bytes \<Rightarrow> bytes" where
  "iphash_message big setname ip = nl_message big
     (nla big IPSET_ATTR_PROTOCOL [IPSET_PROTOCOL] @ nla big IPSET_ATTR_SETNAME setname
      @ nla big (NLA_F_NESTED OR IPSET_ATTR_DATA)
          (nla big (NLA_F_NESTED OR IPSET_ATTR_IP)
            (nla big ((if 4 < length ip then IPSET_ATTR_IPADDR_IPV6 else IPSET_ATTR_IPADDR_IPV4)
                      OR NLA_F_NET_BYTEORDER) ip)))"

definition nethash_message :: "bool \<Rightarrow> str \<Rightarrow> bytes \<Rightarrow> u8 \<Rightarrow> bytes" where
  "nethash_message big setname ip prefix_len = nl_message big
     (nla big IPSET_ATTR_PROTOCOL [IPSET_PROTOCOL] @ nla big IPSET_ATTR_SETNAME setname
      @ nla big (NLA_F_NESTED OR IPSET_ATTR_DATA)
          (nla big (NLA_F_NESTED OR IPSET_ATTR_IP)
            (nla big (IPSET_ATTR_IPADDR_IPV4 OR NLA_F_NET_BYTEORDER) ip)
           @ nla big IPSET_ATTR_CIDR [prefix_len]))"

lemma length_ne [simp, codec_simps]: "length (ne16 big v) = 2" "length (ne32 big w) = 4"
  by (simp_all add: ne16_def ne32_def)

lemma pad4_bounds: "n \<le> pad4 n" "pad4 n < n + 4" "pad4 (n + 4) = pad4 n + 4"
  by (simp_all add: pad4_def, presburger+)

lemma length_nla [simp]: "length (nla big ty payload) = 4 + pad4 (length payload)"
  using pad4_bounds(1) [of "length payload"] by (simp add: nla_def)

lemma clear_low_2: "(w :: u64) AND NOT 3 = push_bit 2 (drop_bit 2 w)"
proof -
  have three: "(3 :: u64) = mask 2" by (simp add: mask_eq_exp_minus_1)
  have up: "2 \<le> n \<Longrightarrow> Suc (Suc (n - 2)) = n" for n :: nat by simp
  show ?thesis unfolding three by (rule bit_word_eqI) (auto simp: bit_simps up)
qed

lemma align4_eq: "n < 2 ^ 31 \<Longrightarrow> align4 n = word_of_nat (pad4 n)"
proof -
  assume n: "n < 2 ^ 31"
  have "(word_of_nat (n + 3) :: u64) AND NOT 3 = push_bit 2 (drop_bit 2 (word_of_nat (n + 3)))"
    by (rule clear_low_2)
  also have "\<dots> = word_of_nat (pad4 n)"
  proof -
    have "unat (drop_bit 2 (word_of_nat m :: u64)) = m div 4" if "m < 2 ^ 32" for m
      using that by (simp only: unat_drop_bit_eq) (simp add: drop_bit_eq_div unat_of_nat take_bit_nat_eq_self)
    from this [of "n + 3"] have "unat (drop_bit 2 (word_of_nat (n + 3) :: u64)) = (n + 3) div 4"
      using n by simp
    then have "drop_bit 2 (word_of_nat (n + 3) :: u64) = word_of_nat ((n + 3) div 4)"
      using unat_of_nat_less [of "(n + 3) div 4", where 'a = 64] n by (simp add: word_unat_eq_iff)
    then show ?thesis by (simp add: pad4_def push_bit_eq_mult)
  qed
  finally have "align4 n = ucast (word_of_nat (pad4 n) :: u64)" by (simp only: align4_def)
  moreover have "pad4 n < 2 ^ 64" using pad4_bounds(2) [of n] n by simp
  ultimately show ?thesis by (simp add: unsigned_of_nat take_bit_nat_eq_self)
qed

lemma put_at_zeros:
  "length pre + k = off \<Longrightarrow> off + length vs \<le> length pre + n \<Longrightarrow>
   put_at off vs (pre @ replicate n 0) = Inr (pre @ replicate k 0 @ vs @ replicate (n - k - length vs) 0)"
  by (auto simp: put_at_def)

text \<open>The writers put their block behind what is already written, into zeros.\<close>

definition hdr_bytes :: "bool \<Rightarrow> nl_msg_hdr \<Rightarrow> bytes" where
  "hdr_bytes big h = ne32 big (nh_length h) @ ne16 big (nh_message_type h) @ ne16 big (nh_flags h)
     @ ne32 big (nh_sequence_number h) @ ne32 big (nh_port_number h)"

lemma hdr_write_at:
  "16 \<le> n \<Longrightarrow> hdr_write_to big h 0 (replicate n 0) = Inr (hdr_bytes big h @ replicate (n - 16) 0)"
  using put_at_end [of "[]" 0 "ne32 big (nh_length h)" n]
  by (simp add: hdr_write_to_def hdr_bytes_def put_at_def) arith

lemma nfg_write_at:
  "length pre = off \<Longrightarrow> 4 \<le> n \<Longrightarrow> nfg_write_to big g off (pre @ replicate n 0)
   = Inr ((pre @ [nfgen_family g, nf_version g] @ ne16 big (nf_res_id g)) @ replicate (n - 4) 0)"
  by (simp add: nfg_write_to_def put_at_def) (auto simp: numeral_eq_Suc)

definition attr_bytes :: "bool \<Rightarrow> nl_attr \<Rightarrow> bytes" where
  "attr_bytes big a = ne16 big (nla_len a) @ ne16 big (nla_type a)"

lemma length_attr_bytes [simp]: "length (attr_bytes big a) = 4"
  by (simp add: attr_bytes_def)

lemma attr_write_at:
  "length pre + k = off \<Longrightarrow> k + 4 \<le> n \<Longrightarrow> attr_write_to big a off (pre @ replicate n 0)
   = Inr ((pre @ replicate k 0 @ attr_bytes big a) @ replicate (n - k - 4) 0)"
  by (auto simp: attr_write_to_def put_at_def attr_bytes_def)

lemma unat_small: "n < 2 ^ 32 \<Longrightarrow> unat (word_of_nat n :: u32) = n"
  by (simp add: unat_of_nat_less)

lemma attr_new_data:
  "n < 1000 \<Longrightarrow> nl_attr_new_data ty (word_of_nat n) = \<lparr>nla_len = word_of_nat (4 + n), nla_type = ty\<rparr>"
  by (simp add: nl_attr_new_data_def align4_eq pad4_def)

lemma attr_align_new:
  "n < 1000 \<Longrightarrow> attr_align_size \<lparr>nla_len = word_of_nat (4 + n), nla_type = ty\<rparr> = word_of_nat (4 + pad4 n)"
proof -
  assume n: "n < 1000"
  have "unat (word_of_nat (4 + n) :: u16) = 4 + n"
    using n by (intro unat_of_nat_less) simp
  then show ?thesis using n pad4_bounds(3) [of n]
    by (simp only: attr_align_size_def nl_attr.select_convs) (simp add: align4_eq add.commute)
qed

section \<open>The messages are the nested attributes\<close>

definition set_room :: "str \<Rightarrow> bytes \<Rightarrow> bool" where
  "set_room setname ip \<longleftrightarrow> length setname \<le> 100 \<and> length ip \<le> 64"

lemma align4_4 [simp]: "align4 4 = 4"
  by (simp add: align4_eq pad4_def)

lemma ucast_32_16: "n < 2 ^ 16 \<Longrightarrow> (ucast (word_of_nat n :: u32) :: u16) = word_of_nat n"
  by (simp add: unsigned_of_nat take_bit_nat_eq_self)

lemma pad4_shift: "pad4 (4 + pad4 n) = 4 + pad4 n" "pad4 (8 + pad4 n) = 8 + pad4 n"
  "pad4 (16 + pad4 n) = 16 + pad4 n"
  by (simp_all add: pad4_def)

text \<open>An attribute record for a payload of \<open>n\<close> bytes: what is written and how much it takes.\<close>

lemma attr_for:
  assumes "n < 900"
  shows "attr_align_size (nl_attr_new_data ty (word_of_nat n)) = word_of_nat (4 + pad4 n)"
    and "attr_bytes big (nl_attr_new_data ty (word_of_nat n)) = ne16 big (word_of_nat (4 + n)) @ ne16 big ty"
    and "(ucast (attr_align_size (nl_attr_new_data ty (word_of_nat n))) :: u16) = word_of_nat (4 + pad4 n)"
proof -
  show a: "attr_align_size (nl_attr_new_data ty (word_of_nat n)) = word_of_nat (4 + pad4 n)"
    using assms by (simp only: attr_new_data attr_align_new)
  show "attr_bytes big (nl_attr_new_data ty (word_of_nat n)) = ne16 big (word_of_nat (4 + n)) @ ne16 big ty"
    using assms by (simp add: attr_new_data attr_bytes_def)
  have "4 + pad4 n < 2 ^ 16" using assms pad4_bounds(2) [of n] by simp
  then show "(ucast (attr_align_size (nl_attr_new_data ty (word_of_nat n))) :: u16) = word_of_nat (4 + pad4 n)"
    unfolding a by (rule ucast_32_16)
qed

text \<open>What both messages write up to the set's name.\<close>

definition nl_front :: "bool \<Rightarrow> u32 \<Rightarrow> bytes" where
  "nl_front big len = ne32 big len @ ne16 big 0x0609 @ ne16 big 1
     @ ne32 big 0 @ ne32 big 0 @ [AF_INET, 0] @ ne16 big 0 @ nla big IPSET_ATTR_PROTOCOL [IPSET_PROTOCOL]"

lemma length_nl_front [simp]: "length (nl_front big len) = 28"
  by (simp add: nl_front_def pad4_def)

definition front_steps :: "bool \<Rightarrow> str \<Rightarrow> u32 \<Rightarrow> bytes \<Rightarrow> bytes res" where
  "front_steps big setname len out =
     and_then (hdr_write_to big (nl_msg_hdr_new\<lparr>nh_length := len\<rparr>) 0 out) (\<lambda>out.
     and_then (nfg_write_to big (nf_gen_msg_new AF_INET) 16 out) (\<lambda>out.
     and_then (attr_write_to big (nl_attr_new_data IPSET_ATTR_PROTOCOL 1) 20 out) (\<lambda>out.
     and_then (put_at 24 [IPSET_PROTOCOL] out) (\<lambda>out.
     and_then (attr_write_to big (nl_attr_new_data IPSET_ATTR_SETNAME (word_of_nat (length setname))) 28 out)
       (put_at 32 setname)))))"

lemma front_steps_eq:
  assumes "length setname \<le> 100" "32 + pad4 (length setname) \<le> n"
  shows "front_steps big setname len (replicate n 0) =
    Inr ((nl_front big len @ nla big IPSET_ATTR_SETNAME setname) @ replicate (n - 32 - pad4 (length setname)) 0)"
proof -
  let ?ls = "length setname"
  have ls: "?ls \<le> pad4 ?ls" by (rule pad4_bounds)
  let ?h = "nl_msg_hdr_new\<lparr>nh_length := len\<rparr>"
  let ?hb = "hdr_bytes big ?h"
  let ?g = "[AF_INET, 0] @ ne16 big 0"
  let ?a1 = "nl_attr_new_data IPSET_ATTR_PROTOCOL 1"
  let ?a2 = "nl_attr_new_data IPSET_ATTR_SETNAME (word_of_nat ?ls)"
  have hb: "length ?hb = 16" by (simp add: hdr_bytes_def)
  have s1: "hdr_write_to big ?h 0 (replicate n 0) = Inr (?hb @ replicate (n - 16) 0)"
    using assms ls by (simp add: hdr_write_at)
  have s2: "nfg_write_to big (nf_gen_msg_new AF_INET) 16 (?hb @ replicate (n - 16) 0)
      = Inr ((?hb @ ?g) @ replicate (n - 20) 0)"
    using assms nfg_write_at [of ?hb 16 "n - 16"] by (simp add: hb nf_gen_msg_new_def)
  have s3: "attr_write_to big ?a1 20 ((?hb @ ?g) @ replicate (n - 20) 0)
      = Inr ((?hb @ ?g @ attr_bytes big ?a1) @ replicate (n - 24) 0)"
    using assms attr_write_at [of "?hb @ ?g" 0 20 "n - 20"] by (simp add: hb)
  have s4: "put_at 24 [IPSET_PROTOCOL] ((?hb @ ?g @ attr_bytes big ?a1) @ replicate (n - 24) 0)
      = Inr ((?hb @ ?g @ attr_bytes big ?a1 @ [IPSET_PROTOCOL]) @ replicate (n - 25) 0)"
    using assms put_at_end [of "?hb @ ?g @ attr_bytes big ?a1" 24 "[IPSET_PROTOCOL]" "n - 24"]
    by (simp add: hb)
  have s5: "attr_write_to big ?a2 28 ((?hb @ ?g @ attr_bytes big ?a1 @ [IPSET_PROTOCOL]) @ replicate (n - 25) 0)
      = Inr ((?hb @ ?g @ attr_bytes big ?a1 @ [IPSET_PROTOCOL] @ replicate 3 0 @ attr_bytes big ?a2)
             @ replicate (n - 32) 0)"
    using assms attr_write_at [of "?hb @ ?g @ attr_bytes big ?a1 @ [IPSET_PROTOCOL]" 3 28 "n - 25"]
    by (simp add: hb)
  have s6: "put_at 32 setname ((?hb @ ?g @ attr_bytes big ?a1 @ [IPSET_PROTOCOL] @ replicate 3 0 @ attr_bytes big ?a2)
             @ replicate (n - 32) 0)
      = Inr ((?hb @ ?g @ attr_bytes big ?a1 @ [IPSET_PROTOCOL] @ replicate 3 0 @ attr_bytes big ?a2 @ setname)
             @ replicate (n - 32 - ?ls) 0)"
    using assms ls put_at_end [of "?hb @ ?g @ attr_bytes big ?a1 @ [IPSET_PROTOCOL] @ replicate 3 0 @ attr_bytes big ?a2"
        32 setname "n - 32"] by (simp add: hb)
  have pad: "replicate (n - 32 - ?ls) 0 = replicate (pad4 ?ls - ?ls) 0 @ replicate (n - 32 - pad4 ?ls) (0 :: u8)"
    using assms ls by (simp flip: replicate_add)
  have a1: "attr_bytes big ?a1 = ne16 big 5 @ ne16 big IPSET_ATTR_PROTOCOL"
    using attr_for(2) [of 1] by simp
  have hb_eq: "?hb = ne32 big len @ ne16 big 0x0609 @ ne16 big 1 @ ne32 big 0 @ ne32 big 0"
    by (simp add: hdr_bytes_def nl_msg_hdr_new_def IPSET_CMD_ADD_def NFNL_SUBSYS_IPSET_def NLM_F_REQUEST_def)
  have n1: "nla big IPSET_ATTR_PROTOCOL [IPSET_PROTOCOL]
      = ne16 big 5 @ ne16 big IPSET_ATTR_PROTOCOL @ [IPSET_PROTOCOL] @ replicate 3 0"
    by (simp add: nla_def pad4_def)
  have n2: "nla big IPSET_ATTR_SETNAME setname = attr_bytes big ?a2 @ setname @ replicate (pad4 ?ls - ?ls) 0"
    using assms by (simp add: nla_def attr_for)
  show ?thesis unfolding front_steps_def s1 and_then_simps s2 s3 s4 s5 s6
    unfolding pad hb_eq nl_front_def n1 n2 a1
    by (simp only: append_assoc)
qed
text \<open>The nested data attribute, written from where the name's attribute ends.\<close>

lemma attrs_step:
  assumes "length pre = off" "12 + length ip \<le> n"
    "attr_bytes big a3 = b3" "attr_bytes big a4 = b4" "attr_bytes big a5 = b5"
  shows "and_then (attr_write_to big a3 off (pre @ replicate n 0)) (\<lambda>out.
     and_then (attr_write_to big a4 (off + 4) out) (\<lambda>out.
     and_then (attr_write_to big a5 (off + 8) out) (put_at (off + 12) ip)))
   = Inr ((pre @ b3 @ b4 @ b5 @ ip) @ replicate (n - 12 - length ip) 0)"
proof -
  have s1: "attr_write_to big a3 off (pre @ replicate n 0) = Inr ((pre @ b3) @ replicate (n - 4) 0)"
    using assms attr_write_at [of pre 0 off n big a3] by simp
  have s2: "attr_write_to big a4 (off + 4) ((pre @ b3) @ replicate (n - 4) 0)
      = Inr ((pre @ b3 @ b4) @ replicate (n - 8) 0)"
    using assms attr_write_at [of "pre @ b3" 0 "off + 4" "n - 4" big a4] by auto
  have s3: "attr_write_to big a5 (off + 8) ((pre @ b3 @ b4) @ replicate (n - 8) 0)
      = Inr ((pre @ b3 @ b4 @ b5) @ replicate (n - 12) 0)"
    using assms attr_write_at [of "pre @ b3 @ b4" 0 "off + 8" "n - 8" big a5] by auto
  have s4: "put_at (off + 12) ip ((pre @ b3 @ b4 @ b5) @ replicate (n - 12) 0)
      = Inr ((pre @ b3 @ b4 @ b5 @ ip) @ replicate (n - 12 - length ip) 0)"
    using assms put_at_end [of "pre @ b3 @ b4 @ b5" "off + 12" ip "n - 12"] by auto
  show ?thesis by (simp only: s1 s2 s3 s4 and_then_simps)
qed

lemma nl_message_front:
  "nl_message big (nla big IPSET_ATTR_PROTOCOL [IPSET_PROTOCOL] @ attrs)
   = nl_front big (word_of_nat (28 + length attrs)) @ attrs"
proof -
  have "length (nla big IPSET_ATTR_PROTOCOL [IPSET_PROTOCOL]) = 8" by (simp add: pad4_def)
  then have "20 + length (nla big IPSET_ATTR_PROTOCOL [IPSET_PROTOCOL] @ attrs) = 28 + length attrs"
    by simp
  then show ?thesis unfolding nl_message_def nl_front_def by (simp only: append_assoc)
qed

lemma replicate_pad:
  "length xs \<le> m \<Longrightarrow> m \<le> n \<Longrightarrow>
   replicate (n - length xs) 0 = replicate (m - length xs) 0 @ replicate (n - m) (0 :: u8)"
  by (simp flip: replicate_add)

lemma nla_attr:
  "length payload < 900 \<Longrightarrow> nla big ty payload =
   attr_bytes big (nl_attr_new_data ty (word_of_nat (length payload))) @ payload
   @ replicate (pad4 (length payload) - length payload) 0"
  by (simp only: nla_def attr_for append_assoc)

lemma nla_nested:
  assumes "length payload = n" "n < 900" "pad4 n = n"
  shows "nla big ty payload = attr_bytes big (nl_attr_new_data ty (word_of_nat n)) @ payload"
  using assms nla_attr [of payload big ty] by simp

lemma size_words: "hdr_align_size = word_of_nat 16" "nfg_align_size = word_of_nat 4" "align4 4 = word_of_nat 4"
  by (simp_all add: hdr_align_size_def nfg_align_size_def)

lemma size_sums:
  "unat (word_of_nat (numeral k) :: u32) = unat (numeral k :: u32)"
  by simp

text \<open>The nested attributes of both messages, for a padded address of \<open>n\<close> bytes.\<close>

definition ip_type :: "bytes \<Rightarrow> u16" where
  "ip_type ip = (if 4 < length ip then IPSET_ATTR_IPADDR_IPV6 else IPSET_ATTR_IPADDR_IPV4) OR NLA_F_NET_BYTEORDER"

definition attr_ip :: "u16 \<Rightarrow> bytes \<Rightarrow> nl_attr" where
  "attr_ip ty ip = nl_attr_new_data ty (word_of_nat (length ip))"

definition attr_nest :: "nat \<Rightarrow> nl_attr" where
  "attr_nest n = nl_attr_new_data (NLA_F_NESTED OR IPSET_ATTR_IP) (word_of_nat (4 + n))"

definition attr_data :: "nat \<Rightarrow> nl_attr" where
  "attr_data n = nl_attr_new_data (NLA_F_NESTED OR IPSET_ATTR_DATA) (word_of_nat n)"

definition attr_cidr :: nl_attr where
  "attr_cidr = nl_attr_new_data IPSET_ATTR_CIDR 1"

lemma set_room_bounds:
  assumes "set_room setname ip"
  shows "length setname \<le> 100" "length ip \<le> 64" "pad4 (length setname) < 104" "pad4 (length ip) < 68" "length ip \<le> pad4 (length ip)"
  using assms pad4_bounds(1,2) [of "length setname"] pad4_bounds(1,2) [of "length ip"]
  unfolding set_room_def by linarith+

lemma attr_sizes:
  assumes "length ip \<le> 64"
  shows "attr_align_size (attr_ip ty ip) = word_of_nat (4 + pad4 (length ip))"
    and "attr_align_size (attr_nest (pad4 (length ip))) = word_of_nat (8 + pad4 (length ip))"
    and "attr_align_size (attr_data (8 + pad4 (length ip))) = word_of_nat (12 + pad4 (length ip))"
    and "attr_align_size (attr_data (16 + pad4 (length ip))) = word_of_nat (20 + pad4 (length ip))"
    and "attr_align_size attr_cidr = word_of_nat 8"
proof -
  have q: "pad4 (length ip) < 68" using assms pad4_bounds(2) [of "length ip"] by linarith
  show "attr_align_size (attr_ip ty ip) = word_of_nat (4 + pad4 (length ip))"
    using assms attr_for(1) [of "length ip" ty] unfolding attr_ip_def by simp
  show "attr_align_size (attr_nest (pad4 (length ip))) = word_of_nat (8 + pad4 (length ip))"
    using q attr_for(1) [of "4 + pad4 (length ip)"] unfolding attr_nest_def pad4_shift by (simp add: add.assoc [symmetric])
  show "attr_align_size (attr_data (8 + pad4 (length ip))) = word_of_nat (12 + pad4 (length ip))"
    using q attr_for(1) [of "8 + pad4 (length ip)"] unfolding attr_data_def pad4_shift by (simp add: add.assoc [symmetric])
  show "attr_align_size (attr_data (16 + pad4 (length ip))) = word_of_nat (20 + pad4 (length ip))"
    using q attr_for(1) [of "16 + pad4 (length ip)"] unfolding attr_data_def pad4_shift by (simp add: add.assoc [symmetric])
  show "attr_align_size attr_cidr = word_of_nat 8"
    using attr_for(1) [of 1] unfolding attr_cidr_def by (simp add: pad4_def)
qed

lemma front_sizes:
  assumes "length setname \<le> 100"
  shows "attr_align_size (nl_attr_new_data IPSET_ATTR_PROTOCOL 1) = word_of_nat 8"
    "attr_align_size (nl_attr_new_data IPSET_ATTR_SETNAME (word_of_nat (length setname))) = word_of_nat (4 + pad4 (length setname))"
  using assms attr_for(1) [of 1] attr_for(1) [of "length setname"] by (simp_all add: pad4_def)

text \<open>The code's computed offsets, as natural numbers.\<close>

definition data_steps :: "bool \<Rightarrow> nat \<Rightarrow> u16 \<Rightarrow> bytes \<Rightarrow> nat \<Rightarrow> bytes \<Rightarrow> bytes res" where
  "data_steps big n ty ip off out =
     and_then (attr_write_to big (attr_data n) off out) (\<lambda>out.
     and_then (attr_write_to big (attr_nest (pad4 (length ip))) (off + 4) out) (\<lambda>out.
     and_then (attr_write_to big (attr_ip ty ip) (off + 8) out) (put_at (off + 12) ip)))"

lemma iphash_steps:
  assumes "set_room setname ip"
  shows "construct_iphash_packet big setname ip out =
    (let len = word_of_nat (44 + pad4 (length setname) + pad4 (length ip)) in
     and_then (front_steps big setname len out) (\<lambda>out.
     and_then (data_steps big (8 + pad4 (length ip)) (ip_type ip) ip (32 + pad4 (length setname)) out) (\<lambda>out. Inr (len, out))))"
proof -
  let ?P = "pad4 (length setname)" and ?Q = "pad4 (length ip)"
  note small = set_room_bounds [OF assms]
  have w: "unat (word_of_nat (32 + ?P + k) :: u32) = 32 + ?P + k" if "k \<le> 100" for k
    using small that by (intro unat_of_nat_less) simp
  have w0: "unat (word_of_nat (32 + ?P) :: u32) = 32 + ?P" using w [of 0] by simp
  have uc: "(ucast (word_of_nat (4 + ?Q) :: u32) :: u16) = word_of_nat (4 + ?Q)"
    "(ucast (word_of_nat (8 + ?Q) :: u32) :: u16) = word_of_nat (8 + ?Q)"
    using small by (intro ucast_32_16; simp)+
  show ?thesis
    unfolding construct_iphash_packet_def Let_def ip_type_def [symmetric] attr_ip_def [of "ip_type ip" ip, symmetric] attr_sizes(1) [OF small(2)] uc
      attr_nest_def [of ?Q, symmetric] attr_sizes(2) [OF small(2)] uc attr_data_def [of "8 + ?Q", symmetric] attr_sizes(3) [OF small(2)] front_sizes [OF small(1)]
      front_steps_def data_steps_def size_words of_nat_add [symmetric]
    using w [of 4] w [of 8] w [of 12] w0
    by (simp add: and_then_assoc size_sums add.assoc del: of_nat_add of_nat_numeral)
qed

lemma nethash_steps:
  assumes "set_room setname ip"
  shows "construct_v4nethash_packet big setname ip plen out =
    (let len = word_of_nat (52 + pad4 (length setname) + pad4 (length ip)) in
     and_then (front_steps big setname len out) (\<lambda>out.
     and_then (data_steps big (16 + pad4 (length ip)) (IPSET_ATTR_IPADDR_IPV4 OR NLA_F_NET_BYTEORDER) ip (32 + pad4 (length setname)) out) (\<lambda>out.
     and_then (attr_write_to big attr_cidr (44 + pad4 (length setname) + pad4 (length ip)) out) (\<lambda>out.
     and_then (put_at (48 + pad4 (length setname) + pad4 (length ip)) [plen] out) (\<lambda>out. Inr (len, out))))))"
proof -
  let ?P = "pad4 (length setname)" and ?Q = "pad4 (length ip)"
  note small = set_room_bounds [OF assms]
  have w: "unat (word_of_nat (k + ?P) :: u32) = k + ?P" "unat (word_of_nat (k + (?P + ?Q)) :: u32) = k + (?P + ?Q)"
    if "k \<le> 100" for k
    using small that by (intro unat_of_nat_less; simp)+
  have uc: "(ucast (word_of_nat (4 + ?Q) :: u32) :: u16) = word_of_nat (4 + ?Q)"
    "(ucast (word_of_nat (8 + ?Q + 8) :: u32) :: u16) = word_of_nat (16 + ?Q)"
    using small ucast_32_16 [of "4 + ?Q"] ucast_32_16 [of "16 + ?Q"] by (simp_all add: algebra_simps)
  show ?thesis
    unfolding construct_v4nethash_packet_def Let_def attr_cidr_def [symmetric] attr_ip_def [of _ ip, symmetric]
      attr_sizes(5) [OF small(2)] attr_sizes(1) [OF small(2)] uc attr_nest_def [of ?Q, symmetric] attr_sizes(2) [OF small(2)]
      of_nat_add [symmetric] uc attr_data_def [of "16 + ?Q", symmetric] attr_sizes(4) [OF small(2)] front_sizes [OF small(1)] front_steps_def data_steps_def
      size_words of_nat_add [symmetric]
    using w [of 32] w [of 36] w [of 40] w [of 44] w [of 48]
    by (simp add: and_then_assoc size_sums add.assoc add.left_commute [of ?Q] del: of_nat_add of_nat_numeral)
qed

lemma data_steps_eq:
  assumes "length pre = off" "12 + length ip \<le> n"
  shows "data_steps big k ty ip off (pre @ replicate n 0) =
    Inr ((pre @ attr_bytes big (attr_data k) @ attr_bytes big (attr_nest (pad4 (length ip))) @ attr_bytes big (attr_ip ty ip) @ ip)
      @ replicate (n - 12 - length ip) 0)"
  unfolding data_steps_def by (rule attrs_step [OF assms refl refl refl])

text \<open>The nested attributes are the code's attribute headers one behind the other.\<close>

lemma nested_ip:
  assumes "length ip \<le> 64"
  shows "nla big (NLA_F_NESTED OR IPSET_ATTR_IP) (nla big ty ip) =
    attr_bytes big (attr_nest (pad4 (length ip))) @ attr_bytes big (attr_ip ty ip) @ ip @ replicate (pad4 (length ip) - length ip) 0"
proof -
  have q: "pad4 (length ip) < 68" using assms pad4_bounds(2) [of "length ip"] by linarith
  have "nla big ty ip = attr_bytes big (attr_ip ty ip) @ ip @ replicate (pad4 (length ip) - length ip) 0"
    using assms unfolding attr_ip_def by (intro nla_attr) simp
  moreover have "nla big (NLA_F_NESTED OR IPSET_ATTR_IP) (nla big ty ip) = attr_bytes big (attr_nest (pad4 (length ip))) @ nla big ty ip"
    using q unfolding attr_nest_def by (intro nla_nested) (simp_all add: pad4_shift)
  ultimately show ?thesis by simp
qed

lemma iphash_nested:
  assumes "length ip \<le> 64"
  shows "nla big (NLA_F_NESTED OR IPSET_ATTR_DATA) (nla big (NLA_F_NESTED OR IPSET_ATTR_IP) (nla big ty ip)) =
    attr_bytes big (attr_data (8 + pad4 (length ip))) @ attr_bytes big (attr_nest (pad4 (length ip))) @ attr_bytes big (attr_ip ty ip)
    @ ip @ replicate (pad4 (length ip) - length ip) 0"
proof -
  have q: "pad4 (length ip) < 68" using assms pad4_bounds(2) [of "length ip"] by linarith
  have "nla big (NLA_F_NESTED OR IPSET_ATTR_DATA) (nla big (NLA_F_NESTED OR IPSET_ATTR_IP) (nla big ty ip))
      = attr_bytes big (attr_data (8 + pad4 (length ip))) @ nla big (NLA_F_NESTED OR IPSET_ATTR_IP) (nla big ty ip)"
    using q unfolding attr_data_def by (intro nla_nested) (simp_all add: pad4_shift)
  then show ?thesis using nested_ip [OF assms] by simp
qed

lemma nethash_nested:
  assumes "length ip \<le> 64"
  shows "nla big (NLA_F_NESTED OR IPSET_ATTR_DATA)
      (nla big (NLA_F_NESTED OR IPSET_ATTR_IP) (nla big ty ip) @ nla big IPSET_ATTR_CIDR [plen]) =
    attr_bytes big (attr_data (16 + pad4 (length ip))) @ attr_bytes big (attr_nest (pad4 (length ip))) @ attr_bytes big (attr_ip ty ip)
    @ ip @ replicate (pad4 (length ip) - length ip) 0 @ attr_bytes big attr_cidr @ [plen] @ replicate 3 0"
proof -
  have q: "pad4 (length ip) < 68" using assms pad4_bounds(2) [of "length ip"] by linarith
  have one: "pad4 (Suc 0) = 4" by (simp add: pad4_def)
  have "nla big (NLA_F_NESTED OR IPSET_ATTR_DATA)
      (nla big (NLA_F_NESTED OR IPSET_ATTR_IP) (nla big ty ip) @ nla big IPSET_ATTR_CIDR [plen])
      = attr_bytes big (attr_data (16 + pad4 (length ip))) @ nla big (NLA_F_NESTED OR IPSET_ATTR_IP) (nla big ty ip) @ nla big IPSET_ATTR_CIDR [plen]"
    using q unfolding attr_data_def by (intro nla_nested) (simp_all add: pad4_shift one)
  moreover have "nla big IPSET_ATTR_CIDR [plen] = attr_bytes big attr_cidr @ [plen] @ replicate 3 0"
    using nla_attr [of "[plen]"] unfolding attr_cidr_def by (simp add: pad4_def)
  ultimately show ?thesis using nested_ip [OF assms] by simp
qed

lemma iphash_parts:
  "iphash_message big setname ip = nl_front big (word_of_nat (44 + pad4 (length setname) + pad4 (length ip)))
     @ nla big IPSET_ATTR_SETNAME setname
     @ nla big (NLA_F_NESTED OR IPSET_ATTR_DATA) (nla big (NLA_F_NESTED OR IPSET_ATTR_IP) (nla big (ip_type ip) ip))"
  "length (iphash_message big setname ip) = 44 + pad4 (length setname) + pad4 (length ip)"
proof -
  show m: "iphash_message big setname ip = nl_front big (word_of_nat (44 + pad4 (length setname) + pad4 (length ip)))
     @ nla big IPSET_ATTR_SETNAME setname
     @ nla big (NLA_F_NESTED OR IPSET_ATTR_DATA) (nla big (NLA_F_NESTED OR IPSET_ATTR_IP) (nla big (ip_type ip) ip))"
    unfolding iphash_message_def nl_message_front ip_type_def [symmetric] by (simp add: pad4_shift) (simp add: algebra_simps)
  show "length (iphash_message big setname ip) = 44 + pad4 (length setname) + pad4 (length ip)"
    by (simp add: m pad4_shift)
qed

lemma nethash_parts:
  "nethash_message big setname ip plen = nl_front big (word_of_nat (52 + pad4 (length setname) + pad4 (length ip)))
     @ nla big IPSET_ATTR_SETNAME setname
     @ nla big (NLA_F_NESTED OR IPSET_ATTR_DATA)
         (nla big (NLA_F_NESTED OR IPSET_ATTR_IP) (nla big (IPSET_ATTR_IPADDR_IPV4 OR NLA_F_NET_BYTEORDER) ip)
          @ nla big IPSET_ATTR_CIDR [plen])"
  "length (nethash_message big setname ip plen) = 52 + pad4 (length setname) + pad4 (length ip)"
proof -
  let ?data = "nla big (NLA_F_NESTED OR IPSET_ATTR_IP) (nla big (IPSET_ATTR_IPADDR_IPV4 OR NLA_F_NET_BYTEORDER) ip) @ nla big IPSET_ATTR_CIDR [plen]"
  have one: "pad4 (Suc 0) = 4" by (simp add: pad4_def)
  have "length ?data = 16 + pad4 (length ip)" by (simp add: pad4_shift one)
  then have "length (nla big (NLA_F_NESTED OR IPSET_ATTR_DATA) ?data) = 20 + pad4 (length ip)"
    unfolding length_nla [of big "NLA_F_NESTED OR IPSET_ATTR_DATA"] by (simp only: pad4_shift)
  then have len: "28 + length (nla big IPSET_ATTR_SETNAME setname @ nla big (NLA_F_NESTED OR IPSET_ATTR_DATA) ?data)
      = 52 + pad4 (length setname) + pad4 (length ip)"
    by (simp only: length_append length_nla [of big IPSET_ATTR_SETNAME])
  show m: "nethash_message big setname ip plen = nl_front big (word_of_nat (52 + pad4 (length setname) + pad4 (length ip)))
     @ nla big IPSET_ATTR_SETNAME setname @ nla big (NLA_F_NESTED OR IPSET_ATTR_DATA) ?data"
    unfolding nethash_message_def nl_message_front len ..
  show "length (nethash_message big setname ip plen) = 52 + pad4 (length setname) + pad4 (length ip)"
    using len by (simp only: m length_append length_nl_front)
qed

lemma iphash_packet_eq:
  assumes "set_room setname ip" "length (iphash_message big setname ip) \<le> n"
  shows "construct_iphash_packet big setname ip (replicate n 0)
    = Inr (word_of_nat (length (iphash_message big setname ip)),
           iphash_message big setname ip @ replicate (n - length (iphash_message big setname ip)) 0)"
proof -
  let ?P = "pad4 (length setname)" and ?Q = "pad4 (length ip)"
  let ?pre = "nl_front big (word_of_nat (44 + ?P + ?Q)) @ nla big IPSET_ATTR_SETNAME setname" and ?n = "n - 32 - ?P"
  note small = set_room_bounds [OF assms(1)] and room = assms(2) [unfolded iphash_parts(2)]
  have front: "front_steps big setname (word_of_nat (44 + ?P + ?Q)) (replicate n 0) = Inr (?pre @ replicate ?n 0)"
    using room small by (intro front_steps_eq) linarith+
  have data: "length ?pre = 32 + ?P" "12 + length ip \<le> ?n" using room small by simp_all
  have pad: "replicate (?n - 12 - length ip) 0 = replicate (?Q - length ip) 0 @ replicate (n - (44 + ?P + ?Q)) (0 :: u8)"
    using room small by (simp flip: replicate_add)
  show ?thesis
    unfolding iphash_parts(2)
    unfolding iphash_steps [OF assms(1)] Let_def front and_then_simps data_steps_eq [OF data] iphash_parts(1) iphash_nested [OF small(2)] pad
    by (simp only: append_assoc)
qed

lemma nethash_packet_eq:
  assumes "set_room setname ip" "length (nethash_message big setname ip plen) \<le> n"
  shows "construct_v4nethash_packet big setname ip plen (replicate n 0)
    = Inr (word_of_nat (length (nethash_message big setname ip plen)),
           nethash_message big setname ip plen
           @ replicate (n - length (nethash_message big setname ip plen)) 0)"
proof -
  let ?P = "pad4 (length setname)" and ?Q = "pad4 (length ip)" and ?ty = "IPSET_ATTR_IPADDR_IPV4 OR NLA_F_NET_BYTEORDER"
  let ?pre = "nl_front big (word_of_nat (52 + ?P + ?Q)) @ nla big IPSET_ATTR_SETNAME setname" and ?n = "n - 32 - ?P"
  let ?mid = "?pre @ attr_bytes big (attr_data (16 + ?Q)) @ attr_bytes big (attr_nest ?Q) @ attr_bytes big (attr_ip ?ty ip) @ ip"
  note small = set_room_bounds [OF assms(1)] and room = assms(2) [unfolded nethash_parts(2)]
  have front: "front_steps big setname (word_of_nat (52 + ?P + ?Q)) (replicate n 0) = Inr (?pre @ replicate ?n 0)"
    using room small by (intro front_steps_eq) linarith+
  have data: "length ?pre = 32 + ?P" "12 + length ip \<le> ?n" using room small by simp_all
  have cidr: "attr_write_to big attr_cidr (44 + ?P + ?Q) (?mid @ replicate (?n - 12 - length ip) 0)
      = Inr ((?mid @ replicate (?Q - length ip) 0 @ attr_bytes big attr_cidr) @ replicate (n - (48 + ?P + ?Q)) 0)"
    using room small attr_write_at [of ?mid "?Q - length ip" "44 + ?P + ?Q" "?n - 12 - length ip" big attr_cidr] by simp
  have plen: "put_at (48 + ?P + ?Q) [plen]
      ((?mid @ replicate (?Q - length ip) 0 @ attr_bytes big attr_cidr) @ replicate (n - (48 + ?P + ?Q)) 0)
      = Inr (((?mid @ replicate (?Q - length ip) 0 @ attr_bytes big attr_cidr) @ [plen]) @ replicate (n - (49 + ?P + ?Q)) 0)"
    using room small put_at_end [of "?mid @ replicate (?Q - length ip) 0 @ attr_bytes big attr_cidr"
        "48 + ?P + ?Q" "[plen]" "n - (48 + ?P + ?Q)"] by simp
  have pad: "replicate (n - (49 + ?P + ?Q)) 0 = replicate 3 0 @ replicate (n - (52 + ?P + ?Q)) (0 :: u8)"
    using room small by (simp only: replicate_add [symmetric]) simp
  show ?thesis
    unfolding nethash_parts(2)
    unfolding nethash_steps [OF assms(1)] Let_def front and_then_simps data_steps_eq [OF data] cidr plen nethash_parts(1) nethash_nested [OF small(2)] pad
    by (simp only: append_assoc)
qed

section \<open>Properties\<close>

text \<open>
  C25: for set names and addresses of sensible length, the message written field by field at computed
  offsets into a zeroed buffer is the netlink format's nesting of attributes, its length field and
  the returned length are the number of bytes written, and the rest of the buffer stays zero.
\<close>

theorem iphash_packet_is_message:
  assumes "set_room setname ip" "length (iphash_message big setname ip) \<le> n"
  shows "construct_iphash_packet big setname ip (replicate n 0)
    = Inr (word_of_nat (length (iphash_message big setname ip)),
           iphash_message big setname ip @ replicate (n - length (iphash_message big setname ip)) 0)"
  using iphash_packet_eq [OF assms] .

lemma iphash_packet_is_message_witness:
  "construct_iphash_packet False (lit ''LPROXY'') [10, 0, 0, 1] (replicate 128 0)
   = Inr (word_of_nat (length (iphash_message False (lit ''LPROXY'') [10, 0, 0, 1])),
       iphash_message False (lit ''LPROXY'') [10, 0, 0, 1]
       @ replicate (128 - length (iphash_message False (lit ''LPROXY'') [10, 0, 0, 1])) 0)"
  by (rule iphash_packet_is_message)
    (simp_all add: set_room_def lit_def iphash_message_def nl_message_def pad4_def)

text \<open>
  The message that adds a range nests the prefix length beside the address, under the same data
  attribute, with all nested lengths right.
\<close>

theorem nethash_packet_is_message:
  assumes "set_room setname ip" "length (nethash_message big setname ip plen) \<le> n"
  shows "construct_v4nethash_packet big setname ip plen (replicate n 0)
    = Inr (word_of_nat (length (nethash_message big setname ip plen)),
           nethash_message big setname ip plen
           @ replicate (n - length (nethash_message big setname ip plen)) 0)"
  using nethash_packet_eq [OF assms] .

lemma nethash_packet_is_message_witness:
  "construct_v4nethash_packet True (lit ''NET'') [10, 0, 0, 0] 8 (replicate 128 0)
   = Inr (word_of_nat (length (nethash_message True (lit ''NET'') [10, 0, 0, 0] 8)),
       nethash_message True (lit ''NET'') [10, 0, 0, 0] 8
       @ replicate (128 - length (nethash_message True (lit ''NET'') [10, 0, 0, 0] 8)) 0)"
  by (rule nethash_packet_is_message)
    (simp_all add: set_room_def lit_def nethash_message_def nl_message_def pad4_def)

text \<open>
  The range parser never panics. A bare address is a range of 32 bits (when \<^verbatim>\<open>u8::from_str\<close> reads
  32), text before the first slash is the address, text up to a second slash is the prefix length;
  whatever follows a second slash is ignored.
\<close>

theorem ipv4range_parse_cases:
  assumes "slash \<notin> set a" "\<And>p. p \<in> set rest \<Longrightarrow> slash \<notin> set p"
  shows "ipv4range_parse p8 p4 (join_on slash (a # rest)) =
    (case p8 (case rest of [] \<Rightarrow> lit ''32'' | m # _ \<Rightarrow> m) of
       None \<Rightarrow> Inl ParseError
     | Some m \<Rightarrow> (case p4 a of None \<Rightarrow> Inl ParseError | Some ip \<Rightarrow> Inr \<lparr>ir_addr = ip, ir_mask = m\<rparr>))"
proof -
  have "split_on slash (join_on slash (a # rest)) = a # rest"
    using assms by (intro split_join) auto
  then show ?thesis by (auto simp: ipv4range_parse_def split: list.splits)
qed

text \<open>Stand-ins for the two parsers: they know one literal each.\<close>

definition sample_u8 :: "str \<Rightarrow> u8 option" where
  "sample_u8 s = (if s = lit ''24'' then Some 24 else None)"

definition sample_v4 :: "str \<Rightarrow> ipv4_addr option" where
  "sample_v4 s = (if s = lit ''10.0.0.0'' then Some (ipv4_of_u32 0x0A000000) else None)"

lemma ipv4range_parse_cases_witness:
  "ipv4range_parse sample_u8 sample_v4 (join_on slash [lit ''10.0.0.0'', lit ''24'', lit ''x''])
   = Inr \<lparr>ir_addr = ipv4_of_u32 0x0A000000, ir_mask = 24\<rparr>"
  by (subst ipv4range_parse_cases) (auto simp: sample_u8_def sample_v4_def lit_def slash_def)

end
