(* ===== verification/Forwarder.thy ===== *)
theory Forwarder imports Resolver Domain_Map Netlink begin

text \<open>
  \<^verbatim>\<open>src/dns/forwarder.rs\<close> and the life of a DNS tunnel in \<^verbatim>\<open>src/dns/dnstunbuilder.rs\<close>: which questions go
  through a tunnel and which to the local server, where the answers go, the addresses put into the
  kernel's IP sets, and keep-alive and reconnection of the tunnels.
\<close>

section \<open>State\<close>

text \<open>
  What the forwarder uses of its surroundings, as one parameter: lossy UTF-8 decoding, the live channels,
  the byte order of the machine, the standard library's parsers, the \<^verbatim>\<open>url\<close> crate, and socket binding.
\<close>

record dns_env =
  e_lower :: "bytes \<Rightarrow> bytes"
  e_alive :: "chan \<Rightarrow> bool"
  e_big :: bool
  e_parse_u8 :: "str \<Rightarrow> u8 option"
  e_parse_v4 :: "str \<Rightarrow> ipv4_addr option"
  e_parse_addr :: "str \<Rightarrow> socket_addr option"
  e_url_ok :: "str \<Rightarrow> bool"
  e_bind :: udp_bind

record forwarder =
  fw_udp_addr :: str
  fw_relay_domain :: str
  fw_relay_port :: u16
  fw_dns_tun_url :: str
  fw_dns_server :: str
  fw_tunnels :: "dns_tunnel option list"
  fw_reconnect_queue :: "u16 list"
  fw_capacity :: nat
  fw_server :: udp_server
  fw_discarded :: bool
  fw_keepalive_trigger :: bool
  fw_domap :: domain_map
  fw_lresolver :: lresolver
  fw_token :: str
  fw_service_tx :: chan
  fw_work_as_global :: bool

section \<open>IP sets\<close>

text \<open>\<^verbatim>\<open>&vec[..len]\<close> and the send on the netlink socket, whose failure is only logged.\<close>

definition nl_send :: "u32 \<times> bytes \<Rightarrow> dns_effect list res" where
  "nl_send r = (if unat (fst r) \<le> length (snd r) then Inr [NlSend (take (unat (fst r)) (snd r))] else Inl Panicked)"

definition ipset_add_iphash :: "dns_env \<Rightarrow> bytes \<Rightarrow> str \<Rightarrow> dns_effect list res" where
  "ipset_add_iphash env ipvec tbname =
     and_then (construct_iphash_packet (e_big env) tbname ipvec (replicate 256 0)) nl_send"

definition ipset_add_nethash :: "dns_env \<Rightarrow> bytes \<Rightarrow> u8 \<Rightarrow> dns_effect list res" where
  "ipset_add_nethash env ipvec m =
     and_then (construct_v4nethash_packet (e_big env) IPSET_NETHASH_TABLE_NULL ipvec m (replicate 256 0)) nl_send"

text \<open>An entry of the configured list is an address or a range, for the kernel, or else a domain name.\<close>

definition add_domain ::
  "dns_env \<Rightarrow> domain_map \<times> dns_effect list \<Rightarrow> str \<Rightarrow> (domain_map \<times> dns_effect list) res" where
  "add_domain env s it =
     (case s of (domap, eff) \<Rightarrow>
        match_result (ipv4range_parse (e_parse_u8 env) (e_parse_v4 env) it)
          (\<lambda>ir. if \<not> v4_is_loopback (ir_addr ir) \<and> \<not> v4_is_multicast (ir_addr ir) then
              and_then (if ir_mask ir < 32 then ipset_add_nethash env (octets4 (ir_addr ir)) (ir_mask ir)
                        else ipset_add_iphash env (octets4 (ir_addr ir)) IPSET_TABLE_NULL)
                (\<lambda>eff2. Inr (domap, eff @ eff2))
            else Inr (domap, eff))
          (and_then (domain_insert domap it) (\<lambda>domap. Inr (domap, eff))))"

definition new_domap :: "dns_env \<Rightarrow> str list \<Rightarrow> (domain_map \<times> dns_effect list) res" where
  "new_domap env domain_array = fold_res (add_domain env) (domain_map_new, []) domain_array"

definition forwarder_new :: "dns_env \<Rightarrow> chan \<Rightarrow> tun_cfg \<Rightarrow> str list \<Rightarrow> (forwarder \<times> dns_effect list) res" where
  "forwarder_new env service_tx cfg domain_array =
     and_then (new_domap env domain_array) (\<lambda>(domap, eff).
     let local_addr = LOCAL_SERVER @ lit '':'' @ dec_digits (unat LOCAL_DNS_SERVER_PORT);
         dns_server_address = (if colon \<in> set (tc_default_dns_server cfg) then tc_default_dns_server cfg
                               else tc_default_dns_server cfg @ lit '':53'')
     in
     and_then (lr_new (e_parse_addr env) dns_server_address) (\<lambda>lr.
     Inr (\<lparr>fw_udp_addr = local_addr, fw_relay_domain = tc_relay_domain cfg, fw_relay_port = tc_relay_port cfg,
           fw_dns_tun_url = tc_tunnel_url cfg, fw_dns_server = tc_default_dns_server cfg,
           fw_tunnels = map (\<lambda>_. None) [0..<tc_dns_tunnel_number cfg], fw_reconnect_queue = [],
           fw_capacity = tc_dns_tunnel_number cfg, fw_server = us_new local_addr, fw_discarded = False,
           fw_keepalive_trigger = False, fw_domap = domap, fw_lresolver = lr, fw_token = tc_token cfg,
           fw_service_tx = service_tx, fw_work_as_global = tc_work_as_global cfg\<rparr>, eff)))"

definition update_domains :: "dns_env \<Rightarrow> forwarder \<Rightarrow> str list \<Rightarrow> (forwarder \<times> dns_effect list) res" where
  "update_domains env fw domain_array =
     and_then (new_domap env domain_array) (\<lambda>(domap, eff). Inr (fw\<lparr>fw_domap := domap\<rparr>, eff))"

section \<open>Tunnels come and go\<close>

definition dns_connect :: "dns_env \<Rightarrow> forwarder \<Rightarrow> nat \<Rightarrow> chan \<Rightarrow> str \<Rightarrow> dns_effect res" where
  "dns_connect env fw index udp_tx dns_server =
     (let ws_url = fw_dns_tun_url fw @ lit ''?dns=1&tok='' @ fw_token fw in
      if e_url_ok env ws_url
      then Inr (DnsConnect index (fw_relay_domain fw) (fw_relay_port fw) ws_url udp_tx dns_server)
      else Inl Panicked)"

fun dns_connect_all :: "dns_env \<Rightarrow> forwarder \<Rightarrow> chan \<Rightarrow> nat list \<Rightarrow> dns_effect list res" where
  "dns_connect_all env fw tx [] = Inr []"
| "dns_connect_all env fw tx (n # ns) =
     and_then (dns_connect env fw n tx (fw_dns_server fw)) (\<lambda>e.
     and_then (dns_connect_all env fw tx ns) (\<lambda>es. Inr (e # es)))"

definition on_dns_udp_created :: "dns_env \<Rightarrow> forwarder \<Rightarrow> udp_server \<Rightarrow> dns_effect list res" where
  "on_dns_udp_created env fw udps =
     (case us_tx udps of
        Some tx \<Rightarrow> dns_connect_all env fw tx [0..<fw_capacity fw]
      | None \<Rightarrow> Inr [])"

text \<open>The last component is \<^verbatim>\<open>is_ok()\<close> of what \<^verbatim>\<open>init\<close> returns.\<close>

definition forwarder_init :: "dns_env \<Rightarrow> forwarder \<Rightarrow> (forwarder \<times> dns_effect list \<times> bool) res" where
  "forwarder_init env fw =
     (let fw = fw\<lparr>fw_keepalive_trigger := True\<rparr> in
      match_result (us_start (e_bind env) (on_dns_udp_created env fw) (fw_server fw))
        (\<lambda>(s, eff). let fw = fw\<lparr>fw_server := s\<rparr> in
           match_result (lr_start (e_bind env) (fw_lresolver fw))
             (\<lambda>r. Inr (fw\<lparr>fw_lresolver := r\<rparr>, eff, True)) (Inr (fw, eff, False)))
        (Inr (fw, [], False)))"

definition fw_on_tunnel_created :: "forwarder \<Rightarrow> dns_tunnel \<Rightarrow> (forwarder \<times> bool) res" where
  "fw_on_tunnel_created fw tun =
     (if fw_discarded fw \<noteq> False then Inr (fw, False)
      else
        let index = dt_index tun in
        and_then (vec_get (fw_tunnels fw) index) (\<lambda>t.
        if t \<noteq> None then Inl Panicked
        else Inr (fw\<lparr>fw_tunnels := (fw_tunnels fw)[index := Some tun]\<rparr>, True)))"

definition fw_on_tunnel_closed_interal :: "forwarder \<Rightarrow> nat \<Rightarrow> (forwarder \<times> dns_tunnel option) res" where
  "fw_on_tunnel_closed_interal fw index =
     and_then (vec_get (fw_tunnels fw) index) (\<lambda>t.
     case t of
       Some t \<Rightarrow> Inr (fw\<lparr>fw_tunnels := (fw_tunnels fw)[index := None]\<rparr>, Some t)
     | None \<Rightarrow> Inr (fw, None))"

text \<open>Unlike the manager of the request tunnels, this one queues the index of a closed tunnel even when
  it has been stopped; its keep-alive then never serves the queue.\<close>

definition fw_on_tunnel_closed :: "forwarder \<Rightarrow> nat \<Rightarrow> forwarder res" where
  "fw_on_tunnel_closed fw index =
     and_then (fw_on_tunnel_closed_interal fw index) (\<lambda>(fw, t).
     case t of
       Some t \<Rightarrow> Inr (fw\<lparr>fw_reconnect_queue := fw_reconnect_queue fw @ [word_of_nat index]\<rparr>)
     | None \<Rightarrow> Inr fw)"

definition fw_on_tunnel_build_error :: "forwarder \<Rightarrow> nat \<Rightarrow> forwarder" where
  "fw_on_tunnel_build_error fw index =
     (if fw_discarded fw \<noteq> False then fw
      else fw\<lparr>fw_reconnect_queue := fw_reconnect_queue fw @ [word_of_nat index]\<rparr>)"

fun dns_pings_to :: "(chan \<Rightarrow> bool) \<Rightarrow> nat \<Rightarrow> dns_tunnel option list \<Rightarrow> (dns_tunnel option list \<times> effect list) res" where
  "dns_pings_to alive now [] = Inr ([], [])"
| "dns_pings_to alive now (None # ts) =
     and_then (dns_pings_to alive now ts) (\<lambda>(ts, eff). Inr (None # ts, eff))"
| "dns_pings_to alive now (Some tun # ts) =
     and_then (dt_send_ping alive now tun) (\<lambda>(tun, eff, ok).
     let eff = (if \<not> ok then eff @ dt_close_rawfd tun else eff) in
     and_then (dns_pings_to alive now ts) (\<lambda>(ts, eff2). Inr (Some tun # ts, eff @ eff2)))"

definition fw_send_pings :: "dns_env \<Rightarrow> nat \<Rightarrow> forwarder \<Rightarrow> (forwarder \<times> effect list) res" where
  "fw_send_pings env now fw =
     and_then (dns_pings_to (e_alive env) now (fw_tunnels fw)) (\<lambda>(ts, eff). Inr (fw\<lparr>fw_tunnels := ts\<rparr>, eff))"

definition fw_process_reconnect :: "dns_env \<Rightarrow> forwarder \<Rightarrow> (forwarder \<times> dns_effect list) res" where
  "fw_process_reconnect env fw =
     (case us_tx (fw_server fw) of
        Some tx \<Rightarrow>
          and_then (dns_connect_all env fw tx (map unat (rev (fw_reconnect_queue fw)))) (\<lambda>eff.
          Inr (fw\<lparr>fw_reconnect_queue := []\<rparr>, eff))
      | None \<Rightarrow> Inr (fw, []))"

definition on_lresolver_udp_closed :: "forwarder \<Rightarrow> forwarder" where
  "on_lresolver_udp_closed fw = fw\<lparr>fw_lresolver := lr_invalid_tx (fw_lresolver fw)\<rparr>"

definition fw_keepalive :: "dns_env \<Rightarrow> nat \<Rightarrow> forwarder \<Rightarrow> (forwarder \<times> dns_effect list) res" where
  "fw_keepalive env now fw =
     (if fw_discarded fw \<noteq> False then Inr (fw, [])
      else
        let fw = fw\<lparr>fw_lresolver := lr_keepalive (fw_lresolver fw)\<rparr> in
        and_then (fw_send_pings env now fw) (\<lambda>(fw, eff).
        and_then (fw_process_reconnect env fw) (\<lambda>(fw, eff2). Inr (fw, map DEff eff @ eff2))))"

definition fw_stop :: "forwarder \<Rightarrow> forwarder \<times> effect list" where
  "fw_stop fw =
     (if fw_discarded fw \<noteq> False then (fw, [])
      else
        (fw\<lparr>fw_discarded := True, fw_keepalive_trigger := False, fw_server := us_stop (fw_server fw),
            fw_lresolver := lr_stop (fw_lresolver fw)\<rparr>,
         concat (map (\<lambda>t. case t of Some tun \<Rightarrow> dt_close_rawfd tun | None \<Rightarrow> []) (fw_tunnels fw))))"

section \<open>Questions\<close>

text \<open>The loop of \<^verbatim>\<open>alloc_tunnel_for_req\<close>: the least round-trip time so far and its tunnel.\<close>

fun least_rtt :: "dns_tunnel option list \<Rightarrow> int \<Rightarrow> dns_tunnel option \<Rightarrow> dns_tunnel option res" where
  "least_rtt [] rtt tselected = Inr tselected"
| "least_rtt (None # ts) rtt tselected = least_rtt ts rtt tselected"
| "least_rtt (Some tun # ts) rtt tselected =
     and_then (get_rtt tun) (\<lambda>rtt_tun.
     if rtt_tun < rtt then least_rtt ts rtt_tun (Some tun) else least_rtt ts rtt tselected)"

definition I64_MAX :: int where "I64_MAX = 2 ^ 63 - 1"

definition fw_alloc_tunnel_for_req :: "forwarder \<Rightarrow> dns_tunnel option res" where
  "fw_alloc_tunnel_for_req fw = least_rtt (fw_tunnels fw) I64_MAX None"

definition on_dns_udp_msg ::
  "dns_env \<Rightarrow> forwarder \<Rightarrow> bytes \<Rightarrow> socket_addr \<Rightarrow> (forwarder \<times> dns_effect list \<times> bool) res" where
  "on_dns_udp_msg env fw message src_addr =
     (if fw_discarded fw \<noteq> False then Inr (fw, [], False)
      else
        match_result (from_buffer (e_lower env) (bpb_new message))
          (\<lambda>(p, _).
            if 0 < length (dp_questions p) then
              let q = dp_questions p ! 0 in
              and_then (if fw_work_as_global fw then Inr True else domain_has (fw_domap fw) (q_name q)) (\<lambda>remote.
              if remote then
                and_then (fw_alloc_tunnel_for_req fw) (\<lambda>tun.
                case tun of
                  Some tun \<Rightarrow>
                    and_then (dt_on_dns_udp_msg (e_alive env) tun message src_addr) (\<lambda>eff.
                    Inr (fw, map DEff eff, True))
                | None \<Rightarrow> Inr (fw, [], True))
              else
                and_then (lr_request (e_alive env) (e_bind env) (fw_lresolver fw) (q_name q)
                            (dh_id (dp_header p)) message src_addr) (\<lambda>(r, eff).
                Inr (fw\<lparr>fw_lresolver := r\<rparr>, eff, True)))
            else Inr (fw, [], True))
          (Inr (fw, [], True)))"

section \<open>Answers\<close>

definition on_resolver_udp_msg ::
  "dns_env \<Rightarrow> forwarder \<Rightarrow> bytes \<Rightarrow> (forwarder \<times> dns_effect list \<times> bool) res" where
  "on_resolver_udp_msg env fw message =
     (if fw_discarded fw \<noteq> False then Inr (fw, [], False)
      else
        match_result (from_buffer (e_lower env) (bpb_new message))
          (\<lambda>(p, _).
            and_then (vec_get (dp_questions p) 0) (\<lambda>q.
            case lr_take (fw_lresolver fw) (q_name q) (dh_id (dp_header p)) of
              (r, sockaddr) \<Rightarrow>
                let fw = fw\<lparr>fw_lresolver := r\<rparr> in
                case sockaddr of
                  Some sa \<Rightarrow> Inr (fw, us_reply (e_alive env) (fw_server fw) message sa, True)
                | None \<Rightarrow> Inr (fw, [], True)))
          (Inr (fw, [], True)))"

fun answer_addr :: "dns_record \<Rightarrow> (str \<times> ip_addr) option" where
  "answer_addr (RA d addr ttl) = Some (d, V4 addr)"
| "answer_addr (RAAAA d addr ttl) = Some (d, V6 addr)"
| "answer_addr _ = None"

definition save_domain_record :: "dns_env \<Rightarrow> forwarder \<Rightarrow> dns_packet \<Rightarrow> dns_effect list" where
  "save_domain_record env fw p =
     (let da = List.map_filter answer_addr (dp_answers p) in
      if e_alive env (fw_service_tx fw) then [DnsAdd (fw_service_tx fw) da] else [])"

fun save_answer :: "dns_env \<Rightarrow> dns_effect list \<Rightarrow> dns_record \<Rightarrow> dns_effect list res" where
  "save_answer env eff (RA d addr ttl) =
     (if \<not> v4_is_loopback addr \<and> \<not> v4_is_multicast addr
      then and_then (ipset_add_iphash env (octets4 addr) IPSET_TABLE_NULL) (\<lambda>eff2. Inr (eff @ eff2))
      else Inr eff)"
| "save_answer env eff (RAAAA d addr ttl) =
     (if \<not> v6_is_loopback addr \<and> \<not> v6_is_multicast addr
      then and_then (ipset_add_iphash env (octets6 addr) IPSET_TABLE6_NULL) (\<lambda>eff2. Inr (eff @ eff2))
      else Inr eff)"
| "save_answer env eff _ = Inr eff"

definition save_ipset :: "dns_env \<Rightarrow> forwarder \<Rightarrow> dns_packet \<Rightarrow> dns_effect list res" where
  "save_ipset env fw p =
     and_then (if \<not> fw_work_as_global fw then fold_res (save_answer env) [] (dp_answers p) else Inr []) (\<lambda>eff.
     Inr (eff @ save_domain_record env fw p))"

text \<open>The reading future of a tunnel hands each message, and the forwarder, to the tunnel.\<close>

definition fw_tunnel_msg :: "dns_env \<Rightarrow> nat \<Rightarrow> forwarder \<Rightarrow> nat \<Rightarrow> rmessage \<Rightarrow> (forwarder \<times> dns_effect list) res" where
  "fw_tunnel_msg env now fw index msg =
     (case fw_tunnels fw ! index of
        Some tun \<Rightarrow>
          and_then (dt_on_tunnel_msg (e_lower env) (e_alive env) now (save_ipset env fw) tun msg) (\<lambda>(tun, eff).
          Inr (fw\<lparr>fw_tunnels := (fw_tunnels fw)[index := Some tun]\<rparr>, eff))
      | None \<Rightarrow> Inr (fw, []))"

section \<open>The kernel's sets\<close>

definition saved_as :: "dns_env \<Rightarrow> str \<Rightarrow> bytes \<Rightarrow> dns_effect" where
  "saved_as env tb ip = NlSend (iphash_message (e_big env) tb ip)"

lemma nl_send_whole: "length m < 2 ^ 32 \<Longrightarrow> nl_send (word_of_nat (length m), m @ rest) = Inr [NlSend m]"
  by (simp add: nl_send_def unat_of_nat_less)

lemma length_nl_message: "length (nl_message big attrs) = 20 + length attrs"
  by (simp add: nl_message_def)

lemma iphash_length: "length setname \<le> 8 \<Longrightarrow> length ip \<le> 16 \<Longrightarrow> length (iphash_message big setname ip) \<le> 100"
  using pad4_bounds(2) [of "length setname"] pad4_bounds(2) [of "length ip"]
  by (simp add: iphash_message_def length_nl_message pad4_shift pad4_def [of "Suc 0"] trans [OF arg_cong [where f = pad4, OF add.commute] pad4_shift(1)])

lemma ipset_add_iphash_ok:
  assumes "length tb \<le> 8" "length ip \<le> 16"
  shows "ipset_add_iphash env ip tb = Inr [saved_as env tb ip]"
proof -
  let ?m = "iphash_message (e_big env) tb ip"
  have len: "length ?m \<le> 100" using assms by (rule iphash_length)
  have "construct_iphash_packet (e_big env) tb ip (replicate 256 0)
    = Inr (word_of_nat (length ?m), ?m @ replicate (256 - length ?m) 0)"
    using assms len by (intro iphash_packet_eq) (simp_all add: set_room_def)
  then show ?thesis using len by (simp add: ipset_add_iphash_def nl_send_whole saved_as_def)
qed
lemma nethash_length: "length setname \<le> 8 \<Longrightarrow> length ip \<le> 16 \<Longrightarrow> length (nethash_message big setname ip plen) \<le> 120"
  using pad4_bounds(2) [of "length setname"] pad4_bounds(2) [of "length ip"]
    pad4_bounds(2) [of "4 + pad4 (length ip)"] pad4_bounds(2) [of "4 + pad4 (4 + pad4 (length ip)) + 8"]
  by (simp add: nethash_message_def length_nl_message pad4_shift pad4_def [of "Suc 0"])

lemma ipset_add_nethash_ok:
  assumes "length ip \<le> 16"
  shows "ipset_add_nethash env ip plen = Inr [NlSend (nethash_message (e_big env) IPSET_NETHASH_TABLE_NULL ip plen)]"
proof -
  let ?m = "nethash_message (e_big env) IPSET_NETHASH_TABLE_NULL ip plen"
  have tb: "length IPSET_NETHASH_TABLE_NULL \<le> 8" by (simp add: IPSET_NETHASH_TABLE_NULL_def lit_def)
  have len: "length ?m \<le> 120" using tb assms by (rule nethash_length)
  have "construct_v4nethash_packet (e_big env) IPSET_NETHASH_TABLE_NULL ip plen (replicate 256 0)
    = Inr (word_of_nat (length ?m), ?m @ replicate (256 - length ?m) 0)"
    using assms tb len by (intro nethash_packet_eq) (simp_all add: set_room_def)
  then show ?thesis using len by (simp add: ipset_add_nethash_def nl_send_whole)
qed

lemma table_lengths [simp]: "length IPSET_TABLE_NULL \<le> 8" "length IPSET_TABLE6_NULL \<le> 8"
  by (simp_all add: IPSET_TABLE_NULL_def IPSET_TABLE6_NULL_def lit_def)

text \<open>What an answer leaves in the kernel.\<close>

fun answer_saved :: "dns_env \<Rightarrow> dns_record \<Rightarrow> dns_effect list" where
  "answer_saved env (RA d a ttl) =
     (if v4_is_loopback a \<or> v4_is_multicast a then [] else [saved_as env IPSET_TABLE_NULL (octets4 a)])"
| "answer_saved env (RAAAA d a ttl) =
     (if v6_is_loopback a \<or> v6_is_multicast a then [] else [saved_as env IPSET_TABLE6_NULL (octets6 a)])"
| "answer_saved env _ = []"

lemma save_answer_ok: "save_answer env eff r = Inr (eff @ answer_saved env r)"
  by (cases r) (simp_all add: ipset_add_iphash_ok)

lemma save_answers_ok: "fold_res (save_answer env) eff rs = Inr (eff @ concat (map (answer_saved env) rs))"
  by (induction rs arbitrary: eff) (simp_all add: save_answer_ok)

lemma save_ipset_ok:
  "save_ipset env fw p = Inr ((if fw_work_as_global fw then [] else concat (map (answer_saved env) (dp_answers p)))
     @ save_domain_record env fw p)"
  by (simp add: save_ipset_def save_answers_ok)

section \<open>The domain list\<close>

text \<open>An entry is read as a range or as a name.\<close>

definition is_range :: "dns_env \<Rightarrow> str \<Rightarrow> bool" where
  "is_range env it \<longleftrightarrow> (\<exists>ir. ipv4range_parse (e_parse_u8 env) (e_parse_v4 env) it = Inr ir)"

lemma range_parse_total:
  "ipv4range_parse p8 p4 it = Inl ParseError \<or> (\<exists>ir. ipv4range_parse p8 p4 it = Inr ir)"
  by (auto simp: ipv4range_parse_def Let_def split: option.splits)

lemma add_domain_ok:
  assumes "domain_inv m"
  shows "\<exists>m' eff'. add_domain env (m, eff) it = Inr (m', eff') \<and> domain_inv m' \<and>
    domain_names m' = domain_names m \<union> (if \<not> is_range env it \<and> domain_accepts it then {it} else {})"
proof -
  obtain m2 where m2: "domain_insert m it = Inr m2" "domain_inv m2"
    "domain_names m2 = domain_names m \<union> (if domain_accepts it then {it} else {})"
    using domain_trie.insert_ok [OF assms] by blast
  show ?thesis
    using range_parse_total [of "e_parse_u8 env" "e_parse_v4 env" it] assms m2
    by (auto simp: add_domain_def is_range_def ipset_add_iphash_ok ipset_add_nethash_ok)
qed

lemma new_domap_from:
  "domain_inv m \<Longrightarrow> \<exists>m' eff'. fold_res (add_domain env) (m, eff) ds = Inr (m', eff') \<and> domain_inv m' \<and>
    domain_names m' = domain_names m \<union> {d \<in> set ds. \<not> is_range env d \<and> domain_accepts d}"
proof (induction ds arbitrary: m eff)
  case (Cons d ds)
  obtain m1 eff1 where m1: "add_domain env (m, eff) d = Inr (m1, eff1)" "domain_inv m1"
    "domain_names m1 = domain_names m \<union> (if \<not> is_range env d \<and> domain_accepts d then {d} else {})"
    using add_domain_ok [OF Cons.prems, of env eff d] by blast
  from Cons.IH [OF m1(2), of eff1] m1 show ?case by auto
qed simp

lemma new_domap_ok:
  "\<exists>m eff. new_domap env ds = Inr (m, eff) \<and> domain_inv m \<and>
    (\<forall>q. domain_has m q = Inr (\<exists>d \<in> set ds. \<not> is_range env d \<and> domain_accepts d \<and> domain_matches d q))"
proof -
  obtain m eff where m: "new_domap env ds = Inr (m, eff)" "domain_inv m"
    "domain_names m = {d \<in> set ds. \<not> is_range env d \<and> domain_accepts d}"
    using new_domap_from [OF domain_trie.inv_empty, of env "[]" ds] domain_trie.names_empty
    by (auto simp: new_domap_def)
  then show ?thesis using domain_trie.has_ok [OF m(2)] by auto
qed

section \<open>The choice of a tunnel\<close>

definition open_tunnels :: "dns_tunnel option list \<Rightarrow> dns_tunnel set" where
  "open_tunnels ts = {t. Some t \<in> set ts}"

definition rtt_of :: "dns_tunnel \<Rightarrow> int" where
  "rtt_of t = sint (dt_rtt_sum t) sdiv 5"

definition picks :: "dns_tunnel set \<Rightarrow> int \<Rightarrow> dns_tunnel option \<Rightarrow> dns_tunnel option \<Rightarrow> bool" where
  "picks T rtt sel r \<longleftrightarrow> r = sel \<and> (\<forall>t \<in> T. rtt \<le> rtt_of t)
     \<or> (\<exists>t \<in> T. r = Some t \<and> rtt_of t < rtt \<and> (\<forall>u \<in> T. rtt_of t \<le> rtt_of u))"

lemma picks_insert:
  "picks T (rtt_of t) (Some t) r \<Longrightarrow> rtt_of t < rtt \<Longrightarrow> picks (insert t T) rtt sel r"
  "picks T rtt sel r \<Longrightarrow> \<not> rtt_of t < rtt \<Longrightarrow> picks (insert t T) rtt sel r"
  unfolding picks_def by auto

lemma open_tunnels_Cons [simp]:
  "open_tunnels [] = {}" "open_tunnels (None # ts) = open_tunnels ts"
  "open_tunnels (Some t # ts) = insert t (open_tunnels ts)"
  by (auto simp: open_tunnels_def)

lemma least_rtt_ok:
  "(\<And>t. t \<in> open_tunnels ts \<Longrightarrow> dt_ok t) \<Longrightarrow> \<exists>r. least_rtt ts rtt sel = Inr r \<and> picks (open_tunnels ts) rtt sel r"
proof (induction ts rtt sel rule: least_rtt.induct)
  case (1 rtt sel)
  then show ?case by (simp add: picks_def)
next
  case (2 ts rtt sel)
  then show ?case by simp
next
  case (3 t ts rtt sel)
  have t: "get_rtt t = Inr (rtt_of t)" using get_rtt_ok "3.prems" by (simp add: rtt_of_def)
  show ?case
  proof (cases "rtt_of t < rtt")
    case True
    then show ?thesis using "3.IH"(1) [OF t] "3.prems" picks_insert(1) t by fastforce
  next
    case False
    then show ?thesis using "3.IH"(2) [OF t] "3.prems" picks_insert(2) t by fastforce
  qed
qed

lemma alloc_least:
  assumes "\<And>t. t \<in> open_tunnels (fw_tunnels fw) \<Longrightarrow> dt_ok t"
  shows "\<exists>r. fw_alloc_tunnel_for_req fw = Inr r \<and>
   (case r of None \<Rightarrow> open_tunnels (fw_tunnels fw) = {}
    | Some t \<Rightarrow> t \<in> open_tunnels (fw_tunnels fw) \<and> (\<forall>u \<in> open_tunnels (fw_tunnels fw). rtt_of t \<le> rtt_of u))"
proof -
  let ?O = "open_tunnels (fw_tunnels fw)"
  have "rtt_of t < I64_MAX" if "t \<in> ?O" for t
    using get_rtt_less [OF assms [OF that]] get_rtt_ok [OF assms [OF that]] by (simp add: rtt_of_def I64_MAX_def)
  moreover obtain r where r: "fw_alloc_tunnel_for_req fw = Inr r" "picks ?O I64_MAX None r"
    using least_rtt_ok [of "fw_tunnels fw" I64_MAX None, OF assms] by (auto simp: fw_alloc_tunnel_for_req_def)
  ultimately have "case r of None \<Rightarrow> ?O = {} | Some t \<Rightarrow> t \<in> ?O \<and> (\<forall>u \<in> ?O. rtt_of t \<le> rtt_of u)"
    unfolding picks_def by fastforce
  then show ?thesis using r(1) by blast
qed

section \<open>Properties\<close>

definition remote_name :: "dns_env \<Rightarrow> str list \<Rightarrow> str \<Rightarrow> bool" where
  "remote_name env ds q \<longleftrightarrow> (\<exists>d \<in> set ds. \<not> is_range env d \<and> domain_accepts d \<and> domain_matches d q)"

lemma domap_has: "new_domap env ds = Inr (m, eff) \<Longrightarrow> domain_has m q = Inr (remote_name env ds q)"
  using new_domap_ok [of env ds] by (auto simp: remote_name_def)

text \<open>
  C20: a question goes through a tunnel exactly when the program serves everything or an entry of the
  configured list that is no address range matches its name; then the open tunnel with the least mean
  round-trip time gets it, with the client's address in front, and nothing happens when none is open.
  Any other question goes to the local resolver.
\<close>

theorem dns_question_routed:
  assumes "\<not> fw_discarded fw" "new_domap env ds = Inr (fw_domap fw, eff0)"
    "\<And>t. t \<in> open_tunnels (fw_tunnels fw) \<Longrightarrow> dt_ok t"
    "from_buffer (e_lower env) (bpb_new message) = Inr (p, b)" "dp_questions p = q # qs"
  shows "if fw_work_as_global fw \<or> remote_name env ds (q_name q)
    then (if open_tunnels (fw_tunnels fw) = {} then on_dns_udp_msg env fw message src = Inr (fw, [], True)
      else \<exists>t \<in> open_tunnels (fw_tunnels fw). (\<forall>u \<in> open_tunnels (fw_tunnels fw). rtt_of t \<le> rtt_of u) \<and>
        on_dns_udp_msg env fw message src = Inr (fw, map DEff (fst (tx_send (e_alive env) (dt_tx t)
          (wmessage_new (tun_msg ReqData (dns_body (sa_port src) (client_u32 (sa_ip src)) message)) 0))), True))
    else on_dns_udp_msg env fw message src =
      and_then (lr_request (e_alive env) (e_bind env) (fw_lresolver fw) (q_name q) (dh_id (dp_header p)) message src)
        (\<lambda>(r, eff). Inr (fw\<lparr>fw_lresolver := r\<rparr>, eff, True))"
proof -
  let ?O = "open_tunnels (fw_tunnels fw)"
  let ?remote = "fw_work_as_global fw \<or> remote_name env ds (q_name q)"
  obtain r where r: "fw_alloc_tunnel_for_req fw = Inr r"
    "case r of None \<Rightarrow> ?O = {} | Some t \<Rightarrow> t \<in> ?O \<and> (\<forall>u \<in> ?O. rtt_of t \<le> rtt_of u)"
    using alloc_least [of fw, OF assms(3)] by blast
  have has: "(if fw_work_as_global fw then Inr True else domain_has (fw_domap fw) (q_name q)) = Inr ?remote"
    using domap_has [OF assms(2)] by simp
  show ?thesis
  proof (cases ?remote)
    case True
    then show ?thesis
      using assms(1,4,5) has r by (cases r) (auto simp: on_dns_udp_msg_def dt_query_message Let_def)
  next
    case False
    then show ?thesis using assms(1,4,5) has by (simp add: on_dns_udp_msg_def)
  qed
qed

text \<open>
  C21: the relay's answer to a question is handled in this order: every routable address in it enters the
  kernel's set of its family (unless the program serves everything), the names go to the access log, and
  only then the datagram goes out, so that the client cannot use an address that is not yet routed. It
  goes to the client that asked when that client's address is IPv4, and to nobody's address otherwise.
\<close>

theorem dns_answer_saved_then_sent:
  assumes "index < length (fw_tunnels fw)" "fw_tunnels fw ! index = Some t" "dt_udp_tx t = Some utx"
    "e_alive env utx" "from_buffer (e_lower env) (bpb_new content) = Inr (p, b)"
    "rm_buf msg = tun_msg ReqData (dns_body (sa_port client) (client_u32 (sa_ip client)) content)"
  shows "\<exists>dest. fw_tunnel_msg env now fw index msg = Inr (fw,
      (if fw_work_as_global fw then [] else concat (map (answer_saved env) (dp_answers p)))
      @ save_domain_record env fw p @ [UdpOut utx content dest]) \<and> (dest = client \<longleftrightarrow> is_ipv4 (sa_ip client))"
proof -
  let ?dest = "SocketAddr (V4 (ipv4_of_u32 (client_u32 (sa_ip client)))) (sa_port client)"
  have "fw\<lparr>fw_tunnels := (fw_tunnels fw)[index := Some t]\<rparr> = fw"
    using assms(1,2) by (simp add: list_update_same_conv)
  then have "fw_tunnel_msg env now fw index msg = Inr (fw,
      ((if fw_work_as_global fw then [] else concat (map (answer_saved env) (dp_answers p)))
      @ save_domain_record env fw p) @ [UdpOut utx content ?dest])"
    using assms(2-5) by (simp add: fw_tunnel_msg_def dt_reply_dispatch [OF assms(6)] save_ipset_ok udp_send_unwrap_def)
  moreover have "?dest = client \<longleftrightarrow> is_ipv4 (sa_ip client)"
    by (cases client; cases "sa_ip client") auto
  ultimately show ?thesis by (auto simp del: append_assoc)
qed


definition sample_env :: dns_env where
  "sample_env = \<lparr>e_lower = id, e_alive = (\<lambda>_. True), e_big = False, e_parse_u8 = (\<lambda>_. None), e_parse_v4 = (\<lambda>_. None),
     e_parse_addr = (\<lambda>_. Some (SocketAddr (V4 (Ipv4Addr 223 5 5 5)) 53)), e_url_ok = (\<lambda>_. True), e_bind = (\<lambda>_. Some 9)\<rparr>"

text \<open>A forwarder with one tunnel, and the question for \<^verbatim>\<open>a.b\<close> and its answer.\<close>

definition sample_fw :: forwarder where
  "sample_fw = \<lparr>fw_udp_addr = lit ''127.0.0.1:5001'', fw_relay_domain = lit ''relay'', fw_relay_port = 443,
     fw_dns_tun_url = lit ''wss://relay/tun'', fw_dns_server = lit ''223.5.5.5'',
     fw_tunnels = [Some (dns_tunnel_new 0 1 2 9 0)], fw_reconnect_queue = [], fw_capacity = 1,
     fw_server = us_new (lit ''127.0.0.1:5001''), fw_discarded = False, fw_keepalive_trigger = True,
     fw_domap = (case new_domap sample_env [lit ''a.b''] of Inr (m, _) \<Rightarrow> m), fw_lresolver = sample_lr,
     fw_token = lit ''t'', fw_service_tx = 5, fw_work_as_global = False\<rparr>"

definition sample_question :: bytes where
  "sample_question = [0, 6, 1, 0, 0, 1, 0, 0, 0, 0, 0, 0, 1, 97, 1, 98, 0, 0, 1, 0, 1]"

definition empty_question :: bytes where
  "empty_question = [0, 6, 1, 0, 0, 0, 0, 0, 0, 0, 0, 0]"

definition sample_header :: dns_header where
  "sample_header = dns_header_new\<lparr>dh_id := 6, recursion_desired := True, questions_count := 1\<rparr>"

lemma sample_parse:
  "from_buffer id (bpb_new sample_question) =
   Inr (\<lparr>dp_header = sample_header, dp_questions = [\<lparr>q_name = lit ''a.b'', q_type = QA\<rparr>], dp_answers = [],
     dp_authorities = [], dp_resources = []\<rparr>, \<lparr>bp_buf = sample_question, bp_pos = 21\<rparr>)"
  by code_simp

lemma empty_parse:
  "from_buffer id (bpb_new empty_question) =
   Inr (\<lparr>dp_header = sample_header\<lparr>questions_count := 0\<rparr>, dp_questions = [], dp_answers = [],
     dp_authorities = [], dp_resources = []\<rparr>, \<lparr>bp_buf = empty_question, bp_pos = 12\<rparr>)"
  by code_simp

lemma sample_domap: "\<exists>eff. new_domap sample_env [lit ''a.b''] = Inr (fw_domap sample_fw, eff)"
  using new_domap_ok [of sample_env "[lit ''a.b'']"] by (auto simp: sample_fw_def)

lemma sample_fw_sel [simp]:
  "fw_tunnels sample_fw = [Some (dns_tunnel_new 0 1 2 9 0)]" "\<not> fw_discarded sample_fw"
  "\<not> fw_work_as_global sample_fw" "fw_service_tx sample_fw = 5"
  by (simp_all add: sample_fw_def)

lemma sample_env_sel [simp]: "e_lower sample_env = id" "e_alive sample_env = (\<lambda>_. True)" "e_big sample_env = False"
  by (simp_all add: sample_env_def)

lemma sample_remote: "remote_name sample_env [lit ''a.b''] (lit ''a.b'')"
  by (simp add: remote_name_def is_range_def ipv4range_parse_def sample_env_def lit_def split_on.simps slash_def
      domain_accepts_def domain_matches_def dot_def)

lemma dns_question_routed_witness:
  "on_dns_udp_msg sample_env sample_fw sample_question sample_client = Inr (sample_fw,
     [DEff (Sent 1 (wmessage_new (tun_msg ReqData (dns_body 4242 (client_u32 (sa_ip sample_client)) sample_question)) 0))], True)"
proof -
  obtain eff where m: "new_domap sample_env [lit ''a.b''] = Inr (fw_domap sample_fw, eff)" using sample_domap by blast
  have ok: "dt_ok t" if "t \<in> open_tunnels (fw_tunnels sample_fw)" for t using that by simp
  show ?thesis
    using dns_question_routed [OF sample_fw_sel(2) m ok sample_parse [folded sample_env_sel(1)],
        where src = sample_client and q = "\<lparr>q_name = lit ''a.b'', q_type = QA\<rparr>" and qs = "[]"] sample_remote
    by (simp add: tx_send_def dns_tunnel_new_def sample_client_def)
qed

definition sample_reply :: rmessage where
  "sample_reply = \<lparr>rm_buf = tun_msg ReqData (dns_body (sa_port sample_client) (client_u32 (sa_ip sample_client)) sample_question),
     rm_cached_length = 30, rm_error = None\<rparr>"

lemma dns_answer_saved_then_sent_witness:
  "\<exists>dest. fw_tunnel_msg sample_env 3 sample_fw 0 sample_reply = Inr (sample_fw, [DnsAdd 5 [], UdpOut 9 sample_question dest])
    \<and> (dest = sample_client \<longleftrightarrow> is_ipv4 (sa_ip sample_client))"
proof -
  have "rm_buf sample_reply = tun_msg ReqData (dns_body (sa_port sample_client) (client_u32 (sa_ip sample_client)) sample_question)"
    by (simp add: sample_reply_def)
  note a = dns_answer_saved_then_sent [where env = sample_env and fw = sample_fw and index = 0 and utx = 9 and now = 3,
      OF _ _ _ _ sample_parse [folded sample_env_sel(1)] this]
  show ?thesis using a by (simp add: dns_tunnel_new_def save_domain_record_def map_filter_simps)
qed


end
