(* ===== verification/X_Port.thy ===== *)
theory X_Port imports Tun_Mgr begin

text \<open>
  \<^verbatim>\<open>src/xport\<close>: the reverse tunnel, through which the relay reaches services on this machine. The relay
  names the slots here; each request is dialled to a local port.
\<close>

section \<open>Requests\<close>

record xrequest =
  xr_index :: u16
  xr_tag :: u16
  xr_is_inused :: bool
  xr_request_tx :: "chan option"
  xr_trigger :: "nat option"
  xr_wait_task :: "nat option"
  xr_rawfd :: "nat option"

datatype x_effect =
    Eff effect
  | Wake nat
  | XConnect str str
  | Dial u16 u16 u16

definition xrequest_new :: "u16 \<Rightarrow> xrequest" where
  "xrequest_new idx = \<lparr>xr_index = idx, xr_tag = 0, xr_is_inused = False, xr_request_tx = None, xr_trigger = None,
     xr_wait_task = None, xr_rawfd = None\<rparr>"

definition xreqq_new :: "nat \<Rightarrow> xrequest list" where
  "xreqq_new n = map (\<lambda>i. xrequest_new (word_of_nat i)) [0..<n]"

definition clean_xreq :: "xrequest \<Rightarrow> xrequest \<times> x_effect list" where
  "clean_xreq req =
     (req\<lparr>xr_request_tx := None, xr_trigger := None, xr_is_inused := False, xr_wait_task := None, xr_rawfd := None\<rparr>,
      (case xr_wait_task req of Some w \<Rightarrow> [Wake w] | None \<Rightarrow> [])
      @ (case xr_rawfd req of Some fd \<Rightarrow> [Eff (ShutdownFd fd)] | None \<Rightarrow> []))"

definition xreqq_alloc :: "xrequest list \<Rightarrow> u16 \<Rightarrow> u16 \<Rightarrow> xrequest list \<times> x_effect list" where
  "xreqq_alloc es req_idx req_tag =
     (let i = unat req_idx in
      if length es \<le> i then (es, [])
      else case clean_xreq (es ! i) of
        (req, eff) \<Rightarrow>
          (es[i := req\<lparr>xr_tag := req_tag, xr_request_tx := None, xr_trigger := None, xr_is_inused := True\<rparr>], eff))"

definition xreqq_free :: "xrequest list \<Rightarrow> u16 \<Rightarrow> u16 \<Rightarrow> xrequest list \<times> x_effect list \<times> bool" where
  "xreqq_free es idx tag =
     (let i = unat idx in
      if length es \<le> i then (es, [], False)
      else
        let req = es ! i in
        if xr_tag req \<noteq> tag then (es, [], False)
        else if \<not> xr_is_inused req then (es, [], False)
        else case clean_xreq req of (req, eff) \<Rightarrow> (es[i := req], eff, True))"

definition xreqq_clear_all :: "xrequest list \<Rightarrow> xrequest list \<times> x_effect list" where
  "xreqq_clear_all es = (map (fst \<circ> clean_xreq) es, concat (map (snd \<circ> clean_xreq) es))"

section \<open>The tunnel\<close>

record xtunnel =
  xt_url_string :: str
  xt_token :: str
  xt_dns_server :: str
  xt_discarded :: bool
  xt_need_reconnect :: bool
  xt_tun_tx :: "chan option"
  xt_keepalive_trigger :: bool
  xt_ping_count :: nat
  xt_rawfd :: "nat option"
  xt_time :: nat
  xt_req_count :: u16
  xt_requests :: "xrequest list"
  xt_req_cap :: u16

definition xtunnel_new :: "nat \<Rightarrow> str \<Rightarrow> str \<Rightarrow> str \<Rightarrow> xtunnel" where
  "xtunnel_new now xport_url token default_dns_server =
     (let req_cap = 128 in
      \<lparr>xt_url_string = xport_url, xt_token = token, xt_dns_server = default_dns_server, xt_discarded = False,
       xt_need_reconnect = False, xt_tun_tx = None, xt_keepalive_trigger = False, xt_ping_count = 0,
       xt_rawfd = None, xt_time = now, xt_req_count = 0, xt_requests = xreqq_new (unat req_cap),
       xt_req_cap = req_cap\<rparr>)"

text \<open>\<open>url_ok\<close>: the text parses and has a host and a port (\<^verbatim>\<open>unwrap\<close> three times).\<close>

definition xtunel_connect :: "(str \<Rightarrow> bool) \<Rightarrow> xtunnel \<Rightarrow> x_effect res" where
  "xtunel_connect url_ok x =
     (let ws_url = xt_url_string x @ lit ''?cap='' @ dec_digits (unat (xt_req_cap x)) @ lit ''&tok='' @ xt_token x
      in if url_ok ws_url then Inr (XConnect ws_url (xt_dns_server x)) else Inl Panicked)"

definition xt_start :: "(str \<Rightarrow> bool) \<Rightarrow> xtunnel \<Rightarrow> (xtunnel \<times> x_effect list) res" where
  "xt_start url_ok x =
     and_then (xtunel_connect url_ok x) (\<lambda>e. Inr (x\<lparr>xt_keepalive_trigger := True\<rparr>, [e]))"

definition xt_close_rawfd :: "xtunnel \<Rightarrow> xtunnel \<times> x_effect list" where
  "xt_close_rawfd x =
     (case xt_rawfd x of
        None \<Rightarrow> (x, [])
      | Some fd \<Rightarrow> (x\<lparr>xt_rawfd := None\<rparr>, [Eff (ShutdownFd fd)]))"

definition xt_stop :: "xtunnel \<Rightarrow> xtunnel \<times> x_effect list" where
  "xt_stop x =
     (if xt_discarded x then (x, [])
      else case xt_close_rawfd (x\<lparr>xt_discarded := True\<rparr>) of
        (x, eff) \<Rightarrow> (x\<lparr>xt_keepalive_trigger := False\<rparr>, eff))"

definition xt_on_tunnel_created :: "xtunnel \<Rightarrow> nat \<Rightarrow> chan \<Rightarrow> xtunnel \<times> bool" where
  "xt_on_tunnel_created x rawfd tx =
     (if xt_discarded x \<noteq> False then (x, False)
      else (x\<lparr>xt_rawfd := Some rawfd, xt_tun_tx := Some tx\<rparr>, True))"

definition xt_on_tunnel_closed :: "xtunnel \<Rightarrow> xtunnel \<times> x_effect list" where
  "xt_on_tunnel_closed x =
     (let t = xt_tun_tx x; x = x\<lparr>xt_rawfd := None, xt_tun_tx := None\<rparr> in
      if t \<noteq> None \<and> xt_discarded x then (x, [])
      else
        let x = (if t \<noteq> None then x\<lparr>xt_need_reconnect := True\<rparr> else x) in
        case xreqq_clear_all (xt_requests x) of (es, eff) \<Rightarrow> (x\<lparr>xt_requests := es\<rparr>, eff))"

definition xt_on_tunnel_build_error :: "xtunnel \<Rightarrow> xtunnel" where
  "xt_on_tunnel_build_error x =
     (if xt_discarded x \<noteq> False then x else x\<lparr>xt_need_reconnect := True\<rparr>)"

definition xt_get_elapsed_milliseconds :: "nat \<Rightarrow> xtunnel \<Rightarrow> u64" where
  "xt_get_elapsed_milliseconds now x = word_of_nat (now - xt_time x)"

definition xt_send_ping :: "(chan \<Rightarrow> bool) \<Rightarrow> nat \<Rightarrow> xtunnel \<Rightarrow> (xtunnel \<times> x_effect list) res" where
  "xt_send_ping alive now x =
     (if 5 < xt_ping_count x then Inr (xt_close_rawfd x)
      else case xt_tun_tx x of
        None \<Rightarrow> Inr (x, [])
      | Some tx \<Rightarrow>
          let timestamp = xt_get_elapsed_milliseconds now x in
          and_then (put_at 0 (le16 11) (replicate 11 0)) (\<lambda>bs.
          and_then (put_at 2 [cmd_code Ping] bs) (\<lambda>bs.
          and_then (put_at 3 (le64 timestamp) bs) (\<lambda>bs.
          case tx_send alive tx (wmessage_new bs 0) of
            (eff, ok) \<Rightarrow>
              Inr (if ok then x\<lparr>xt_ping_count := xt_ping_count x + 1\<rparr> else x, map Eff eff)))))"

definition xt_process_reconnect :: "(str \<Rightarrow> bool) \<Rightarrow> xtunnel \<Rightarrow> (xtunnel \<times> x_effect list) res" where
  "xt_process_reconnect url_ok x =
     (if xt_need_reconnect x then
        and_then (xtunel_connect url_ok x) (\<lambda>e.
        Inr (x\<lparr>xt_ping_count := 0, xt_need_reconnect := False\<rparr>, [e]))
      else Inr (x, []))"

definition xt_keepalive ::
  "(chan \<Rightarrow> bool) \<Rightarrow> (str \<Rightarrow> bool) \<Rightarrow> nat \<Rightarrow> xtunnel \<Rightarrow> (xtunnel \<times> x_effect list) res" where
  "xt_keepalive alive url_ok now x =
     (if xt_discarded x \<noteq> False then Inr (x, [])
      else
        and_then (xt_send_ping alive now x) (\<lambda>(x, eff).
        and_then (xt_process_reconnect url_ok x) (\<lambda>(x, eff2). Inr (x, eff @ eff2))))"

section \<open>Requests of the relay\<close>

definition xt_get_request_tx :: "xtunnel \<Rightarrow> u16 \<Rightarrow> u16 \<Rightarrow> chan option" where
  "xt_get_request_tx x req_idx req_tag =
     (let es = xt_requests x in
      if length es \<le> unat req_idx then None
      else
        let req = es ! unat req_idx in
        if xr_tag req = req_tag \<and> xr_request_tx req \<noteq> None then xr_request_tx req else None)"

definition xt_free_request_tx :: "xtunnel \<Rightarrow> u16 \<Rightarrow> u16 \<Rightarrow> xtunnel" where
  "xt_free_request_tx x req_idx req_tag =
     (let es = xt_requests x in
      if length es \<le> unat req_idx then x
      else
        let req = es ! unat req_idx in
        if xr_tag req = req_tag \<and> xr_request_tx req \<noteq> None then
          x\<lparr>xt_requests := es[unat req_idx := req\<lparr>xr_request_tx := None\<rparr>]\<rparr>
        else x)"

definition save_request_tx :: "xtunnel \<Rightarrow> chan \<Rightarrow> nat \<Rightarrow> u16 \<Rightarrow> u16 \<Rightarrow> xtunnel res" where
  "save_request_tx x tx trigger req_idx req_tag =
     (if xt_discarded x then Inl Discarded
      else
        let es = xt_requests x; i = unat req_idx in
        if length es \<le> i then Inl Discarded
        else if xr_tag (es ! i) \<noteq> req_tag then Inl Discarded
        else Inr (x\<lparr>xt_requests := es[i := (es ! i)\<lparr>xr_trigger := Some trigger, xr_request_tx := Some tx\<rparr>]\<rparr>))"

definition check_req_valid :: "xtunnel \<Rightarrow> u16 \<Rightarrow> u16 \<Rightarrow> bool" where
  "check_req_valid x req_idx req_tag =
     (let es = xt_requests x; i = unat req_idx in
      if length es \<le> i then False
      else if \<not> xr_is_inused (es ! i) then False
      else if xr_tag (es ! i) \<noteq> req_tag then False
      else True)"

text \<open>\<open>tx\<close> and \<open>trigger\<close> are the channel and the tripwire made for the request; \<open>Dial\<close> spawns the future.\<close>

definition proxy_request ::
  "xtunnel \<Rightarrow> chan \<Rightarrow> nat \<Rightarrow> u16 \<Rightarrow> u16 \<Rightarrow> u16 \<Rightarrow> xtunnel \<times> x_effect list \<times> bool" where
  "proxy_request x tx trigger req_idx req_tag port =
     (case save_request_tx x tx trigger req_idx req_tag of
        Inl _ \<Rightarrow> (x, [], False)
      | Inr x \<Rightarrow> (x, [Dial req_idx req_tag port], True))"

definition xt_on_request_closed :: "(chan \<Rightarrow> bool) \<Rightarrow> xtunnel \<Rightarrow> u16 \<Rightarrow> u16 \<Rightarrow> (xtunnel \<times> x_effect list) res" where
  "xt_on_request_closed alive x req_idx req_tag =
     (if \<not> check_req_valid x req_idx req_tag then Inr (x, [])
      else case xt_tun_tx x of
        None \<Rightarrow> Inr (x, [])
      | Some tx \<Rightarrow>
          (case xreqq_free (xt_requests x) req_idx req_tag of
             (es, eff, r) \<Rightarrow>
               let x = x\<lparr>xt_requests := es\<rparr> in
               if r then
                 let x = x\<lparr>xt_req_count := xt_req_count x - 1\<rparr>; hsize = 3 + THEADER_SIZE in
                 and_then (put_at 0 (le16 (word_of_nat hsize)) (replicate hsize 0)) (\<lambda>buf.
                 and_then (put_at 2 [cmd_code ReqServerClosed] buf) (\<lambda>buf.
                 and_then (theader_write_to (theader_new req_idx req_tag) 3 buf) (\<lambda>buf.
                 Inr (x, eff @ map Eff (fst (tx_send alive tx (wmessage_new buf 0)))))))
               else Inr (x, eff)))"

definition xt_on_request_connect_error ::
  "(chan \<Rightarrow> bool) \<Rightarrow> xtunnel \<Rightarrow> u16 \<Rightarrow> u16 \<Rightarrow> (xtunnel \<times> x_effect list) res" where
  "xt_on_request_connect_error alive x req_idx req_tag = xt_on_request_closed alive x req_idx req_tag"

text \<open>How the dial of \<^verbatim>\<open>proxy_request\<close> ends. Only the timeout reports to the tunnel.\<close>

datatype dial_result = DialTimedOut | DialFailed | DialConnected

definition proxy_request_dialled ::
  "(chan \<Rightarrow> bool) \<Rightarrow> xtunnel \<Rightarrow> u16 \<Rightarrow> u16 \<Rightarrow> dial_result \<Rightarrow> (xtunnel \<times> x_effect list) res" where
  "proxy_request_dialled alive x req_idx req_tag result =
     (case result of
        DialTimedOut \<Rightarrow> xt_on_request_connect_error alive x req_idx req_tag
      | DialConnected \<Rightarrow> Inr (x, [])
      | DialFailed \<Rightarrow> Inr (x, []))"

definition xt_on_request_recv_finished ::
  "(chan \<Rightarrow> bool) \<Rightarrow> xtunnel \<Rightarrow> u16 \<Rightarrow> u16 \<Rightarrow> x_effect list res" where
  "xt_on_request_recv_finished alive x req_idx req_tag =
     (if \<not> check_req_valid x req_idx req_tag then Inr []
      else case xt_tun_tx x of
        None \<Rightarrow> Inr []
      | Some tx \<Rightarrow>
          let hsize = 3 + THEADER_SIZE in
          and_then (put_at 0 (le16 (word_of_nat hsize)) (replicate hsize 0)) (\<lambda>buf.
          and_then (put_at 2 [cmd_code ReqServerFinished] buf) (\<lambda>buf.
          and_then (theader_write_to (theader_new req_idx req_tag) 3 buf) (\<lambda>buf.
          Inr (map Eff (fst (tx_send alive tx (wmessage_new buf 0))))))))"

definition xt_on_request_msg ::
  "(chan \<Rightarrow> bool) \<Rightarrow> xtunnel \<Rightarrow> tmessage \<Rightarrow> u16 \<Rightarrow> u16 \<Rightarrow> (x_effect list \<times> bool) res" where
  "xt_on_request_msg alive x message req_idx req_tag =
     (if \<not> check_req_valid x req_idx req_tag then Inr ([], False)
      else case xt_tun_tx x of
        None \<Rightarrow> Inr ([], False)
      | Some tx \<Rightarrow>
          let vec = tm_buf message; ll = length vec in
          and_then (put_at 0 (le16 (word_of_nat ll)) vec) (\<lambda>vec.
          and_then (put_at 2 [cmd_code ReqData] vec) (\<lambda>vec.
          and_then (theader_write_to (theader_new req_idx req_tag) 3 vec) (\<lambda>vec.
          case tx_send alive tx (wmessage_new vec 0) of (eff, ok) \<Rightarrow> Inr (map Eff eff, ok)))))"

section \<open>Dispatch\<close>

definition xt_reply_ping :: "(chan \<Rightarrow> bool) \<Rightarrow> xtunnel \<Rightarrow> rmessage \<Rightarrow> x_effect list res" where
  "xt_reply_ping alive x msg =
     (case xt_tun_tx x of
        None \<Rightarrow> Inr []
      | Some tx \<Rightarrow>
          and_then (put_at 2 [cmd_code Pong] (rm_buf msg)) (\<lambda>vec.
          Inr (map Eff (fst (tx_send alive tx (wmessage_new vec 0))))))"

definition xt_on_pong :: "nat \<Rightarrow> xtunnel \<Rightarrow> bytes \<Rightarrow> xtunnel res" where
  "xt_on_pong now x bs =
     (if length bs \<noteq> 8 then Inr x
      else
        let x = x\<lparr>xt_ping_count := 0\<rparr> in
        and_then (rd_u64 bs 0) (\<lambda>(timestamp, _).
        if xt_get_elapsed_milliseconds now x < timestamp then Inl Panicked else Inr x))"

definition xt_on_tunnel_proxy_msg ::
  "(chan \<Rightarrow> bool) \<Rightarrow> chan \<Rightarrow> nat \<Rightarrow> xtunnel \<Rightarrow> cmd \<Rightarrow> rmessage \<Rightarrow> (xtunnel \<times> x_effect list) res" where
  "xt_on_tunnel_proxy_msg alive new_tx new_trigger x cmd msg =
     (let vec = rm_buf msg in
      and_then (slice_from 3 vec) (\<lambda>bs.
      and_then (theader_read_from bs) (\<lambda>th.
      and_then (slice_from THEADER_SIZE bs) (\<lambda>bs.
      let req_idx = th_req_idx th; req_tag = th_req_tag th in
      case cmd of
        ReqData \<Rightarrow>
          (case xt_get_request_tx x req_idx req_tag of
             None \<Rightarrow> Inr (x, [])
           | Some tx \<Rightarrow>
               Inr (x, map Eff (fst (tx_send alive tx (wmessage_new vec (word_of_nat (3 + THEADER_SIZE)))))))
      | ReqClientFinished \<Rightarrow> Inr (xt_free_request_tx x req_idx req_tag, [])
      | ReqClientClosed \<Rightarrow>
          (case xreqq_free (xt_requests x) req_idx req_tag of
             (es, eff, r) \<Rightarrow>
               let x = x\<lparr>xt_requests := es\<rparr> in
               Inr (if r \<and> 0 < xt_req_count x then x\<lparr>xt_req_count := xt_req_count x - 1\<rparr> else x, eff))
      | ReqCreated \<Rightarrow>
          and_then (rd_u16 bs 0) (\<lambda>(port, _).
          case xreqq_alloc (xt_requests x) req_idx req_tag of
            (es, eff) \<Rightarrow>
              (case proxy_request (x\<lparr>xt_requests := es\<rparr>) new_tx new_trigger req_idx req_tag port of
                 (x, eff2, ok) \<Rightarrow>
                   Inr (if ok then x\<lparr>xt_req_count := xt_req_count x + 1\<rparr> else x, eff @ eff2)))
      | _ \<Rightarrow> Inr (x, [])))))"

definition xt_on_tunnel_msg ::
  "(chan \<Rightarrow> bool) \<Rightarrow> nat \<Rightarrow> chan \<Rightarrow> nat \<Rightarrow> xtunnel \<Rightarrow> rmessage \<Rightarrow> (xtunnel \<times> x_effect list) res" where
  "xt_on_tunnel_msg alive now new_tx new_trigger x msg =
     and_then (slice_from 2 (rm_buf msg)) (\<lambda>bs.
     and_then (rd_u8 bs 0) (\<lambda>(cmd, _).
     and_then (slice_from 1 bs) (\<lambda>bs.
     and_then (cmd_from cmd) (\<lambda>cmd.
     case cmd of
       Ping \<Rightarrow> and_then (xt_reply_ping alive x msg) (\<lambda>eff. Inr (x, eff))
     | Pong \<Rightarrow> and_then (xt_on_pong now x bs) (\<lambda>x. Inr (x, []))
     | _ \<Rightarrow> xt_on_tunnel_proxy_msg alive new_tx new_trigger x cmd msg))))"

section \<open>Slots\<close>

lemma check_req_valid_iff:
  "check_req_valid x i t \<longleftrightarrow> unat i < length (xt_requests x) \<and> xr_is_inused (xt_requests x ! unat i)
     \<and> xr_tag (xt_requests x ! unat i) = t"
  by (auto simp: check_req_valid_def Let_def not_le)

lemma xreqq_free_valid:
  "check_req_valid x i t \<Longrightarrow> xreqq_free (xt_requests x) i t
   = ((xt_requests x)[unat i := fst (clean_xreq (xt_requests x ! unat i))], snd (clean_xreq (xt_requests x ! unat i)), True)"
  by (simp add: check_req_valid_iff xreqq_free_def Let_def split_beta)

lemma xreqq_free_invalid: "\<not> check_req_valid x i t \<Longrightarrow> xreqq_free (xt_requests x) i t = (xt_requests x, [], False)"
  by (auto simp: check_req_valid_iff xreqq_free_def Let_def)

lemma clean_not_inused: "\<not> xr_is_inused (fst (clean_xreq r))"
  by (simp add: clean_xreq_def)

lemma server_messages:
  "and_then (put_at 0 (le16 (word_of_nat (3 + THEADER_SIZE))) (replicate (3 + THEADER_SIZE) 0)) (\<lambda>buf.
   and_then (put_at 2 [cmd_code c] buf) (\<lambda>buf.
   and_then (theader_write_to (theader_new i t) 3 buf) f)) = f (tun_msg c (req_body i t []))"
  by (simp add: put_at_def theader_write_to_def theader_new_def tun_msg_def req_body_def le16_def THEADER_SIZE_def)

lemma closed_valid:
  assumes "check_req_valid x i t" "xt_tun_tx x = Some tx"
  shows "xt_on_request_closed alive x i t = Inr
    (x\<lparr>xt_requests := (xt_requests x)[unat i := fst (clean_xreq (xt_requests x ! unat i))], xt_req_count := xt_req_count x - 1\<rparr>,
     snd (clean_xreq (xt_requests x ! unat i))
     @ map Eff (fst (tx_send alive tx (wmessage_new (tun_msg ReqServerClosed (req_body i t [])) 0))))"
  unfolding xt_on_request_closed_def xreqq_free_valid [OF assms(1)] Let_def server_messages
  using assms by simp

lemma xt_dispatch:
  assumes "rm_buf msg = tun_msg c (req_body i t p)" "c \<noteq> Ping" "c \<noteq> Pong"
  shows "xt_on_tunnel_msg alive now tx tr x msg = (case c of
        ReqData \<Rightarrow>
          (case xt_get_request_tx x i t of
             None \<Rightarrow> Inr (x, [])
           | Some tx \<Rightarrow> Inr (x, map Eff (fst (tx_send alive tx (wmessage_new (rm_buf msg) 7)))))
      | ReqClientFinished \<Rightarrow> Inr (xt_free_request_tx x i t, [])
      | ReqClientClosed \<Rightarrow>
          (case xreqq_free (xt_requests x) i t of
             (es, eff, r) \<Rightarrow>
               Inr (if r \<and> 0 < xt_req_count x then x\<lparr>xt_requests := es, xt_req_count := xt_req_count x - 1\<rparr>
                    else x\<lparr>xt_requests := es\<rparr>, eff))
      | ReqCreated \<Rightarrow>
          and_then (rd_u16 p 0) (\<lambda>(port, _).
          case xreqq_alloc (xt_requests x) i t of
            (es, eff) \<Rightarrow>
              (case proxy_request (x\<lparr>xt_requests := es\<rparr>) tx tr i t port of
                 (x, eff2, ok) \<Rightarrow> Inr (if ok then x\<lparr>xt_req_count := xt_req_count x + 1\<rparr> else x, eff @ eff2)))
      | _ \<Rightarrow> Inr (x, []))"
proof -
  obtain a b where buf: "rm_buf msg = a # b # cmd_code c # le16 i @ le16 t @ p"
    using assms(1) tun_msg_take by (metis req_body_def)
  have th: "slice_from THEADER_SIZE (le16 i @ le16 t @ p) = Inr p"
    by (simp add: slice_from_def THEADER_SIZE_def)
  have s3: "slice_from 3 (a # b # cmd_code c # le16 i @ le16 t @ p) = Inr (le16 i @ le16 t @ p)"
    by (simp add: slice_from_def numeral_3_eq_3)
  have proxy: "xt_on_tunnel_msg alive now tx tr x msg = xt_on_tunnel_proxy_msg alive tx tr x c msg"
    using assms(2,3) by (cases c) (simp_all add: xt_on_tunnel_msg_def buf slice_from_def rd_u8_def del: cmd_code.simps)
  show ?thesis
    unfolding proxy xt_on_tunnel_proxy_msg_def buf Let_def s3 and_then_simps theader_read_back th
    by (cases c) (auto simp: theader_new_def THEADER_SIZE_def split: prod.splits option.splits intro!: and_then_eqI)
qed

section \<open>Connecting\<close>

datatype x_event =
    XBuilt nat chan
  | XBuildFailed
  | XEnded
  | XKeepAlive nat
  | XMsg nat chan nat rmessage
  | XReqClosed u16 u16
  | XDialled u16 u16 dial_result
  | XStop

fun xconnects :: "x_effect list \<Rightarrow> nat" where
  "xconnects [] = 0"
| "xconnects (XConnect _ _ # es) = Suc (xconnects es)"
| "xconnects (_ # es) = xconnects es"

text \<open>The tunnel with the number of builders at work.\<close>

fun x_step :: "(chan \<Rightarrow> bool) \<Rightarrow> (str \<Rightarrow> bool) \<Rightarrow> xtunnel \<times> nat \<Rightarrow> x_event \<Rightarrow> (xtunnel \<times> nat) res" where
  "x_step alive url_ok (x, d) (XBuilt fd tx) = Inr (fst (xt_on_tunnel_created x fd tx), d - 1)"
| "x_step alive url_ok (x, d) XBuildFailed = Inr (xt_on_tunnel_build_error x, d - 1)"
| "x_step alive url_ok (x, d) XEnded = Inr (fst (xt_on_tunnel_closed x), d)"
| "x_step alive url_ok (x, d) (XKeepAlive now) =
     and_then (xt_keepalive alive url_ok now x) (\<lambda>(x, eff). Inr (x, d + xconnects eff))"
| "x_step alive url_ok (x, d) (XMsg now tx tr msg) =
     and_then (xt_on_tunnel_msg alive now tx tr x msg) (\<lambda>(x, _). Inr (x, d))"
| "x_step alive url_ok (x, d) (XReqClosed i t) =
     and_then (xt_on_request_closed alive x i t) (\<lambda>(x, _). Inr (x, d))"
| "x_step alive url_ok (x, d) (XDialled i t r) =
     and_then (proxy_request_dialled alive x i t r) (\<lambda>(x, _). Inr (x, d))"
| "x_step alive url_ok (x, d) XStop = Inr (fst (xt_stop x), d)"

fun x_enabled :: "xtunnel \<times> nat \<Rightarrow> x_event \<Rightarrow> bool" where
  "x_enabled (x, d) (XBuilt _ _) \<longleftrightarrow> 0 < d"
| "x_enabled (x, d) XBuildFailed \<longleftrightarrow> 0 < d"
| "x_enabled (x, d) XEnded \<longleftrightarrow> xt_tun_tx x \<noteq> None"
| "x_enabled (x, d) _ \<longleftrightarrow> True"

inductive x_reaches :: "(chan \<Rightarrow> bool) \<Rightarrow> (str \<Rightarrow> bool) \<Rightarrow> xtunnel \<times> nat \<Rightarrow> xtunnel \<times> nat \<Rightarrow> bool"
  for alive url_ok s0 where
  started: "x_reaches alive url_ok s0 s0"
| event: "x_reaches alive url_ok s0 s \<Longrightarrow> x_enabled s e \<Longrightarrow> x_step alive url_ok s e = Inr s' \<Longrightarrow>
    x_reaches alive url_ok s0 s'"

definition x_owners :: "xtunnel \<Rightarrow> nat \<Rightarrow> nat" where
  "x_owners x d = d + (if xt_tun_tx x \<noteq> None then 1 else 0) + (if xt_need_reconnect x then 1 else 0)"

definition x_ok :: "xtunnel \<times> nat \<Rightarrow> bool" where
  "x_ok s \<longleftrightarrow> x_owners (fst s) (snd s) \<le> 1 \<and> (\<not> xt_discarded (fst s) \<longrightarrow> x_owners (fst s) (snd s) = 1)"

text \<open>What requests do leaves the connection alone.\<close>

definition same_conn :: "xtunnel \<Rightarrow> xtunnel \<Rightarrow> bool" where
  "same_conn x y \<longleftrightarrow> xt_tun_tx x = xt_tun_tx y \<and> xt_need_reconnect x = xt_need_reconnect y
     \<and> xt_discarded x = xt_discarded y"

lemma same_conn_ok: "same_conn x y \<Longrightarrow> x_ok (x, d) = x_ok (y, d)"
  by (simp add: same_conn_def x_ok_def x_owners_def)

lemma closed_same_conn:
  assumes "xt_on_request_closed alive x i t = Inr (y, eff)"
  shows "same_conn x y"
proof (cases "check_req_valid x i t")
  case True
  then show ?thesis using assms closed_valid [OF True]
    by (cases "xt_tun_tx x") (auto simp: same_conn_def xt_on_request_closed_def [of _ _ i t] simp del: split_paired_Ex)
next
  case False
  then show ?thesis using assms by (simp add: xt_on_request_closed_def same_conn_def)
qed

lemma proxy_request_same_conn: "proxy_request x tx tr i t port = (y, eff, ok) \<Longrightarrow> same_conn x y"
  by (auto simp: proxy_request_def save_request_tx_def same_conn_def Let_def split: if_splits)

lemma proxy_msg_same_conn:
  assumes "xt_on_tunnel_proxy_msg alive tx tr x c msg = Inr (y, eff)"
  shows "same_conn x y"
proof -
  obtain bs th p where p: "slice_from 3 (rm_buf msg) = Inr bs" "theader_read_from bs = Inr th"
      "slice_from THEADER_SIZE bs = Inr p"
    using assms by (auto simp: xt_on_tunnel_proxy_msg_def and_then_Inr_iff Let_def)
  note res = assms [unfolded xt_on_tunnel_proxy_msg_def Let_def p and_then_simps]
  let ?i = "th_req_idx th" and ?t = "th_req_tag th"
  show ?thesis
  proof (cases c)
    case ReqData
    then show ?thesis using res by (cases "xt_get_request_tx x ?i ?t") (auto simp: same_conn_def)
  next
    case ReqClientFinished
    moreover have "same_conn x (xt_free_request_tx x ?i ?t)" by (simp add: same_conn_def xt_free_request_tx_def Let_def)
    ultimately show ?thesis using res by simp
  next
    case ReqClientClosed
    obtain es eff1 r where "xreqq_free (xt_requests x) ?i ?t = (es, eff1, r)" by (metis surj_pair)
    then show ?thesis using res ReqClientClosed by (auto simp: same_conn_def split: if_splits)
  next
    case ReqCreated
    obtain port off where port: "rd_u16 p 0 = Inr (port, off)"
      using res ReqCreated by (auto simp: and_then_Inr_iff)
    obtain es eff1 where es: "xreqq_alloc (xt_requests x) ?i ?t = (es, eff1)" by (metis surj_pair)
    obtain z eff2 ok where z: "proxy_request (x\<lparr>xt_requests := es\<rparr>) tx tr ?i ?t port = (z, eff2, ok)"
      by (metis surj_pair)
    have "same_conn x z" using proxy_request_same_conn [OF z] by (simp add: same_conn_def)
    then show ?thesis using res ReqCreated port es z by (auto simp: same_conn_def split: if_splits)
  qed (use res in \<open>auto simp: same_conn_def\<close>)
qed

lemma msg_same_conn:
  assumes "xt_on_tunnel_msg alive now tx tr x msg = Inr (y, eff)"
  shows "same_conn x y"
proof -
  obtain c bs where c: "(case c of
       Ping \<Rightarrow> and_then (xt_reply_ping alive x msg) (\<lambda>eff. Inr (x, eff))
     | Pong \<Rightarrow> and_then (xt_on_pong now x bs) (\<lambda>x. Inr (x, []))
     | _ \<Rightarrow> xt_on_tunnel_proxy_msg alive tx tr x c msg) = Inr (y, eff)"
    using assms unfolding xt_on_tunnel_msg_def by (auto simp: and_then_Inr_iff)
  then show ?thesis
    using proxy_msg_same_conn [of alive tx tr x c msg y eff]
    by (cases c) (auto simp: and_then_Inr_iff same_conn_def xt_on_pong_def Let_def split: if_splits)
qed

lemma xconnects_eff [simp]: "xconnects (map Eff es) = 0"
  by (induction es) simp_all

lemma xconnects_append [simp]: "xconnects (xs @ ys) = xconnects xs + xconnects ys"
  by (induction xs rule: xconnects.induct) simp_all

lemma xt_send_ping_ok:
  "\<exists>y eff. xt_send_ping alive now x = Inr (y, eff) \<and> same_conn x y \<and> xconnects eff = 0"
proof -
  have bs: "and_then (put_at 0 (le16 11) (replicate 11 0)) (\<lambda>bs. and_then (put_at 2 [8] bs) (\<lambda>bs.
      and_then (put_at 3 (le64 ts) bs) f)) = f ([11, 0, 8] @ le64 ts)" for ts and f :: "bytes \<Rightarrow> 'b res"
    by (simp add: put_at_def le16_def le64_def le32_def)
  show ?thesis
  proof (cases "5 < xt_ping_count x")
    case True
    then show ?thesis
      by (cases "xt_rawfd x") (simp_all add: xt_send_ping_def xt_close_rawfd_def same_conn_def)
  next
    case False
    show ?thesis
    proof (cases "xt_tun_tx x")
      case None
      then show ?thesis using False by (simp add: xt_send_ping_def same_conn_def)
    next
      case (Some tx)
      then show ?thesis using False by (auto simp: xt_send_ping_def bs Let_def tx_send_def same_conn_def)
    qed
  qed
qed

lemma xt_keepalive_ok:
  assumes ok: "x_ok (x, d)" and url: "\<And>txt. url_ok txt"
  shows "\<exists>y eff. xt_keepalive alive url_ok now x = Inr (y, eff) \<and> x_ok (y, d + xconnects eff) \<and>
    (\<not> xt_discarded x \<longrightarrow> \<not> xt_need_reconnect y \<and> (xt_need_reconnect x \<longrightarrow> xconnects eff = 1))"
proof (cases "xt_discarded x")
  case True
  then show ?thesis using ok by (simp add: xt_keepalive_def)
next
  case False
  obtain y eff where p: "xt_send_ping alive now x = Inr (y, eff)" "same_conn x y" "xconnects eff = 0"
    using xt_send_ping_ok by blast
  show ?thesis
    using False p ok url
    by (cases "xt_need_reconnect y")
       (auto simp: xt_keepalive_def xt_process_reconnect_def xtunel_connect_def Let_def same_conn_def x_ok_def x_owners_def)
qed

lemma x_step_ok:
  assumes ok: "x_ok s" and en: "x_enabled s e" and url: "\<And>txt. url_ok txt"
    and step: "x_step alive url_ok s e = Inr s'"
  shows "x_ok s'"
proof -
  obtain x d where s: "s = (x, d)" by fastforce
  note ok = ok [unfolded s] and en = en [unfolded s] and step = step [unfolded s]
  show ?thesis
  proof (cases e)
    case (XBuilt fd tx)
    then show ?thesis using ok en step
      by (auto simp: xt_on_tunnel_created_def x_ok_def x_owners_def split: if_splits)
  next
    case XBuildFailed
    then show ?thesis using ok en step
      by (auto simp: xt_on_tunnel_build_error_def x_ok_def x_owners_def split: if_splits)
  next
    case XEnded
    then show ?thesis using ok en step
      by (auto simp: xt_on_tunnel_closed_def x_ok_def x_owners_def Let_def split: if_splits prod.splits)
  next
    case (XKeepAlive now)
    then show ?thesis using xt_keepalive_ok [where url_ok = url_ok, OF ok url, of alive now] step by auto
  next
    case (XMsg now tx tr msg)
    then obtain y eff where "xt_on_tunnel_msg alive now tx tr x msg = Inr (y, eff)" "s' = (y, d)"
      using step by (auto simp: and_then_Inr_iff)
    then show ?thesis using msg_same_conn same_conn_ok ok by blast
  next
    case (XReqClosed i t)
    then obtain y eff where "xt_on_request_closed alive x i t = Inr (y, eff)" "s' = (y, d)"
      using step by (auto simp: and_then_Inr_iff)
    then show ?thesis using closed_same_conn same_conn_ok ok by blast
  next
    case (XDialled i t r)
    then obtain y eff where "proxy_request_dialled alive x i t r = Inr (y, eff)" "s' = (y, d)"
      using step by (auto simp: and_then_Inr_iff)
    moreover from this(1) have "same_conn x y"
      using closed_same_conn
      by (cases r) (auto simp: proxy_request_dialled_def xt_on_request_connect_error_def same_conn_def)
    ultimately show ?thesis using same_conn_ok ok by blast
  next
    case XStop
    then show ?thesis using ok step
      by (auto simp: xt_stop_def xt_close_rawfd_def x_ok_def x_owners_def split: if_splits option.splits prod.splits)
  qed
qed

lemma x_reaches_ok:
  "x_reaches alive url_ok s0 s \<Longrightarrow> x_ok s0 \<Longrightarrow> (\<And>txt. url_ok txt) \<Longrightarrow> x_ok s"
  by (induction rule: x_reaches.induct) (blast intro: x_step_ok)+

section \<open>Properties\<close>



text \<open>
  A request the relay opens on a slot of the table is dialled on its port and from then on owns
  that slot: its data reaches the new channel, its previous owner's handle is refused. A slot out of
  range, or a stopped tunnel, dials nothing.
\<close>

theorem xport_request_opened:
  assumes "rm_buf msg = tun_msg ReqCreated (req_body i t (le16 port))"
  shows "\<exists>y eff. xt_on_tunnel_msg alive now tx tr x msg = Inr (y, eff) \<and>
    (if unat i < length (xt_requests x) \<and> \<not> xt_discarded x then
       last eff = Dial i t port \<and> check_req_valid y i t \<and> xt_get_request_tx y i t = Some tx \<and>
       (\<forall>t'. t' \<noteq> t \<longrightarrow> \<not> check_req_valid y i t' \<and> xt_get_request_tx y i t' = None)
     else \<forall>e \<in> set eff. \<forall>a b c. e \<noteq> Dial a b c)"
proof -
  have port: "rd_u16 (le16 port) 0 = Inr (port, 2)" using rd_u16_append [of "[]" 0 port "[]"] by simp
  note step = xt_dispatch [OF assms, simplified cmd.case cmd.distinct simp_thms, OF TrueI TrueI]
  show ?thesis
  proof (cases "unat i < length (xt_requests x)")
    case True
    obtain r e where r: "clean_xreq (xt_requests x ! unat i) = (r, e)" by fastforce
    then have e: "\<forall>e' \<in> set e. \<forall>a b c. e' \<noteq> Dial a b c" by (auto simp: clean_xreq_def split: option.splits)
    show ?thesis using True e
      by (cases "xt_discarded x")
        (auto simp: step port xreqq_alloc_def r proxy_request_def save_request_tx_def check_req_valid_iff
          xt_get_request_tx_def Let_def)
  next
    case False
    then show ?thesis
      by (cases "xt_discarded x")
        (auto simp: step port xreqq_alloc_def proxy_request_def save_request_tx_def Let_def)
  qed
qed

lemma xport_request_opened_witness:
  "\<exists>y eff. xt_on_tunnel_msg (\<lambda>_. True) 0 7 8 (xtunnel_new 0 [] [] []) (received (tun_msg ReqCreated (req_body 3 5 (le16 22))) 9) = Inr (y, eff) \<and>
    (if unat (3 :: u16) < length (xt_requests (xtunnel_new 0 [] [] [])) \<and> \<not> xt_discarded (xtunnel_new 0 [] [] []) then
       last eff = Dial 3 5 22 \<and> check_req_valid y 3 5 \<and> xt_get_request_tx y 3 5 = Some 7 \<and>
       (\<forall>t'. t' \<noteq> 5 \<longrightarrow> \<not> check_req_valid y 3 t' \<and> xt_get_request_tx y 3 t' = None)
     else \<forall>e \<in> set eff. \<forall>a b c. e \<noteq> Dial a b c)"
  by (rule xport_request_opened) (simp add: received_def)

text \<open>
  A dial that times out frees the slot and tells the relay that the request is closed; a dial that
  is refused, which is what a closed port answers, does neither: the slot stays in use and the relay
  is told nothing.
\<close>

theorem refused_dial_leaks:
  assumes "check_req_valid x i t" "xt_tun_tx x = Some tx" "alive tx"
  shows "(\<exists>y eff. proxy_request_dialled alive x i t DialTimedOut = Inr (y, eff) \<and> \<not> check_req_valid y i t \<and>
      Eff (Sent tx (wmessage_new (tun_msg ReqServerClosed (req_body i t [])) 0)) \<in> set eff) \<and>
    proxy_request_dialled alive x i t DialFailed = Inr (x, [])"
proof
  show "\<exists>y eff. proxy_request_dialled alive x i t DialTimedOut = Inr (y, eff) \<and> \<not> check_req_valid y i t \<and>
      Eff (Sent tx (wmessage_new (tun_msg ReqServerClosed (req_body i t [])) 0)) \<in> set eff"
    using closed_valid [OF assms(1,2), of alive] assms
    by (auto simp: proxy_request_dialled_def xt_on_request_connect_error_def check_req_valid_iff tx_send_def clean_not_inused)
  show "proxy_request_dialled alive x i t DialFailed = Inr (x, [])"
    by (simp add: proxy_request_dialled_def)
qed

definition one_request :: xtunnel where
  "one_request = (xtunnel_new 0 [] [] [])\<lparr>xt_tun_tx := Some 4,
     xt_requests := [(xrequest_new 0)\<lparr>xr_tag := 9, xr_is_inused := True\<rparr>], xt_req_count := 1\<rparr>"

lemma refused_dial_leaks_witness:
  "check_req_valid one_request 0 9 \<and> proxy_request_dialled (\<lambda>_. True) one_request 0 9 DialFailed = Inr (one_request, [])"
  using refused_dial_leaks [of one_request 0 9 4 "\<lambda>_. True"]
  by (simp add: one_request_def check_req_valid_iff)

text \<open>
  A request is closed once: after a close, by either side, a further close of the same handle
  changes nothing and sends nothing.
\<close>

theorem xport_closed_once:
  assumes "xt_tun_tx x = Some tx"
    "xt_on_request_closed alive x i t = Inr (y, eff) \<or>
     rm_buf msg = tun_msg ReqClientClosed (req_body i t []) \<and> xt_on_tunnel_msg alive now ntx ntr x msg = Inr (y, eff)"
  shows "xt_on_request_closed alive y i t = Inr (y, [])"
proof -
  have "\<not> check_req_valid y i t"
  proof (cases "check_req_valid x i t")
    case True
    have "xt_requests y = (xt_requests x)[unat i := fst (clean_xreq (xt_requests x ! unat i))]" using assms(2)
    proof
      assume "xt_on_request_closed alive x i t = Inr (y, eff)"
      then show ?thesis using closed_valid [OF True assms(1), of alive] by auto
    next
      assume "rm_buf msg = tun_msg ReqClientClosed (req_body i t []) \<and> xt_on_tunnel_msg alive now ntx ntr x msg = Inr (y, eff)"
      then show ?thesis using xt_dispatch [of msg ReqClientClosed i t "[]" alive now ntx ntr x] xreqq_free_valid [OF True]
        by (auto split: if_splits)
    qed
    then show ?thesis using True by (simp add: check_req_valid_iff clean_not_inused)
  next
    case False
    have "xt_requests y = xt_requests x" using assms(2)
    proof
      assume "xt_on_request_closed alive x i t = Inr (y, eff)"
      then show ?thesis using False by (simp add: xt_on_request_closed_def)
    next
      assume "rm_buf msg = tun_msg ReqClientClosed (req_body i t []) \<and> xt_on_tunnel_msg alive now ntx ntr x msg = Inr (y, eff)"
      then show ?thesis using xt_dispatch [of msg ReqClientClosed i t "[]" alive now ntx ntr x] xreqq_free_invalid [OF False]
        by auto
    qed
    then show ?thesis using False by (simp add: check_req_valid_iff)
  qed
  then show ?thesis by (simp add: xt_on_request_closed_def)
qed

lemma xport_closed_once_witness:
  "\<exists>y. xt_on_request_closed (\<lambda>_. True) y 0 9 = Inr (y, [])"
  using xport_closed_once [of one_request 4 "\<lambda>_. True" 0 9 _ _ undefined 0 0 0] closed_valid [of one_request 0 9 4 "\<lambda>_. True"]
  by (auto simp: one_request_def check_req_valid_iff)

end
