(* ===== verification/My_Dns.thy ===== *)
theory My_Dns imports Dns_Packet Lws_Msg begin

text \<open>
  \<^verbatim>\<open>src/dns/mydns.rs\<close>: the resolver the HTTP client uses for the relay's own names, a future that sends
  one query and waits for the answer. \<^verbatim>\<open>poll\<close> is a loop over its four states.
\<close>

section \<open>State\<close>

datatype my_dns_state = MyInit | MySend | MyRecv | MyDone

record my_dns =
  my_domain :: str
  my_dns_server_address :: str
  my_state :: my_dns_state
  my_result :: "ip_addr option"
  my_udp :: bool
  my_send_buf :: "bytes option"
  my_send_len :: nat

definition port_sep :: u8 where "port_sep = 58"

definition my_dns_new :: "str \<Rightarrow> str \<Rightarrow> my_dns" where
  "my_dns_new domain dns_server =
     \<lparr>my_domain = domain,
      my_dns_server_address = (if port_sep \<in> set dns_server then dns_server else dns_server @ lit '':53''),
      my_state = MyInit, my_result = None, my_udp = False, my_send_buf = None, my_send_len = 0\<rparr>"

text \<open>
  The standard library's parsers and lossy decoder, the socket's binding, and the socket: what it answers
  to a datagram offered for an address and to a buffer of some length.
\<close>

datatype 'a io_poll = IoPending | IoFailed | IoReady 'a

record 'w my_env =
  me_parse_v4 :: "str \<Rightarrow> ipv4_addr option"
  me_parse_addr :: "str \<Rightarrow> socket_addr option"
  me_lower :: "bytes \<Rightarrow> bytes"
  me_bind :: bool
  me_send :: "'w \<Rightarrow> bytes \<Rightarrow> socket_addr \<Rightarrow> 'w \<times> nat io_poll"
  me_recv :: "'w \<Rightarrow> nat \<Rightarrow> 'w \<times> bytes io_poll"

section \<open>Operations\<close>

definition proc_rawip :: "'w my_env \<Rightarrow> my_dns \<Rightarrow> my_dns \<times> bool" where
  "proc_rawip env st =
     (case me_parse_v4 env (my_domain st) of
        Some ip \<Rightarrow> (st\<lparr>my_result := Some (V4 ip)\<rparr>, True)
      | None \<Rightarrow> (st, False))"

definition query_packet :: "str \<Rightarrow> dns_packet" where
  "query_packet domain =
     (let packet = dns_packet_new;
          packet = packet\<lparr>dp_header := (dp_header packet)\<lparr>dh_id := 6666, questions_count := 1, recursion_desired := True\<rparr>\<rparr>
      in packet\<lparr>dp_questions := dp_questions packet @ [question_new domain QA]\<rparr>)"

text \<open>The write's \<^verbatim>\<open>unwrap\<close> makes any error of the writer a panic.\<close>

definition prepare_query :: "'w my_env \<Rightarrow> my_dns \<Rightarrow> my_dns res" where
  "prepare_query env st =
     (case packet_write (query_packet (my_domain st)) (bpb_new (replicate 512 0)) of
        Inl e \<Rightarrow> Inl Panicked
      | Inr (_, req_buffer) \<Rightarrow>
          if \<not> me_bind env then Inl IoError
          else Inr (st\<lparr>my_udp := True, my_send_len := bp_pos req_buffer, my_send_buf := Some (bp_buf req_buffer)\<rparr>))"

fun first_a :: "dns_record list \<Rightarrow> ipv4_addr option" where
  "first_a [] = None"
| "first_a (RA domain addr ttl # rs) = Some addr"
| "first_a (r # rs) = first_a rs"

definition parse_result :: "'w my_env \<Rightarrow> my_dns \<Rightarrow> bytes \<Rightarrow> my_dns res" where
  "parse_result env st rspbuf =
     and_then (from_buffer (me_lower env) (bpb_new rspbuf)) (\<lambda>(res_packet, _).
     case first_a (dp_answers res_packet) of
       Some addr \<Rightarrow> Inr (st\<lparr>my_result := Some (V4 addr)\<rparr>)
     | None \<Rightarrow> Inl IoError)"

text \<open>One turn of the loop of \<^verbatim>\<open>poll\<close>: \<open>None\<close> goes round again.\<close>

definition my_turn :: "'w my_env \<Rightarrow> 'w \<Rightarrow> my_dns \<Rightarrow> ('w \<times> my_dns \<times> ip_addr poll option) res" where
  "my_turn env w st =
     (case my_state st of
        MyInit \<Rightarrow>
          (case proc_rawip env st of
             (st, True) \<Rightarrow> Inr (w, st\<lparr>my_state := MyDone\<rparr>, None)
           | (st, False) \<Rightarrow> and_then (prepare_query env st) (\<lambda>st. Inr (w, st\<lparr>my_state := MySend\<rparr>, None)))
      | MySend \<Rightarrow>
          (case me_parse_addr env (my_dns_server_address st) of
             None \<Rightarrow> Inl IoError
           | Some target_addr \<Rightarrow>
               if \<not> my_udp st then Inl Panicked
               else
                 and_then (unwrap (my_send_buf st)) (\<lambda>buf.
                 if length buf < my_send_len st then Inl Panicked
                 else
                   (case me_send env w (take (my_send_len st) buf) target_addr of
                      (w, IoFailed) \<Rightarrow> Inl IoError
                    | (w, IoReady n) \<Rightarrow> Inr (w, st\<lparr>my_state := MyRecv\<rparr>, None)
                    | (w, IoPending) \<Rightarrow> Inr (w, st, Some Pending))))
      | MyRecv \<Rightarrow>
          if \<not> my_udp st then Inl Panicked
          else
            (case me_recv env w 512 of
               (w, IoFailed) \<Rightarrow> Inl IoError
             | (w, IoReady rsp) \<Rightarrow> and_then (parse_result env st rsp) (\<lambda>st. Inr (w, st\<lparr>my_state := MyDone\<rparr>, None))
             | (w, IoPending) \<Rightarrow> Inr (w, st, Some Pending))
      | MyDone \<Rightarrow>
          and_then (unwrap (my_result st)) (\<lambda>ip.
          Inr (w, st\<lparr>my_send_buf := None, my_udp := False, my_result := None\<rparr>, Some (Ready ip))))"

fun state_rank :: "my_dns_state \<Rightarrow> nat" where
  "state_rank MyInit = 3"
| "state_rank MySend = 2"
| "state_rank MyRecv = 1"
| "state_rank MyDone = 0"

lemma my_turn_advances:
  assumes "my_turn env w st = Inr (w', st', None)"
  shows "state_rank (my_state st') < state_rank (my_state st)"
proof (cases "my_state st")
  case MyInit
  then show ?thesis
    using assms by (auto simp: my_turn_def and_then_Inr_iff proc_rawip_def split: option.splits)
next
  case MySend
  then obtain a buf where a: "me_parse_addr env (my_dns_server_address st) = Some a" "unwrap (my_send_buf st) = Inr buf"
    "my_udp st" "\<not> length buf < my_send_len st"
    using assms by (auto simp: my_turn_def and_then_Inr_iff split: option.splits if_splits)
  then show ?thesis
    using assms MySend
    by (cases "me_send env w (take (my_send_len st) buf) a") (auto simp: my_turn_def split: io_poll.splits)
next
  case MyRecv
  then show ?thesis
    using assms by (cases "me_recv env w 512") (auto simp: my_turn_def and_then_Inr_iff split: io_poll.splits if_splits)
next
  case MyDone
  then show ?thesis using assms by (auto simp: my_turn_def and_then_Inr_iff)
qed

function my_poll :: "'w my_env \<Rightarrow> 'w \<Rightarrow> my_dns \<Rightarrow> ('w \<times> my_dns \<times> ip_addr poll) res" where
  "my_poll env w st =
     (case my_turn env w st of
        Inl e \<Rightarrow> Inl e
      | Inr (w, st, Some r) \<Rightarrow> Inr (w, st, r)
      | Inr (w, st, None) \<Rightarrow> my_poll env w st)"
  by pat_completeness auto
termination
  by (relation "measure (\<lambda>(env, w, st). state_rank (my_state st))") (auto simp: my_turn_advances)

declare my_poll.simps [simp del]

section \<open>What a look-up sends and accepts\<close>

definition query_bytes :: "str \<Rightarrow> bytes" where
  "query_bytes domain = enc_packet (set_counts (query_packet domain))"

lemma query_packet_ok: "plain_name domain \<Longrightarrow> packet_ok (query_packet domain)"
  by (simp add: query_packet_def packet_ok_def flags_ok_def question_ok_def packet_records_def dns_packet_new_def
      dns_header_new_def question_new_def Let_def query_type_from_num_def)

lemma query_bytes_length: "length (query_bytes domain) = 16 + length (enc_qname domain)"
  by (simp add: query_bytes_def enc_packet_def query_packet_def Let_def dns_packet_new_def enc_header_def
      enc_question_def question_new_def)

lemma query_sent:
  assumes "me_parse_v4 env domain = None" "plain_name domain" "length (enc_qname domain) \<le> 496" "me_bind env"
    "me_parse_addr env (my_dns_server_address (my_dns_new domain server)) = Some a"
    "me_send env w (query_bytes domain) a = (w1, IoReady n)"
  shows "\<exists>st. my_poll env w (my_dns_new domain server) = my_poll env w1 st \<and> my_state st = MyRecv \<and> my_udp st"
proof -
  let ?st = "my_dns_new domain server"
  have fits: "length (enc_packet (set_counts (query_packet domain))) \<le> 512"
    using assms(3) query_bytes_length [of domain] by (simp add: query_bytes_def)
  have big: "512 \<le> length (replicate 512 (0 :: u8))" by simp
  obtain b where b: "packet_write (query_packet domain) (bpb_new (replicate 512 0)) = Inr (set_counts (query_packet domain), b)"
    "take (bp_pos b) (bp_buf b) = query_bytes domain" "bp_pos b = length (query_bytes domain)"
    using packet_written [OF query_packet_ok [OF assms(2)] fits big, of id] unfolding query_bytes_def by metis
  have "min (length (bp_buf b)) (bp_pos b) = length (query_bytes domain)" unfolding b(2) [symmetric] by simp
  then have len: "bp_pos b \<le> length (bp_buf b)" using b(3) by simp
  let ?st1 = "?st\<lparr>my_udp := True, my_send_len := bp_pos b, my_send_buf := Some (bp_buf b), my_state := MySend\<rparr>"
  have t1: "my_turn env w ?st = Inr (w, ?st1, None)"
    using assms b by (simp add: my_turn_def proc_rawip_def prepare_query_def my_dns_new_def)
  have t2: "my_turn env w ?st1 = Inr (w1, ?st1\<lparr>my_state := MyRecv\<rparr>, None)"
    using assms b len by (simp add: my_turn_def my_dns_new_def)
  have "my_poll env w ?st = my_poll env w ?st1" by (subst my_poll.simps) (simp add: t1)
  also have "\<dots> = my_poll env w1 (?st1\<lparr>my_state := MyRecv\<rparr>)" by (subst my_poll.simps) (simp add: t2)
  finally show ?thesis by (intro exI [of _ "?st1\<lparr>my_state := MyRecv\<rparr>"]) simp
qed

lemma reply_taken:
  assumes "my_state st = MyRecv" "my_udp st" "me_recv env w 512 = (w1, IoReady bs)"
  shows "my_poll env w st =
    (case from_buffer (me_lower env) (bpb_new bs) of
       Inl e \<Rightarrow> Inl e
     | Inr (p, _) \<Rightarrow> (case first_a (dp_answers p) of
           None \<Rightarrow> Inl IoError
         | Some ip \<Rightarrow> Inr (w1, st\<lparr>my_state := MyDone, my_send_buf := None, my_udp := False, my_result := None\<rparr>,
             Ready (V4 ip))))"
proof (cases "from_buffer (me_lower env) (bpb_new bs)")
  case (Inl e)
  then show ?thesis
    using assms by (subst my_poll.simps) (simp add: my_turn_def parse_result_def)
next
  case (Inr r)
  obtain p b where r: "r = (p, b)" by (cases r)
  show ?thesis
  proof (cases "first_a (dp_answers p)")
    case None
    then show ?thesis
      using assms Inr r by (subst my_poll.simps) (simp add: my_turn_def parse_result_def)
  next
    case (Some ip)
    have d: "my_poll env w1 (st\<lparr>my_result := Some (V4 ip), my_state := MyDone\<rparr>) =
        Inr (w1, st\<lparr>my_state := MyDone, my_send_buf := None, my_udp := False, my_result := None\<rparr>, Ready (V4 ip))"
      by (subst my_poll.simps) (simp add: my_turn_def)
    then show ?thesis
      using assms Inr r Some by (subst my_poll.simps) (simp add: my_turn_def parse_result_def)
  qed
qed


text \<open>A relay's name asked of the default server, answered by somebody else for another name.\<close>

definition sample_my_env :: "nat my_env" where
  "sample_my_env =
     \<lparr>me_parse_v4 = (\<lambda>_. None), me_parse_addr = (\<lambda>_. Some (SocketAddr (V4 (Ipv4Addr 223 5 5 5)) 53)), me_lower = id,
      me_bind = True, me_send = (\<lambda>w bs a. (w + 1, IoReady (length bs))),
      me_recv = (\<lambda>w n. (w + 1, IoReady (enc_packet (set_counts example_packet))))\<rparr>"


end
