(* ===== verification/Http.thy ===== *)
theory Http imports My_Dns Lws_Framed begin

text \<open>
  \<^verbatim>\<open>src/htp/http.rs\<close>: the HTTP/1.0 client with which the service asks for its configuration, reports its
  log and downloads upgrades.
\<close>

section \<open>Substrings and numbers\<close>

text \<open>
  \<^verbatim>\<open>str::find\<close> and \<^verbatim>\<open>str::contains\<close> are the search of \<^const>\<open>find_window\<close>. \<^verbatim>\<open>&s[i..]\<close> panics past the end or
  inside a character, which in UTF-8 starts with a byte that is no continuation byte.
\<close>

definition char_boundary :: "str \<Rightarrow> nat \<Rightarrow> bool" where
  "char_boundary s i \<longleftrightarrow> i = length s \<or> i < length s \<and> (s ! i < 0x80 \<or> 0xC0 \<le> s ! i)"

definition str_from :: "str \<Rightarrow> nat \<Rightarrow> str res" where
  "str_from s i = (if char_boundary s i then Inr (drop i s) else Inl Panicked)"

text \<open>\<^verbatim>\<open>str::parse::<i32>\<close>.\<close>

definition parse_i32 :: "str \<Rightarrow> int option" where
  "parse_i32 s =
     (let neg = (s \<noteq> [] \<and> hd s = 45);
          ds = (if s \<noteq> [] \<and> (hd s = 45 \<or> hd s = 43) then tl s else s)
      in if ds = [] \<or> \<not> list_all (\<lambda>d. 48 \<le> d \<and> d \<le> 57) ds then None
         else
           let v = (if neg then - int (digits_value ds) else int (digits_value ds)) in
           if - (2 ^ 31) \<le> v \<and> v < 2 ^ 31 then Some v else None)"

section \<open>Responses\<close>

record http_response =
  hr_status :: int
  hr_header :: "str option"
  hr_body :: "bytes option"

definition extract_status :: "str \<Rightarrow> int res" where
  "extract_status header_str =
     (case find_window (lit ''HTTP/1.'') header_str of
        Some pos1 \<Rightarrow>
          and_then (str_from header_str (pos1 + 9)) (\<lambda>next.
          case find_window (lit '' OK'') next of
            Some pos2 \<Rightarrow>
              (case parse_i32 (take pos2 next) of
                 Some i \<Rightarrow> Inr i
               | None \<Rightarrow> Inr 0)
          | None \<Rightarrow> Inr 0)
      | None \<Rightarrow> Inr 0)"

text \<open>
  \<open>lossy\<close> is \<^verbatim>\<open>String::from_utf8_lossy\<close>, \<open>gunzip\<close> the decoder of the \<^verbatim>\<open>flate2\<close> crate, whose error is
  unwrapped.
\<close>

definition http_response_parse :: "(bytes \<Rightarrow> str) \<Rightarrow> (bytes \<Rightarrow> bytes option) \<Rightarrow> bytes \<Rightarrow> http_response res" where
  "http_response_parse lossy gunzip bs =
     (case find_window (crlf @ crlf) bs of
        Some pos \<Rightarrow>
          let s = lossy (take pos bs) in
          and_then (extract_status s) (\<lambda>status.
          let gzip = (find_window (lit ''gzip'') s \<noteq> None); bb = drop (pos + 4) bs in
          and_then (if gzip then unwrap (gunzip bb) else Inr bb) (\<lambda>s2.
          Inr \<lparr>hr_status = status, hr_header = Some s, hr_body = Some s2\<rparr>))
      | None \<Rightarrow> Inr \<lparr>hr_status = 0, hr_header = None, hr_body = None\<rparr>)"

section \<open>Requests\<close>

text \<open>The \<^verbatim>\<open>url\<close> crate.\<close>

record 'u url_api =
  ua_parse :: "str \<Rightarrow> 'u option"
  ua_scheme :: "'u \<Rightarrow> str"
  ua_host_str :: "'u \<Rightarrow> str option"
  ua_port :: "'u \<Rightarrow> u16 option"
  ua_path :: "'u \<Rightarrow> str"
  ua_query :: "'u \<Rightarrow> str option"

text \<open>
  What the network does for one request: the result of the look-up, and of a connection (with or without
  TLS) over which the bytes are sent and the answer read to its end; \<open>ne_in_time\<close> is whether all of
  that took less than the given seconds.
\<close>

record http_net =
  ne_lookup :: "my_dns \<Rightarrow> ip_addr res"
  ne_talk :: "bool \<Rightarrow> str \<Rightarrow> socket_addr \<Rightarrow> bytes \<Rightarrow> bytes option"
  ne_in_time :: "nat \<Rightarrow> bool"
  ne_lossy :: "bytes \<Rightarrow> str"
  ne_gunzip :: "bytes \<Rightarrow> bytes option"

record 'u http_request =
  hq_url_parsed :: 'u
  hq_timeout :: nat

definition http_request_new :: "'u url_api \<Rightarrow> str \<Rightarrow> nat option \<Rightarrow> 'u http_request option" where
  "http_request_new ua url timeout2 =
     map_option (\<lambda>urlparsed.
       \<lparr>hq_url_parsed = urlparsed,
        hq_timeout = (case timeout2 of Some t \<Rightarrow> t | None \<Rightarrow> 10000000000)\<rparr>) (ua_parse ua url)"

definition is_secure :: "'u url_api \<Rightarrow> 'u http_request \<Rightarrow> bool" where
  "is_secure ua req \<longleftrightarrow> ua_scheme ua (hq_url_parsed req) = lit ''https''"

definition to_http_header :: "'u url_api \<Rightarrow> 'u http_request \<Rightarrow> nat \<Rightarrow> str res" where
  "to_http_header ua req content_size =
     (let u = hq_url_parsed req;
          http_method = (if 0 < content_size then lit ''POST'' else lit ''GET'');
          query = (case ua_query ua u of Some q \<Rightarrow> lit ''?'' @ q | None \<Rightarrow> []);
          path = ua_path ua u @ query
      in and_then (unwrap (ua_host_str ua u)) (\<lambda>host.
         Inr (http_method @ lit '' '' @ path @ lit '' HTTP/1.0'' @ crlf
              @ lit ''Host: '' @ host @ crlf
              @ lit ''Accept-Encoding: gzip'' @ crlf
              @ lit ''Content-Length: '' @ dec_digits content_size @ lit '' '' @ crlf
              @ lit ''Content-Type: application/json; charset=utf-8 '' @ crlf
              @ crlf)))"

text \<open>\<^verbatim>\<open>http_exec\<close> and \<^verbatim>\<open>https_exec\<close> differ in the connection only: \<open>tls\<close>.\<close>

definition http_exec_over ::
  "bool \<Rightarrow> 'u url_api \<Rightarrow> http_net \<Rightarrow> 'u http_request \<Rightarrow> bytes option \<Rightarrow> str \<Rightarrow> http_response res" where
  "http_exec_over tls ua net req body dns_server =
     and_then (unwrap (ua_host_str ua (hq_url_parsed req))) (\<lambda>host.
     and_then (unwrap (ua_port ua (hq_url_parsed req))) (\<lambda>port.
     let content_size = (case body of Some s \<Rightarrow> length s | None \<Rightarrow> 0) in
     and_then (to_http_header ua req content_size) (\<lambda>head_str.
     if \<not> ne_in_time net (hq_timeout req) then Inl IoError
     else
       and_then (ne_lookup net (my_dns_new host dns_server)) (\<lambda>ipaddr.
       let vec = (case body of Some s \<Rightarrow> head_str @ s | None \<Rightarrow> head_str) in
       case ne_talk net tls host (SocketAddr ipaddr port) vec of
         None \<Rightarrow> Inl IoError
       | Some vv \<Rightarrow> http_response_parse (ne_lossy net) (ne_gunzip net) vv))))"

definition http_exec ::
  "'u url_api \<Rightarrow> http_net \<Rightarrow> 'u http_request \<Rightarrow> bytes option \<Rightarrow> str \<Rightarrow> http_response res" where
  "http_exec ua net req body dns_server = http_exec_over (is_secure ua req) ua net req body dns_server"

section \<open>Reading a reply\<close>

lemma find_window_first:
  "c \<notin> set pre \<Longrightarrow> find_window (c # cs) (pre @ (c # cs) @ rest) = Some (length pre)"
  by (induction pre) auto

lemma find_window_here: "xs \<noteq> [] \<Longrightarrow> find_window xs (xs @ ys) = Some 0"
  by (cases xs) auto

lemma parse_i32_digits:
  assumes "n < 2 ^ 31"
  shows "parse_i32 (dec_digits n) = Some (int n)"
proof -
  have ne: "dec_digits n \<noteq> []" by (subst dec_digits.simps) simp
  have range: "48 \<le> d \<and> d \<le> 57" if "d \<in> set (dec_digits n)" for d
    using dec_digits_range [OF that] by (simp add: word_le_nat_alt)
  then have "48 \<le> hd (dec_digits n)" using ne hd_in_set by blast
  then have sign: "hd (dec_digits n) \<noteq> 45" "hd (dec_digits n) \<noteq> 43" by (auto simp: word_le_nat_alt)
  have "list_all (\<lambda>d. 48 \<le> d \<and> d \<le> 57) (dec_digits n)" using range by (simp add: list_all_iff)
  then show ?thesis using ne sign assms by (simp add: parse_i32_def dec_digits_value Let_def)
qed

definition ok_head :: "u8 \<Rightarrow> nat \<Rightarrow> str \<Rightarrow> str" where
  "ok_head v n rest = lit ''HTTP/1.'' @ [v, 32] @ dec_digits n @ lit '' OK'' @ rest"

lemma extract_status_ok:
  assumes "n < 2 ^ 31"
  shows "extract_status (ok_head v n rest) = Inr (int n)"
proof -
  have f1: "find_window (lit ''HTTP/1.'') (ok_head v n rest) = Some 0"
    unfolding ok_head_def by (rule find_window_here) (simp add: lit_def)
  have len: "length (lit ''HTTP/1.'') = 7" by (simp add: lit_def)
  have d: "drop 9 (ok_head v n rest) = dec_digits n @ lit '' OK'' @ rest"
    unfolding ok_head_def by (simp add: len)
  have bound: "char_boundary (ok_head v n rest) 9"
  proof (cases "dec_digits n")
    case Nil
    then show ?thesis by (subst (asm) dec_digits.simps) (simp split: if_splits)
  next
    case (Cons c cs)
    then have "unat c \<le> 57" using dec_digits_range [of c n] by simp
    moreover have "ok_head v n rest ! 9 = c" using Cons by (simp add: ok_head_def nth_append len)
    moreover have "9 < length (ok_head v n rest)" using Cons by (simp add: ok_head_def len)
    ultimately show ?thesis by (simp add: char_boundary_def word_less_nat_alt)
  qed
  have ok: "lit '' OK'' = 32 # [79, 75]" by (simp add: lit_def)
  have "32 \<notin> set (dec_digits n)" using dec_digits_range [of 32 n] by auto
  then have f2: "find_window (lit '' OK'') (dec_digits n @ lit '' OK'' @ rest) = Some (length (dec_digits n))"
    unfolding ok by (rule find_window_first)
  show ?thesis
    using f1 d bound f2 parse_i32_digits [OF assms]
    by (simp add: extract_status_def str_from_def)
qed

lemma http_response_parse_ok:
  assumes "find_window (crlf @ crlf) (head @ crlf @ crlf @ body) = Some (length head)"
    "lossy head = head" "head = ok_head v n rest" "n < 2 ^ 31" "find_window (lit ''gzip'') head = None"
  shows "http_response_parse lossy gunzip (head @ crlf @ crlf @ body)
      = Inr \<lparr>hr_status = int n, hr_header = Some head, hr_body = Some body\<rparr>"
proof -
  have "length (crlf @ crlf) = 4" by (simp add: crlf_def)
  then have "drop (length head + 4) (head @ crlf @ crlf @ body) = body"
    by (metis append_assoc append_eq_conv_conj length_append)
  then show ?thesis
    using assms extract_status_ok [OF assms(4), of v rest] by (simp add: http_response_parse_def)
qed

text \<open>
  C33: A request to a host that resolves and answers in time with an \<open>OK\<close> status line, no compression and
  any body gets that status and exactly that body; the bytes sent are the header followed by the
  request's body.
\<close>

theorem http_exec_reads_reply:
  assumes "ua_host_str ua (hq_url_parsed req) = Some host" "ua_port ua (hq_url_parsed req) = Some port"
    "ne_in_time net (hq_timeout req)" "ne_lookup net (my_dns_new host dns_server) = Inr ip"
    "to_http_header ua req (case body of Some s \<Rightarrow> length s | None \<Rightarrow> 0) = Inr h"
    "ne_talk net (is_secure ua req) host (SocketAddr ip port) (h @ (case body of Some s \<Rightarrow> s | None \<Rightarrow> []))
       = Some (head @ crlf @ crlf @ reply)"
    "find_window (crlf @ crlf) (head @ crlf @ crlf @ reply) = Some (length head)" "ne_lossy net head = head"
    "head = ok_head v n rest" "n < 2 ^ 31" "find_window (lit ''gzip'') head = None"
  shows "http_exec ua net req body dns_server = Inr \<lparr>hr_status = int n, hr_header = Some head, hr_body = Some reply\<rparr>"
  using assms(1-6) http_response_parse_ok [where lossy = "ne_lossy net", OF assms(7-11)]
  by (cases body) (simp_all add: http_exec_def http_exec_over_def)

text \<open>
  A reply can stop the program: when its header ends within nine bytes of \<open>HTTP/1.\<close>, as in a bare
  \<open>HTTP/1.1\<close>, and when its header mentions gzip and the body does not decompress.
\<close>

theorem bad_reply_panics:
  assumes "find_window (crlf @ crlf) bs = Some pos" "s = lossy (take pos bs)"
    "(\<exists>i. find_window (lit ''HTTP/1.'') s = Some i \<and> length s < i + 9) \<or>
     (find_window (lit ''gzip'') s \<noteq> None \<and> gunzip (drop (pos + 4) bs) = None)"
  shows "http_response_parse lossy gunzip bs = Inl Panicked"
proof (cases "extract_status s")
  case (Inl e)
  then have "e = Panicked"
    by (auto simp: extract_status_def str_from_def split: option.splits if_splits)
  then show ?thesis using assms(1,2) Inl by (simp add: http_response_parse_def)
next
  case (Inr n)
  have "\<not> (\<exists>i. find_window (lit ''HTTP/1.'') s = Some i \<and> length s < i + 9)"
    using Inr by (auto simp: extract_status_def str_from_def char_boundary_def split: option.splits if_splits)
  then show ?thesis using assms Inr by (auto simp: http_response_parse_def)
qed

lemma bad_reply_panics_witness:
  "http_response_parse id Some (lit ''HTTP/1.1'' @ crlf @ crlf) = Inl Panicked"
proof (rule bad_reply_panics [where pos = 8 and s = "lit ''HTTP/1.1''"])
  show "find_window (crlf @ crlf) (lit ''HTTP/1.1'' @ crlf @ crlf) = Some 8" by (simp add: lit_def crlf_def)
  show "lit ''HTTP/1.1'' = id (take 8 (lit ''HTTP/1.1'' @ crlf @ crlf))" by (simp add: lit_def crlf_def)
  have "find_window (lit ''HTTP/1.'') (lit ''HTTP/1.1'') = Some 0" by (simp add: lit_def)
  moreover have "length (lit ''HTTP/1.1'') = 8" by (simp add: lit_def)
  ultimately show "(\<exists>i. find_window (lit ''HTTP/1.'') (lit ''HTTP/1.1'') = Some i \<and> length (lit ''HTTP/1.1'') < i + 9) \<or>
     (find_window (lit ''gzip'') (lit ''HTTP/1.1'') \<noteq> None \<and> Some (drop (8 + 4) (lit ''HTTP/1.1'' @ crlf @ crlf)) = None)"
    by simp
qed

text \<open>A URL for the examples, and a server that answers everything with an empty object.\<close>

definition sample_url_api :: "unit url_api" where
  "sample_url_api = \<lparr>ua_parse = (\<lambda>_. Some ()), ua_scheme = (\<lambda>_. lit ''http''), ua_host_str = (\<lambda>_. Some (lit ''relay'')),
     ua_port = (\<lambda>_. Some 80), ua_path = (\<lambda>_. lit ''/''), ua_query = (\<lambda>_. None)\<rparr>"

definition sample_reply_head :: str where "sample_reply_head = ok_head 48 200 []"

definition sample_net :: http_net where
  "sample_net = \<lparr>ne_lookup = (\<lambda>_. Inr (V4 (Ipv4Addr 10 0 0 1))),
     ne_talk = (\<lambda>tls host addr bs. Some (sample_reply_head @ crlf @ crlf @ lit ''{}'')),
     ne_in_time = (\<lambda>_. True), ne_lossy = id, ne_gunzip = Some\<rparr>"

lemma sample_head_bytes: "sample_reply_head = [72, 84, 84, 80, 47, 49, 46, 48, 32, 50, 48, 48, 32, 79, 75]"
proof -
  have "dec_digits 200 = [50, 48, 48]" by (simp add: dec_digits.simps)
  then show ?thesis by (simp add: sample_reply_head_def ok_head_def lit_def)
qed

lemma http_exec_reads_reply_witness:
  "http_exec sample_url_api sample_net \<lparr>hq_url_parsed = (), hq_timeout = 10\<rparr> (Some (lit ''{}'')) (lit ''223.5.5.5'')
     = Inr \<lparr>hr_status = 200, hr_header = Some sample_reply_head, hr_body = Some (lit ''{}'')\<rparr>"
proof -
  have f: "find_window (crlf @ crlf) (sample_reply_head @ crlf @ crlf @ lit ''{}'') = Some (length sample_reply_head)"
    "find_window (lit ''gzip'') sample_reply_head = None"
    by (simp_all add: sample_head_bytes crlf_def lit_def)
  obtain h where h: "to_http_header sample_url_api \<lparr>hq_url_parsed = (), hq_timeout = 10\<rparr> (length (lit ''{}'')) = Inr h"
    by (simp add: to_http_header_def sample_url_api_def Let_def)
  have "http_exec sample_url_api sample_net \<lparr>hq_url_parsed = (), hq_timeout = 10\<rparr> (Some (lit ''{}'')) (lit ''223.5.5.5'')
     = Inr \<lparr>hr_status = int 200, hr_header = Some sample_reply_head, hr_body = Some (lit ''{}'')\<rparr>"
  proof (rule http_exec_reads_reply)
    show "sample_reply_head = ok_head 48 200 []" by (rule sample_reply_head_def)
    show "find_window (crlf @ crlf) (sample_reply_head @ crlf @ crlf @ lit ''{}'') = Some (length sample_reply_head)"
      "find_window (lit ''gzip'') sample_reply_head = None" by (rule f)+
    show "to_http_header sample_url_api \<lparr>hq_url_parsed = (), hq_timeout = 10\<rparr>
        (case Some (lit ''{}'') of Some s \<Rightarrow> length s | None \<Rightarrow> 0) = Inr h"
      using h by simp
  qed (simp_all add: sample_net_def sample_url_api_def)
  then show ?thesis by simp
qed

end
