(* ===== verification/Tun_Conn.thy ===== *)
theory Tun_Conn imports Forwarder X_Port Http begin

text \<open>
  The tasks that dial and then serve a connection to the relay: \<^verbatim>\<open>tunnels/tunbuilder.rs\<close>,
  \<^verbatim>\<open>dns/dnstunbuilder.rs\<close> and \<^verbatim>\<open>xport/xtunserv.rs\<close>. The three do the same with different owners: dial,
  report the connection or the failure, hand every frame to the owner, and report the end.
\<close>

section \<open>Dialling\<close>

text \<open>
  The network: looking a name up, TCP (with the descriptor of the socket), TLS, the key of the handshake,
  and whether all is done within ten seconds.
\<close>

record 'io relay_net =
  rn_lookup :: "my_dns \<Rightarrow> ip_addr res"
  rn_tcp :: "socket_addr \<Rightarrow> ('io \<times> nat) option"
  rn_tls :: "str \<Rightarrow> 'io \<Rightarrow> 'io option"
  rn_key :: str
  rn_in_time :: bool

text \<open>A future is awaited by polling it until it is ready.\<close>

partial_function (option) hs_wait ::
  "'io reader \<Rightarrow> 'io writer \<Rightarrow> (bytes \<Rightarrow> nat) \<Rightarrow> 'io chandshake \<Rightarrow> ('io \<times> bytes option) res option" where
  "hs_wait rd wr room st =
     (case ch_poll rd wr room st of
        None \<Rightarrow> None
      | Some (Inl e) \<Rightarrow> Some (Inl e)
      | Some (Inr (st, Pending)) \<Rightarrow> hs_wait rd wr room st
      | Some (Inr (st, Ready r)) \<Rightarrow> Some r)"

definition ws_connect_async ::
  "'u url_api \<Rightarrow> 'io relay_net \<Rightarrow> 'io reader \<Rightarrow> 'io writer \<Rightarrow> (bytes \<Rightarrow> nat) \<Rightarrow> str \<Rightarrow> u16 \<Rightarrow> 'u \<Rightarrow> str \<Rightarrow>
   ('io lws_framed \<times> nat) res option" where
  "ws_connect_async ua net rd wr room relay_domain relay_port url2 dns_server =
     (case ua_host_str ua url2 of
        None \<Rightarrow> Some (Inl Panicked)
      | Some host_str \<Rightarrow>
          let query = (case ua_query ua url2 of Some q \<Rightarrow> lit ''?'' @ q | None \<Rightarrow> []);
              path = ua_path ua url2 @ query
          in
          if \<not> rn_in_time net then Some (Inl IoError)
          else
            case rn_lookup net (my_dns_new relay_domain dns_server) of
              Inl e \<Rightarrow> Some (Inl e)
            | Inr ipaddr \<Rightarrow>
                (case rn_tcp net (SocketAddr ipaddr relay_port) of
                   None \<Rightarrow> Some (Inl IoError)
                 | Some (socket, rawfd) \<Rightarrow>
                     (case rn_tls net host_str socket of
                        None \<Rightarrow> Some (Inl IoError)
                      | Some socket \<Rightarrow>
                          (case hs_wait rd wr room (do_client_handshake (rn_key net) socket host_str path) of
                             None \<Rightarrow> None
                           | Some (Inl e) \<Rightarrow> Some (Inl e)
                           | Some (Inr (lsocket, tail)) \<Rightarrow> Some (Inr (lws_framed_new lsocket tail, rawfd))))))"

section \<open>The task\<close>

text \<open>
  What the owner of a connection does: it is told of the connection (and may refuse it), of its failure, of
  each message and of its end. Only one of the three owners goes on after a read error.
\<close>

record ('s, 'e) conn_owner =
  co_created :: "nat \<Rightarrow> chan \<Rightarrow> nat \<Rightarrow> 's \<Rightarrow> ('s \<times> bool) res"
  co_build_error :: "'s \<Rightarrow> 's"
  co_message :: "nat \<Rightarrow> nat \<Rightarrow> 's \<Rightarrow> rmessage \<Rightarrow> ('s \<times> 'e list) res"
  co_closed :: "'s \<Rightarrow> ('s \<times> 'e list) res"
  co_shutdown :: "nat \<Rightarrow> 'e"
  co_breaks :: bool

datatype 'io conn = CnDialling | CnOpen "'io lws_framed" | CnDone

text \<open>
  What a turn of the task finds: the time, a fresh channel, whether dialling is over and with what, and
  whether the sending half has ended (all senders gone, or a failed write).
\<close>

record 'io conn_in =
  ci_now :: nat
  ci_tx :: chan
  ci_dialled :: "('io lws_framed \<times> nat) res option"
  ci_sent :: bool

definition conn_end :: "('s, 'e) conn_owner \<Rightarrow> 's \<Rightarrow> ('s \<times> 'io conn \<times> 'e list) res" where
  "conn_end co s = and_then (co_closed co s) (\<lambda>(s, eff). Inr (s, CnDone, eff))"

text \<open>A turn goes to the next point where other tasks may run, or handles one message.\<close>

definition conn_turn ::
  "'io reader \<Rightarrow> ('s, 'e) conn_owner \<Rightarrow> 's \<Rightarrow> 'io conn \<Rightarrow> 'io conn_in \<Rightarrow> ('s \<times> 'io conn \<times> 'e list) res option" where
  "conn_turn rd co s c inp =
     (case c of
        CnDone \<Rightarrow> Some (Inr (s, CnDone, []))
      | CnDialling \<Rightarrow>
          (case ci_dialled inp of
             None \<Rightarrow> Some (Inr (s, CnDialling, []))
           | Some r \<Rightarrow>
               Some (match_result r
                 (\<lambda>(framed, rawfd).
                    and_then (co_created co (ci_now inp) (ci_tx inp) rawfd s) (\<lambda>(s, ok).
                    if ok then Inr (s, CnOpen framed, []) else Inr (s, CnDone, [co_shutdown co rawfd])))
                 (Inr (co_build_error co s, CnDone, []))))
      | CnOpen st \<Rightarrow>
          (case lf_poll_next rd st of
             None \<Rightarrow> None
           | Some (Inl e) \<Rightarrow> Some (Inl e)
           | Some (Inr (st, Pending)) \<Rightarrow> Some (if ci_sent inp then conn_end co s else Inr (s, CnOpen st, []))
           | Some (Inr (st, Ready None)) \<Rightarrow> Some (conn_end co s)
           | Some (Inr (st, Ready (Some (Inl e)))) \<Rightarrow>
               Some (if co_breaks co then conn_end co s else Inr (s, CnOpen st, []))
           | Some (Inr (st, Ready (Some (Inr message)))) \<Rightarrow>
               Some (and_then (co_message co (ci_now inp) (ci_tx inp) s message) (\<lambda>(s, eff). Inr (s, CnOpen st, eff)))))"

text \<open>One poll of the receiving half runs until it has to wait, the stream has ended or, for two owners, failed.\<close>

partial_function (option) receive_fut_poll ::
  "'io reader \<Rightarrow> ('s, 'e) conn_owner \<Rightarrow> nat \<Rightarrow> nat \<Rightarrow> 's \<Rightarrow> 'io lws_framed \<Rightarrow> ('s \<times> 'io lws_framed \<times> bool) res option" where
  "receive_fut_poll rd co now fresh s st =
     (case lf_poll_next rd st of
        None \<Rightarrow> None
      | Some (Inl e) \<Rightarrow> Some (Inl e)
      | Some (Inr (st, Pending)) \<Rightarrow> Some (Inr (s, st, False))
      | Some (Inr (st, Ready None)) \<Rightarrow> Some (Inr (s, st, True))
      | Some (Inr (st, Ready (Some (Inl e)))) \<Rightarrow>
          if co_breaks co then Some (Inr (s, st, True)) else receive_fut_poll rd co now fresh s st
      | Some (Inr (st, Ready (Some (Inr message)))) \<Rightarrow>
          (case co_message co now fresh s message of
             Inl e \<Rightarrow> Some (Inl e)
           | Inr (s, _) \<Rightarrow> receive_fut_poll rd co now fresh s st))"

section \<open>The three owners\<close>

text \<open>\<^verbatim>\<open>tunnels/tunbuilder.rs\<close>: the tunnel of an index, with the manager's limits at the time of dialling.\<close>

definition tun_builder :: "(chan \<Rightarrow> bool) \<Rightarrow> nat \<Rightarrow> nat \<Rightarrow> u16 \<Rightarrow> (tun_mgr, effect) conn_owner" where
  "tun_builder alive index tunnel_req_cap request_quota =
     \<lparr>co_created = (\<lambda>now tx rawfd m. on_tunnel_created m (tunnel_new now tx rawfd index tunnel_req_cap request_quota)),
      co_build_error = (\<lambda>m. on_tunnel_build_error m index),
      co_message = (\<lambda>now fresh m message. mgr_tunnel_msg alive now m index message),
      co_closed = (\<lambda>m. and_then (on_tunnel_closed m index) (\<lambda>(m, _). Inr (m, []))),
      co_shutdown = ShutdownFd,
      co_breaks = True\<rparr>"

text \<open>\<^verbatim>\<open>dns/dnstunbuilder.rs\<close>.\<close>

definition dns_builder :: "dns_env \<Rightarrow> nat \<Rightarrow> chan \<Rightarrow> (forwarder, dns_effect) conn_owner" where
  "dns_builder env index udp_tx =
     \<lparr>co_created = (\<lambda>now tx rawfd fw. fw_on_tunnel_created fw (dns_tunnel_new now tx rawfd udp_tx index)),
      co_build_error = (\<lambda>fw. fw_on_tunnel_build_error fw index),
      co_message = (\<lambda>now fresh fw message. fw_tunnel_msg env now fw index message),
      co_closed = (\<lambda>fw. and_then (fw_on_tunnel_closed fw index) (\<lambda>fw. Inr (fw, []))),
      co_shutdown = (\<lambda>rawfd. DEff (ShutdownFd rawfd)),
      co_breaks = True\<rparr>"

text \<open>\<^verbatim>\<open>xport/xtunserv.rs\<close>: \<open>fresh\<close> names the channel and trigger of a request that a message opens.\<close>

definition x_builder :: "(chan \<Rightarrow> bool) \<Rightarrow> (xtunnel, x_effect) conn_owner" where
  "x_builder alive =
     \<lparr>co_created = (\<lambda>now tx rawfd x. Inr (xt_on_tunnel_created x rawfd tx)),
      co_build_error = xt_on_tunnel_build_error,
      co_message = (\<lambda>now fresh x message. xt_on_tunnel_msg alive now fresh fresh x message),
      co_closed = (\<lambda>x. Inr (xt_on_tunnel_closed x)),
      co_shutdown = (\<lambda>rawfd. Eff (ShutdownFd rawfd)),
      co_breaks = False\<rparr>"

section \<open>A run of the task\<close>

text \<open>
  Before each turn other tasks may have changed the owner. The run says which messages it has handed over.
\<close>

definition conn_heard :: "'io reader \<Rightarrow> 'io conn \<Rightarrow> rmessage list" where
  "conn_heard rd c =
     (case c of
        CnOpen st \<Rightarrow> (case lf_poll_next rd st of Some (Inr (_, Ready (Some (Inr message)))) \<Rightarrow> [message] | _ \<Rightarrow> [])
      | _ \<Rightarrow> [])"

fun conn_run ::
  "'io reader \<Rightarrow> ('s, 'e) conn_owner \<Rightarrow> 's \<Rightarrow> 'io conn \<Rightarrow> (('s \<Rightarrow> 's) \<times> 'io conn_in) list \<Rightarrow>
   ('s \<times> 'io conn \<times> rmessage list) res option" where
  "conn_run rd co s c [] = Some (Inr (s, c, []))"
| "conn_run rd co s c ((other, inp) # rest) =
     (case conn_turn rd co (other s) c inp of
        None \<Rightarrow> None
      | Some (Inl e) \<Rightarrow> Some (Inl e)
      | Some (Inr (s, c', _)) \<Rightarrow>
          map_option (\<lambda>r. and_then r (\<lambda>(s, c2, ms). Inr (s, c2, conn_heard rd c @ ms))) (conn_run rd co s c' rest))"

lemma hs_wait_stream:
  assumes src: "byte_source rd left" and wr: "\<And>io bs. left (fst (wr io bs)) = left io"
    and first: "find_window (crlf @ crlf) (head @ crlf @ crlf @ rest) = Some (length head)"
    and wait: "hs_wait rd wr room st = Some (Inr (io, vv))"
    and st: "ch_stream left head rest st"
  shows "(case vv of None \<Rightarrow> [] | Some t \<Rightarrow> t) @ left io = rest"
proof -
  define P where "P rd wr room st z \<longleftrightarrow> byte_source rd left \<longrightarrow> (\<forall>io bs. left (fst (wr io bs)) = left io) \<longrightarrow>
      ch_stream left head rest st \<longrightarrow> (\<forall>io vv. z = Inr (io, vv) \<longrightarrow> (case vv of None \<Rightarrow> [] | Some t \<Rightarrow> t) @ left io = rest)"
    for rd :: "'a reader" and wr :: "'a writer" and room :: "bytes \<Rightarrow> nat" and st and z :: "('a \<times> bytes option) res"
  have "P rd wr room st (Inr (io, vv))"
  proof (rule hs_wait.raw_induct [OF _ wait])
    fix self rd wr room st z
    assume IH: "\<And>rd wr room st z. self rd wr room st = Some z \<Longrightarrow> P rd wr room st z"
      and body: "(case ch_poll rd wr room st of None \<Rightarrow> None | Some (Inl e) \<Rightarrow> Some (Inl e)
        | Some (Inr (st, Pending)) \<Rightarrow> self rd wr room st | Some (Inr (st, Ready r)) \<Rightarrow> Some r) = Some z"
    then obtain st1 r where p: "ch_poll rd wr room st = Some (Inr (st1, r)) \<or> (\<exists>e. z = Inl e)"
      by (auto split: option.splits sum.splits prod.splits)
    show "P rd wr room st z"
    proof (cases "\<exists>e. z = Inl e")
      case False
      then have c: "ch_poll rd wr room st = Some (Inr (st1, r))" using p by blast
      show ?thesis
      proof (cases r)
        case Pending
        then have "P rd wr room st1 z" using IH body c by simp
        then show ?thesis unfolding P_def using ch_poll_keeps [OF _ _ first c] Pending by blast
      next
        case (Ready r1)
        then have "z = r1" using body c by simp
        then show ?thesis unfolding P_def using ch_poll_keeps [OF _ _ first c] Ready by blast
      qed
    qed (auto simp: P_def)
  qed
  then show ?thesis using src wr st unfolding P_def by blast
qed

lemma ws_connect_expects:
  assumes "byte_source rd left" "\<And>io bs. left (fst (wr io bs)) = left io"
    and "\<And>host io io'. rn_tls net host io = Some io' \<Longrightarrow> left io' = head @ crlf @ crlf @ concat fs"
    and "find_window (crlf @ crlf) (head @ crlf @ crlf @ concat fs) = Some (length head)" "\<forall>f \<in> set fs. frame f"
    and "ws_connect_async ua net rd wr room relay_domain relay_port url2 dns_server = Some (Inr (framed, rawfd))"
  shows "lf_expects left fs framed"
proof -
  obtain host io io' pth lsocket tail where c: "rn_tls net host io = Some io'" "framed = lws_framed_new lsocket tail"
    "hs_wait rd wr room (do_client_handshake (rn_key net) io' host pth) = Some (Inr (lsocket, tail))"
    using assms(6) by (auto simp: ws_connect_async_def Let_def split: option.splits sum.splits if_splits)
  have "ch_stream left head (concat fs) (do_client_handshake (rn_key net) io' host pth)"
    using assms(3) [OF c(1)] by (simp add: ch_stream_def do_client_handshake_def Let_def)
  then have "(case tail of None \<Rightarrow> [] | Some t \<Rightarrow> t) @ left lsocket = concat fs"
    by (rule hs_wait_stream [OF assms(1,2,4) c(3)])
  then show ?thesis
    using assms(5) unfolding c(2) by (intro lf_expects_fresh) (simp_all add: lws_framed_new_def lf_unread_def)
qed

abbreviation "deliveries fs \<equiv> map (\<lambda>f. received f (length f)) fs"

lemma conn_done_run: "\<exists>s'. conn_run rd co s CnDone inps = Some (Inr (s', CnDone, []))"
  by (induction inps arbitrary: s) (fastforce simp: conn_turn_def conn_heard_def)+

text \<open>The end of a connection, whatever the owner makes of it.\<close>

lemma conn_end_run:
  assumes "conn_turn rd co (other s) (CnOpen st) inp = Some (conn_end co (other s))" "conn_heard rd (CnOpen st) = []"
  shows "conn_run rd co s (CnOpen st) ((other, inp) # inps) \<noteq> None \<and>
    (\<forall>s' c' ms. conn_run rd co s (CnOpen st) ((other, inp) # inps) = Some (Inr (s', c', ms)) \<longrightarrow> c' = CnDone \<and> ms = [])"
proof (cases "co_closed co (other s)")
  case (Inr p)
  obtain s2 eff where "p = (s2, eff)" by fastforce
  moreover obtain s3 where "conn_run rd co s2 CnDone inps = Some (Inr (s3, CnDone, []))" using conn_done_run [of rd co s2 inps] by blast
  ultimately show ?thesis using assms Inr by (simp add: conn_end_def)
qed (use assms in \<open>simp add: conn_end_def\<close>)

lemma conn_run_open:
  assumes src: "byte_source rd left"
  shows "\<forall>f \<in> set fs. frame f \<Longrightarrow> lf_expects left fs st \<Longrightarrow>
    conn_run rd co s (CnOpen st) inps \<noteq> None \<and>
    (\<forall>s' c' ms. conn_run rd co s (CnOpen st) inps = Some (Inr (s', c', ms)) \<longrightarrow>
       prefix ms (deliveries fs) \<and> c' \<noteq> CnDialling \<and>
       (c' = CnDone \<and> (\<forall>(other, inp) \<in> set inps. \<not> ci_sent inp) \<longrightarrow> ms = deliveries fs))"
proof (induction inps arbitrary: fs st s)
  case (Cons i inps)
  obtain other inp where i: "i = (other, inp)" by fastforce
  obtain st1 r where p: "lf_poll_next rd st = Some (Inr (st1, r))"
    and r: "r = Pending \<and> lf_expects left fs st1 \<or>
      (case fs of [] \<Rightarrow> r = Ready None \<and> lf_expects left [] st1 | f # gs \<Rightarrow> r = delivery f \<and> lf_expects left gs st1)"
    using poll_expects [OF src Cons.prems] by blast
  consider (waits) "r = Pending" "lf_expects left fs st1" "\<not> ci_sent inp"
    | (sent) "r = Pending" "ci_sent inp" | (ended) "fs = []" "r = Ready None"
    | (frame) f gs where "fs = f # gs" "r = delivery f" "lf_expects left gs st1"
    using r by (cases fs) auto
  then show ?case
  proof cases
    case waits
    then have "conn_run rd co s (CnOpen st) (i # inps) = conn_run rd co (other s) (CnOpen st1) inps"
      using p by (simp add: i conn_turn_def conn_heard_def and_then_Inr_right option.map_ident split: prod.split)
    then show ?thesis using Cons.IH [OF Cons.prems(1) waits(2), of "other s"] waits(3) by (simp add: i)
  next
    case sent
    then have "conn_turn rd co (other s) (CnOpen st) inp = Some (conn_end co (other s))" "conn_heard rd (CnOpen st) = []"
      using p by (simp_all add: conn_turn_def conn_heard_def)
    from conn_end_run [where other = other and inps = inps, OF this] show ?thesis
      using sent by (auto simp: i simp del: conn_run.simps)
  next
    case ended
    then have "conn_turn rd co (other s) (CnOpen st) inp = Some (conn_end co (other s))" "conn_heard rd (CnOpen st) = []"
      using p by (simp_all add: conn_turn_def conn_heard_def)
    from conn_end_run [where other = other and inps = inps, OF this] show ?thesis
      using ended by (auto simp: i simp del: conn_run.simps)
  next
    case (frame f gs)
    have h: "conn_heard rd (CnOpen st) = [received f (length f)]" using p frame by (simp add: conn_heard_def)
    show ?thesis
    proof (cases "co_message co (ci_now inp) (ci_tx inp) (other s) (received f (length f))")
      case (Inr q)
      obtain s2 eff where "q = (s2, eff)" by fastforce
      then have run: "conn_run rd co s (CnOpen st) (i # inps) =
        map_option (\<lambda>r. and_then r (\<lambda>(s, c2, ms). Inr (s, c2, received f (length f) # ms))) (conn_run rd co s2 (CnOpen st1) inps)"
        using p frame Inr h by (simp add: i conn_turn_def)
      note rest = Cons.IH [of gs st1 s2] 
      show ?thesis using rest Cons.prems(1) frame(1,3) unfolding run
        by (auto simp: i and_then_Inr_iff)
    qed (use p frame h in \<open>simp add: i conn_turn_def\<close>)
  qed
qed simp


text \<open>The reverse tunnel over a peer that answers in three pieces, a ping begun in the second.\<close>

definition sample_relay_url :: "unit url_api" where
  "sample_relay_url = \<lparr>ua_parse = (\<lambda>_. Some ()), ua_scheme = (\<lambda>_. lit ''wss''), ua_host_str = (\<lambda>_. Some [104]),
     ua_port = (\<lambda>_. Some 443), ua_path = (\<lambda>_. [47]), ua_query = (\<lambda>_. None)\<rparr>"

definition sample_relay :: "bytes list relay_net" where
  "sample_relay = \<lparr>rn_lookup = (\<lambda>_. Inr (V4 (Ipv4Addr 9 9 9 9))), rn_tcp = (\<lambda>_. Some ([], 5)),
     rn_tls = (\<lambda>_ _. Some (hs_peer [0, 8])), rn_key = [75], rn_in_time = True\<rparr>"

definition sample_turn :: "bytes list conn_in" where
  "sample_turn = \<lparr>ci_now = 7, ci_tx = 6, ci_dialled = None, ci_sent = False\<rparr>"

lemma sample_connects:
  "ws_connect_async sample_relay_url sample_relay chunk_rd accept_wr (\<lambda>_. 64) [104] 443 () [] =
     Some (Inr (lws_framed_new [[0, 8]] (Some [3]), 5))"
  by (simp add: ws_connect_async_def sample_relay_url_def sample_relay_def hs_wait.simps hs_example)


section \<open>A broken connection\<close>

definition broken :: "'io reader \<Rightarrow> 'io lws_framed \<Rightarrow> bool" where
  "broken rd st \<longleftrightarrow> (\<forall>io n. rd io n = (io, ReadFailed)) \<and> lf_tail st = None \<and> lf_reading st \<in> {None, Some rmessage_new}"

lemma broken_poll:
  assumes "broken rd st"
  shows "\<exists>st' e. lf_poll_next rd st = Some (Inr (st', Ready (Some (Inl e)))) \<and> broken rd st'"
proof -
  have m: "(case lf_reading st of None \<Rightarrow> rmessage_new | Some m \<Rightarrow> m) = rmessage_new"
    using assms by (auto simp: broken_def)
  show ?thesis
    using assms by (subst lf_poll_next.simps) (auto simp: lf_poll_turn_def m poll_read_buf_def Let_def broken_def)
qed

lemma broken_never_waits:
  assumes "broken rd st" "\<not> co_breaks co"
  shows "receive_fut_poll rd co now fresh s st = None"
proof (rule ccontr)
  assume "receive_fut_poll rd co now fresh s st \<noteq> None"
  then obtain z where z: "receive_fut_poll rd co now fresh s st = Some z" by blast
  define P where "P rd co now fresh s st z \<longleftrightarrow> (broken rd st \<longrightarrow> co_breaks co)"
    for rd :: "'a reader" and co :: "('b, 'c) conn_owner" and now fresh :: nat and s :: 'b and st and z :: "('b \<times> 'a lws_framed \<times> bool) res"
  have "P rd co now fresh s st z"
  proof (rule receive_fut_poll.raw_induct [OF _ z])
    fix self rd co now fresh s st z
    assume IH: "\<And>rd co now fresh s st z. self rd co now fresh s st = Some z \<Longrightarrow> P rd co now fresh s st z"
      and body: "(case lf_poll_next rd st of
        None \<Rightarrow> None
      | Some (Inl e) \<Rightarrow> Some (Inl e)
      | Some (Inr (st, Pending)) \<Rightarrow> Some (Inr (s, st, False))
      | Some (Inr (st, Ready None)) \<Rightarrow> Some (Inr (s, st, True))
      | Some (Inr (st, Ready (Some (Inl e)))) \<Rightarrow>
          if co_breaks co then Some (Inr (s, st, True)) else self rd co now fresh s st
      | Some (Inr (st, Ready (Some (Inr message)))) \<Rightarrow>
          (case co_message co now fresh s message of
             Inl e \<Rightarrow> Some (Inl e)
           | Inr (s, _) \<Rightarrow> self rd co now fresh s st)) = Some z"
    show "P rd co now fresh s st z"
      unfolding P_def
    proof
      assume b: "broken rd st"
      show "co_breaks co"
      proof (rule ccontr)
        assume n: "\<not> co_breaks co"
        obtain st' e where p: "lf_poll_next rd st = Some (Inr (st', Ready (Some (Inl e))))" "broken rd st'"
          using broken_poll [OF b] by blast
        then have "self rd co now fresh s st' = Some z" using body n by simp
        then show False using IH p(2) n unfolding P_def by blast
      qed
    qed
  qed
  then show False using assms by (simp add: P_def)
qed

lemma broken_ends:
  assumes "broken rd st" "co_breaks co"
  shows "\<exists>st'. receive_fut_poll rd co now fresh s st = Some (Inr (s, st', True))"
proof -
  obtain st' e where "lf_poll_next rd st = Some (Inr (st', Ready (Some (Inl e))))"
    using broken_poll [OF assms(1)] by blast
  then show ?thesis using assms(2) by (subst receive_fut_poll.simps) simp
qed


end
