(* ===== verification/Tun_Net.thy ===== *)
theory Tun_Net imports Tun_Mgr_Run Tun_Conn begin
text \<open>
  The tunnel manager together with the tasks that dial and serve its connections: what \<^verbatim>\<open>tunmgr.rs\<close>
  assumes of \<^verbatim>\<open>tunbuilder.rs\<close> holds of the tasks that it starts.
\<close>

section \<open>The manager and its tasks\<close>

text \<open>A task is started with the manager's limits of that moment.\<close>

record 'io task =
  tk_index :: nat
  tk_cap :: nat
  tk_quota :: u16
  tk_conn :: "'io conn"

type_synonym 'io net = "tun_mgr \<times> 'io task list"

definition start_tasks :: "tun_mgr \<Rightarrow> mgr_effect list \<Rightarrow> 'io task list" where
  "start_tasks m eff = map (\<lambda>i. \<lparr>tk_index = i, tk_cap = mg_tunnel_req_cap m, tk_quota = mg_request_quota m,
     tk_conn = CnDialling\<rparr>) (connects eff)"

text \<open>A task takes a turn, the timer fires, or something happens to the manager that starts no task.\<close>

datatype 'io net_event = NeTurn nat "'io conn_in" | NeKeepAlive nat | NeOther mgr_event

fun net_step ::
  "'io reader \<Rightarrow> (chan \<Rightarrow> bool) \<Rightarrow> (str \<Rightarrow> bool) \<Rightarrow> sorter \<Rightarrow> 'io net \<Rightarrow> 'io net_event \<Rightarrow> 'io net res option" where
  "net_step rd alive url_ok sort_by (m, ts) (NeTurn k inp) =
     (let t = ts ! k in
      case conn_turn rd (tun_builder alive (tk_index t) (tk_cap t) (tk_quota t)) m (tk_conn t) inp of
        None \<Rightarrow> None
      | Some (Inl e) \<Rightarrow> Some (Inl e)
      | Some (Inr (m, c, _)) \<Rightarrow> Some (Inr (m, ts[k := t\<lparr>tk_conn := c\<rparr>])))"
| "net_step rd alive url_ok sort_by (m, ts) (NeKeepAlive now) =
     Some (and_then (mgr_keepalive alive url_ok sort_by now m) (\<lambda>(m, eff). Inr (m, ts @ start_tasks m eff)))"
| "net_step rd alive url_ok sort_by (m, ts) (NeOther e) =
     Some (and_then (mgr_step alive url_ok sort_by (m, {#}) e) (\<lambda>(m, _). Inr (m, ts)))"

definition net_new :: "(str \<Rightarrow> bool) \<Rightarrow> chan \<Rightarrow> nat \<Rightarrow> tun_cfg \<Rightarrow> 'io net res" where
  "net_new url_ok tx n cfg = and_then (mgr_init url_ok (tun_mgr_new tx n cfg)) (\<lambda>(m, eff). Inr (m, start_tasks m eff))"

text \<open>
  What can happen: a turn of a task whose transport does not fault and whose peer is honest; no panic inside
  the dialling; another event of the manager.
\<close>

fun net_enabled :: "'io reader \<Rightarrow> 'io net \<Rightarrow> 'io net_event \<Rightarrow> bool" where
  "net_enabled rd (m, ts) (NeTurn k inp) \<longleftrightarrow> k < length ts \<and>
     (case tk_conn (ts ! k) of
        CnDialling \<Rightarrow> (case ci_dialled inp of Some (Inl e) \<Rightarrow> \<not> fatal e | _ \<Rightarrow> True)
      | CnOpen st \<Rightarrow>
          (case lf_poll_next rd st of
             Some (Inr (st, Ready (Some (Inr message)))) \<Rightarrow>
               mgr_enabled (m, {#}) (TunnelMsg (ci_now inp) (tk_index (ts ! k)) message)
           | Some (Inr _) \<Rightarrow> True
           | _ \<Rightarrow> False)
      | CnDone \<Rightarrow> True)"
| "net_enabled rd (m, ts) (NeKeepAlive now) \<longleftrightarrow> True"
| "net_enabled rd (m, ts) (NeOther e) \<longleftrightarrow> (mgr_kind e \<in> {LOther, LStop}) \<and> mgr_enabled (m, {#}) e"

inductive net_reaches ::
  "'io reader \<Rightarrow> (chan \<Rightarrow> bool) \<Rightarrow> (str \<Rightarrow> bool) \<Rightarrow> sorter \<Rightarrow> 'io net \<Rightarrow> 'io net \<Rightarrow> bool"
  for rd alive url_ok sort_by s0 where
  started: "net_reaches rd alive url_ok sort_by s0 s0"
| event: "net_reaches rd alive url_ok sort_by s0 s \<Longrightarrow> net_enabled rd s e \<Longrightarrow>
    net_step rd alive url_ok sort_by s e = Some (Inr s') \<Longrightarrow> net_reaches rd alive url_ok sort_by s0 s'"

section \<open>What the tasks are doing\<close>

fun is_dialling :: "'io conn \<Rightarrow> bool" where
  "is_dialling CnDialling = True"
| "is_dialling _ = False"

fun is_open :: "'io conn \<Rightarrow> bool" where
  "is_open (CnOpen st) = True"
| "is_open _ = False"

definition dialling :: "'io task list \<Rightarrow> nat multiset" where
  "dialling ts = image_mset tk_index (filter_mset (\<lambda>t. is_dialling (tk_conn t)) (mset ts))"

definition serving :: "'io task list \<Rightarrow> nat multiset" where
  "serving ts = image_mset tk_index (filter_mset (\<lambda>t. is_open (tk_conn t)) (mset ts))"

definition net_ok :: "'io net \<Rightarrow> bool" where
  "net_ok s \<longleftrightarrow> (case s of (m, ts) \<Rightarrow> mgr_ok (m, dialling ts) \<and>
     (\<forall>i. count (serving ts) i = (if open_at m i then 1 else 0)) \<and>
     (\<forall>t \<in> set ts. tk_cap t < 2 ^ 16) \<and> mg_tunnel_req_cap m < 2 ^ 16)"

lemma task_out:
  assumes "k < length ts"
  shows "\<exists>M. mset ts = add_mset (ts ! k) M \<and> (\<forall>t. mset (ts[k := t]) = add_mset t M)"
proof -
  have "ts ! k \<in># mset ts" using assms by simp
  then obtain M where "mset ts = add_mset (ts ! k) M" by (rule mset_add)
  then show ?thesis using mset_update [OF assms] by (intro exI [of _ M]) simp
qed

lemma task_in:
  "k < length ts \<Longrightarrow> is_dialling (tk_conn (ts ! k)) \<Longrightarrow> tk_index (ts ! k) \<in># dialling ts"
  "k < length ts \<Longrightarrow> is_open (tk_conn (ts ! k)) \<Longrightarrow> tk_index (ts ! k) \<in># serving ts"
  by (auto simp: dialling_def serving_def)

lemma set_task:
  "t' \<in> set (ts[k := t]) \<Longrightarrow> t' = t \<or> t' \<in> set ts"
  using set_update_subset_insert by fastforce

lemma dialling_turn:
  assumes "k < length ts"
  shows "dialling (ts[k := (ts ! k)\<lparr>tk_conn := c\<rparr>]) =
       dialling ts - (if is_dialling (tk_conn (ts ! k)) then {#tk_index (ts ! k)#} else {#})
       + (if is_dialling c then {#tk_index (ts ! k)#} else {#})"
  using task_out [OF assms] by (auto simp: dialling_def)

lemma serving_turn:
  assumes "k < length ts"
  shows "serving (ts[k := (ts ! k)\<lparr>tk_conn := c\<rparr>]) =
       serving ts - (if is_open (tk_conn (ts ! k)) then {#tk_index (ts ! k)#} else {#})
       + (if is_open c then {#tk_index (ts ! k)#} else {#})"
  using task_out [OF assms] by (auto simp: serving_def)

lemma started_tasks:
  "dialling (start_tasks m eff) = mset (connects eff)" "serving (start_tasks m eff) = {#}"
  "t \<in> set (start_tasks m eff) \<Longrightarrow> tk_cap t = mg_tunnel_req_cap m"
proof -
  have "dialling (map (\<lambda>i. \<lparr>tk_index = i, tk_cap = c, tk_quota = q, tk_conn = CnDialling\<rparr>) ns) = mset ns"
    "serving (map (\<lambda>i. \<lparr>tk_index = i, tk_cap = c, tk_quota = q, tk_conn = CnDialling\<rparr>) ns) = {#}" for c q and ns :: "nat list"
    by (induction ns) (simp_all add: dialling_def serving_def)
  then show "dialling (start_tasks m eff) = mset (connects eff)" "serving (start_tasks m eff) = {#}"
    by (simp_all add: start_tasks_def)
qed (auto simp: start_tasks_def)

lemma tasks_append: "dialling (xs @ ys) = dialling xs + dialling ys" "serving (xs @ ys) = serving xs + serving ys"
  by (simp_all add: dialling_def serving_def)

section \<open>What a task does is what the manager expects\<close>

text \<open>The manager's limit of requests never changes.\<close>

lemma mgr_request_created_cap:
  assumes "mgr_request_created alive m req ip port = Inr (m', eff, ts)"
  shows "mg_tunnel_req_cap m' = mg_tunnel_req_cap m"
proof (cases "mg_discarded m")
  case False
  then obtain m1 r where a: "alloc_tunnel_for_req m = Inr (m1, r)"
    using assms by (auto simp: mgr_request_created_def and_then_Inr_iff)
  then show ?thesis using assms False alloc_same [OF a]
    by (cases r) (auto simp: mgr_request_created_def and_then_Inr_iff)
qed (use assms in \<open>simp add: mgr_request_created_def\<close>)

lemma mgr_keepalive_cap:
  assumes "mgr_keepalive alive url_ok sort_by now m = Inr (m', eff)"
  shows "mg_tunnel_req_cap m' = mg_tunnel_req_cap m"
proof (cases "mg_discarded m")
  case False
  then obtain m1 eff1 m2 eff2 where s: "send_pings alive now (sort_tunnels_by_busy sort_by m) = Inr (m1, eff1)"
    "process_reconnect url_ok m1 = Inr (m2, eff2)" "m' = fst (report_access_log alive m2)"
    using assms by (auto simp: mgr_keepalive_def and_then_Inr_iff Let_def case_prod_beta)
  have "mg_tunnel_req_cap m1 = mg_tunnel_req_cap m"
    using s(1) by (auto simp: send_pings_def and_then_Inr_iff sort_tunnels_by_busy_def)
  moreover have "mg_tunnel_req_cap m2 = mg_tunnel_req_cap m1"
    using s(2) by (auto simp: process_reconnect_def and_then_Inr_iff)
  ultimately show ?thesis using s(3) by (simp add: report_access_log_def)
qed (use assms in \<open>simp add: mgr_keepalive_def\<close>)

lemma on_tunnel_created_cap:
  "on_tunnel_created m tun = Inr (m', b) \<Longrightarrow> mg_tunnel_req_cap m' = mg_tunnel_req_cap m"
  by (auto simp: on_tunnel_created_def and_then_Inr_iff Let_def split: if_splits)

lemma on_tunnel_closed_cap:
  "on_tunnel_closed m i = Inr (m', t) \<Longrightarrow> mg_tunnel_req_cap m' = mg_tunnel_req_cap m"
  by (cases "i < length (mg_tunnels m)"; cases "mg_tunnels m ! i")
     (auto simp: on_tunnel_closed_def on_tunnel_closed_interal_def vec_get_def Let_def split: if_splits)

lemma mgr_request_closed_cap:
  "mgr_request_closed alive m ts = Inr (m', eff) \<Longrightarrow> mg_tunnel_req_cap m' = mg_tunnel_req_cap m"
  by (cases "unat (ts_tun_idx ts) < length (mg_tunnels m)"; cases "mg_tunnels m ! unat (ts_tun_idx ts)")
     (auto simp: mgr_request_closed_def and_then_Inr_iff vec_get_def Let_def)

lemma mgr_tunnel_msg_cap:
  "mgr_tunnel_msg alive now m i msg = Inr (m', eff) \<Longrightarrow> mg_tunnel_req_cap m' = mg_tunnel_req_cap m"
  by (cases "mg_tunnels m ! i") (auto simp: mgr_tunnel_msg_def and_then_Inr_iff)

lemma mgr_udp_proxy_north_cap:
  "mgr_udp_proxy_north alive m msg src dst h = Inr (m', eff) \<Longrightarrow> mg_tunnel_req_cap m' = mg_tunnel_req_cap m"
  by (cases "mg_tunnels m ! (h mod length (mg_tunnels m))")
     (auto simp: mgr_udp_proxy_north_def and_then_Inr_iff log_access_def Let_def split: if_splits)

lemmas mgr_caps = mgr_request_created_cap mgr_keepalive_cap on_tunnel_created_cap on_tunnel_closed_cap
  mgr_request_closed_cap mgr_tunnel_msg_cap mgr_udp_proxy_north_cap

lemma mgr_step_cap:
  assumes "mgr_step alive url_ok sort_by s e = Inr s'"
  shows "mg_tunnel_req_cap (fst s') = mg_tunnel_req_cap (fst s)"
  using assms
  by (cases s; cases e)
    (auto simp: and_then_Inr_iff on_tunnel_build_error_def mgr_stop_def mgr_set_udpx_tx_def update_tuncfg_def
      log_access_def split: if_splits dest!: mgr_caps)

text \<open>Which connections are served after an event of the manager.\<close>

definition served :: "tun_mgr \<Rightarrow> ledger_event \<Rightarrow> nat multiset \<Rightarrow> nat multiset" where
  "served m e S =
     (case e of LBuilt i \<Rightarrow> if mg_discarded m then S else add_mset i S | LEnded i \<Rightarrow> S - {#i#} | _ \<Rightarrow> S)"

lemma net_ok_step:
  assumes ok: "net_ok (m, ts)" and en: "mgr_enabled (m, dialling ts) e"
    and st: "mgr_step alive url_ok sort_by (m, dialling ts) e = Inr (m', dialling ts')"
    and sv: "serving ts' = served m (mgr_kind e) (serving ts)" and caps: "\<forall>t \<in> set ts'. tk_cap t < 2 ^ 16"
    and url: "\<And>txt. url_ok txt" and perm: "\<And>cmp xs. mset (sort_by cmp xs) = mset xs"
  shows "net_ok (m', ts')"
proof -
  let ?s = "(m, dialling ts)" and ?s' = "(m', dialling ts')"
  have g: "mgr_good url_ok sort_by ?s" and c: "\<And>i. count (serving ts) i = (if open_at m i then 1 else 0)"
    using ok url perm by (simp_all add: net_ok_def mgr_good_def)
  note law = g en st
  have "mgr_good url_ok sort_by ?s'" by (rule mgrp.keeps_ok [OF law])
  moreover have "mg_tunnel_req_cap m' < 2 ^ 16" using mgr_step_cap [OF st] ok by (simp add: net_ok_def)
  moreover have "count (serving ts') i = (if open_at m' i then 1 else 0)" for i
  proof (cases "mgr_kind e")
    case (LBuilt j)
    note b = mgrp.built [OF law LBuilt, unfolded mgr_opens_def mgr_stopped_def fst_conv snd_conv]
    have "owners m (dialling ts) j \<le> 1" using g by (auto simp: mgr_good_def mgr_ok_def owned_def split: if_splits intro: le_trans)
    moreover have "0 < count (dialling ts) j" using b by simp
    ultimately have "\<not> open_at m j" by (auto simp: owners_def simp del: count_greater_zero_iff split: if_splits)
    then show ?thesis using b c sv LBuilt by (auto simp: served_def)
  next
    case (LEnded j)
    note b = mgrp.ended [OF law LEnded, unfolded mgr_opens_def mgr_stopped_def fst_conv snd_conv]
    show ?thesis using b c sv LEnded by (auto simp: served_def)
  next
    case (LFailed j)
    note b = mgrp.failed [OF law LFailed, unfolded mgr_opens_def mgr_stopped_def fst_conv snd_conv]
    show ?thesis using b c sv LFailed by (simp add: served_def)
  next
    case LTick
    note b = mgrp.tick [OF law LTick, unfolded mgr_opens_def mgr_stopped_def fst_conv snd_conv]
    show ?thesis using b c sv LTick by (simp add: served_def)
  next
    case LStop
    note b = mgrp.stop [OF law LStop, unfolded mgr_opens_def mgr_stopped_def fst_conv snd_conv]
    show ?thesis using b c sv LStop by (simp add: served_def)
  next
    case LOther
    note b = mgrp.other [OF law LOther, unfolded mgr_opens_def mgr_stopped_def fst_conv snd_conv]
    show ?thesis using b c sv LOther by (simp add: served_def)
  qed
  ultimately show ?thesis using caps by (simp add: net_ok_def mgr_good_def)
qed

text \<open>A turn either leaves the manager as it is or is one of its events, at a moment when it may happen.\<close>

definition turn_simulated ::
  "'io reader \<Rightarrow> (chan \<Rightarrow> bool) \<Rightarrow> (str \<Rightarrow> bool) \<Rightarrow> sorter \<Rightarrow> 'io net \<Rightarrow> nat \<Rightarrow> 'io conn_in \<Rightarrow> bool" where
  "turn_simulated rd alive url_ok sort_by s k inp \<longleftrightarrow>
    (let m = fst s; ts = snd s in
     \<exists>m' c. net_step rd alive url_ok sort_by s (NeTurn k inp) = Some (Inr (m', ts[k := (ts ! k)\<lparr>tk_conn := c\<rparr>])) \<and>
      (let ts' = ts[k := (ts ! k)\<lparr>tk_conn := c\<rparr>] in
         (m' = m \<and> dialling ts' = dialling ts \<and> serving ts' = serving ts) \<or>
         (\<exists>e. mgr_enabled (m, dialling ts) e \<and> mgr_step alive url_ok sort_by (m, dialling ts) e = Inr (m', dialling ts') \<and>
            serving ts' = served m (mgr_kind e) (serving ts))))"

lemma turn_idle:
  assumes "net_step rd alive url_ok sort_by (m, ts) (NeTurn k inp) = Some (Inr (m, ts[k := (ts ! k)\<lparr>tk_conn := c\<rparr>]))"
    "dialling (ts[k := (ts ! k)\<lparr>tk_conn := c\<rparr>]) = dialling ts" "serving (ts[k := (ts ! k)\<lparr>tk_conn := c\<rparr>]) = serving ts"
  shows "turn_simulated rd alive url_ok sort_by (m, ts) k inp"
  using assms unfolding turn_simulated_def Let_def fst_conv snd_conv by blast

lemma turn_event:
  assumes "net_step rd alive url_ok sort_by (m, ts) (NeTurn k inp) = Some (Inr (m', ts[k := (ts ! k)\<lparr>tk_conn := c\<rparr>]))"
    "mgr_enabled (m, dialling ts) e"
    "mgr_step alive url_ok sort_by (m, dialling ts) e = Inr (m', dialling (ts[k := (ts ! k)\<lparr>tk_conn := c\<rparr>]))"
    "serving (ts[k := (ts ! k)\<lparr>tk_conn := c\<rparr>]) = served m (mgr_kind e) (serving ts)"
  shows "turn_simulated rd alive url_ok sort_by (m, ts) k inp"
  using assms unfolding turn_simulated_def Let_def fst_conv snd_conv by blast

lemma turn_simulatedE:
  assumes "turn_simulated rd alive url_ok sort_by (m, ts) k inp"
  obtains c where "net_step rd alive url_ok sort_by (m, ts) (NeTurn k inp) = Some (Inr (m, ts[k := (ts ! k)\<lparr>tk_conn := c\<rparr>]))"
    "dialling (ts[k := (ts ! k)\<lparr>tk_conn := c\<rparr>]) = dialling ts" "serving (ts[k := (ts ! k)\<lparr>tk_conn := c\<rparr>]) = serving ts"
  | m' c e where "net_step rd alive url_ok sort_by (m, ts) (NeTurn k inp) = Some (Inr (m', ts[k := (ts ! k)\<lparr>tk_conn := c\<rparr>]))"
    "mgr_enabled (m, dialling ts) e"
    "mgr_step alive url_ok sort_by (m, dialling ts) e = Inr (m', dialling (ts[k := (ts ! k)\<lparr>tk_conn := c\<rparr>]))"
    "serving (ts[k := (ts ! k)\<lparr>tk_conn := c\<rparr>]) = served m (mgr_kind e) (serving ts)"
  using assms unfolding turn_simulated_def Let_def fst_conv snd_conv by blast

lemma turn_of_dialling:
  assumes ok: "net_ok (m, ts)" and k: "k < length ts" and c: "tk_conn (ts ! k) = CnDialling"
    and safe: "net_enabled rd (m, ts) (NeTurn k inp)"
  shows "turn_simulated rd alive url_ok sort_by (m, ts) k inp"
proof -
  let ?t = "ts ! k" let ?i = "tk_index ?t"
  note upd = dialling_turn [OF k] serving_turn [OF k]
  have d: "?i \<in># dialling ts" using task_in(1) [OF k] c by simp
  show ?thesis
  proof (cases "ci_dialled inp")
    case None
    then show ?thesis using c upd [of CnDialling] d by (intro turn_idle [of _ _ _ _ _ _ _ _ CnDialling]) (simp_all add: Let_def conn_turn_def)
  next
    case (Some r)
    show ?thesis
    proof (cases r)
      case (Inl f)
      then show ?thesis using c Some upd [of CnDone] d safe
        by (intro turn_event [of _ _ _ _ _ _ _ _ "on_tunnel_build_error m ?i" CnDone "BuildFailed ?i"])
           (auto simp: Let_def conn_turn_def tun_builder_def served_def)
    next
      case (Inr p)
      obtain framed rawfd where p: "p = (framed, rawfd)" by fastforce
      let ?tun = "tunnel_new (ci_now inp) (ci_tx inp) rawfd ?i (tk_cap ?t) (tk_quota ?t)"
      have "tunnel_ok ?tun" using ok k by (intro tunnel_new_ok) (simp add: net_ok_def)
      moreover have ix: "tn_index ?tun = ?i" by (simp add: tunnel_new_def)
      ultimately have e: "mgr_enabled (m, dialling ts) (Built ?tun)" using d by simp
      obtain m' b where b: "on_tunnel_created m ?tun = Inr (m', b)" "b \<longleftrightarrow> \<not> mg_discarded m"
        using built_ok [of m "dialling ts" ?tun] ok e by (auto simp: net_ok_def)
      have st: "net_step rd alive url_ok sort_by (m, ts) (NeTurn k inp) =
        Some (Inr (m', ts[k := ?t\<lparr>tk_conn := if b then CnOpen framed else CnDone\<rparr>]))"
        using c Some Inr p b by (simp add: Let_def conn_turn_def tun_builder_def)
      show ?thesis using c upd [of "if b then CnOpen framed else CnDone"] d b ix
        by (intro turn_event [OF st e]) (auto simp: served_def)
    qed
  qed
qed

lemma turn_of_open:
  assumes ok: "net_ok (m, ts)" and en: "net_enabled rd (m, ts) (NeTurn k inp)" and op: "tk_conn (ts ! k) = CnOpen st"
  shows "turn_simulated rd alive url_ok sort_by (m, ts) k inp"
proof -
  let ?t = "ts ! k" let ?i = "tk_index ?t" let ?step = "net_step rd alive url_ok sort_by (m, ts) (NeTurn k inp)"
  have k: "k < length ts" using en by simp
  note upd = dialling_turn [OF k] serving_turn [OF k] and run = Let_def conn_turn_def tun_builder_def conn_end_def
  have i: "?i \<in># serving ts" using task_in(2) [OF k] op by simp
  then have o: "open_at m ?i" using ok by (auto simp: net_ok_def simp flip: count_greater_zero_iff split: if_splits)
  obtain m2 tn where c: "on_tunnel_closed m ?i = Inr (m2, tn)" using ended_ok [of m "dialling ts" ?i] ok o by (auto simp: net_ok_def)
  have closes: ?thesis if "?step = Some (Inr (m2, ts[k := ?t\<lparr>tk_conn := CnDone\<rparr>]))"
    using op upd [of CnDone] i c o by (intro turn_event [OF that, of "TunnelEnded ?i"]) (auto simp: served_def)
  have stays: ?thesis if "?step = Some (Inr (m, ts[k := ?t\<lparr>tk_conn := CnOpen st2\<rparr>]))" for st2
    using op upd [of "CnOpen st2"] i by (intro turn_idle [OF that]) simp_all
  obtain st2 r where p: "lf_poll_next rd st = Some (Inr (st2, r))"
    using en op by (auto split: option.splits sum.splits)
  consider "r = Pending" | "r = Ready None" | e where "r = Ready (Some (Inl e))" | msg where "r = Ready (Some (Inr msg))"
    by (cases r) (metis option.exhaust sum.exhaust)+
  then show ?thesis
  proof cases
    case 4
    have e: "mgr_enabled (m, dialling ts) (TunnelMsg (ci_now inp) ?i msg)" using en op p 4 by simp
    obtain m' eff where m': "mgr_tunnel_msg alive (ci_now inp) m ?i msg = Inr (m', eff)"
      using tunnel_msg_ok [of m "dialling ts"] ok e by (fastforce simp: net_ok_def)
    have st: "?step = Some (Inr (m', ts[k := ?t\<lparr>tk_conn := CnOpen st2\<rparr>]))" using op p 4 m' by (simp add: run)
    show ?thesis using op upd [of "CnOpen st2"] i m' by (intro turn_event [OF st e]) (auto simp: served_def)
  next
    case 1
    show ?thesis by (cases "ci_sent inp"; rule closes stays) (use op p c 1 in \<open>simp_all add: run\<close>)
  next
    case 2
    show ?thesis by (rule closes) (use op p c 2 in \<open>simp add: run\<close>)
  next
    case 3
    show ?thesis by (rule closes) (use op p c 3 in \<open>simp add: run\<close>)
  qed
qed

lemma turn_is_event:
  assumes ok: "net_ok (m, ts)" and en: "net_enabled rd (m, ts) (NeTurn k inp)"
  shows "turn_simulated rd alive url_ok sort_by (m, ts) k inp"
proof (cases "tk_conn (ts ! k)")
  case CnDialling
  then show ?thesis using en by (intro turn_of_dialling [OF ok]) simp_all
next
  case (CnOpen st)
  then show ?thesis by (rule turn_of_open [OF ok en])
next
  case CnDone
  then show ?thesis using en dialling_turn [of k ts CnDone] serving_turn [of k ts CnDone]
    by (intro turn_idle [of _ _ _ _ _ _ _ _ CnDone]) (simp_all add: Let_def conn_turn_def)
qed

lemma net_event_ok:
  assumes ok: "net_ok s" and en: "net_enabled rd s e"
    and url: "\<And>txt. url_ok txt" and perm: "\<And>cmp xs. mset (sort_by cmp xs) = mset xs"
  shows "\<exists>s'. net_step rd alive url_ok sort_by s e = Some (Inr s') \<and> net_ok s' \<and>
    length (mg_tunnels (fst s')) = length (mg_tunnels (fst s))"
proof -
  obtain m ts where s: "s = (m, ts)" by fastforce
  note okd = ok [unfolded s]
  have caps: "\<forall>t \<in> set ts. tk_cap t < 2 ^ 16" "mg_tunnel_req_cap m < 2 ^ 16" using okd by (simp_all add: net_ok_def)
  show ?thesis
  proof (cases e)
    case (NeTurn k inp)
    have k: "k < length ts" using en by (simp add: s NeTurn)
    have caps': "\<forall>t \<in> set (ts[k := (ts ! k)\<lparr>tk_conn := c\<rparr>]). tk_cap t < 2 ^ 16" for c
      using caps(1) k by (auto dest!: set_task)
    have "turn_simulated rd alive url_ok sort_by (m, ts) k inp"
      using turn_is_event [OF okd] en by (simp add: s NeTurn)
    then show ?thesis
    proof (cases rule: turn_simulatedE)
      case (1 c)
      have "net_ok (m, ts[k := (ts ! k)\<lparr>tk_conn := c\<rparr>])" using okd caps' 1 by (simp add: net_ok_def)
      then show ?thesis using 1(1) by (simp add: s NeTurn)
    next
      case (2 m' c e')
      have "net_ok (m', ts[k := (ts ! k)\<lparr>tk_conn := c\<rparr>])"
        by (rule net_ok_step [where url_ok = url_ok and sort_by = sort_by, OF okd 2(2-4) caps' url perm])
      then show ?thesis using 2(1) mgr_step_length [OF 2(3)] by (simp add: s NeTurn)
    qed
  next
    case (NeKeepAlive now)
    obtain m' eff where k: "mgr_keepalive alive url_ok sort_by now m = Inr (m', eff)"
      using keepalive_ok [where alive = alive and url_ok = url_ok and sort_by = sort_by and now = now and m = m and c = "dialling ts", OF _ url perm]
        okd by (auto simp: net_ok_def)
    let ?ts = "ts @ start_tasks m' eff"
    have st: "mgr_step alive url_ok sort_by (m, dialling ts) (KeepAlive now) = Inr (m', dialling ?ts)"
      using k by (simp add: tasks_append started_tasks)
    have "\<forall>t \<in> set ?ts. tk_cap t < 2 ^ 16" using caps mgr_keepalive_cap [OF k] by (auto dest: started_tasks(3))
    then have "net_ok (m', ?ts)"
      by (intro net_ok_step [where url_ok = url_ok and sort_by = sort_by, OF okd _ st _ _ url perm])
         (simp_all add: served_def tasks_append started_tasks)
    then show ?thesis using k mgr_keepalive_length [OF k] by (simp add: s NeKeepAlive)
  next
    case (NeOther e')
    have e': "mgr_enabled (m, dialling ts) e'" "mgr_kind e' \<in> {LOther, LStop}"
      using en by (cases e'; simp add: s NeOther)+
    obtain s' where s': "mgr_step alive url_ok sort_by (m, dialling ts) e' = Inr s'"
      using mgr_step_ok [where s = "(m, dialling ts)" and alive = alive and url_ok = url_ok and sort_by = sort_by, OF _ e'(1) url perm] okd by (auto simp: net_ok_def)
    obtain m' where m': "s' = (m', dialling ts)" "mgr_step alive url_ok sort_by (m, {#}) e' = Inr (m', {#})"
      using s' e'(2) by (cases e') (auto simp: and_then_Inr_iff)
    have "net_ok (m', ts)"
      by (rule net_ok_step [where url_ok = url_ok and sort_by = sort_by, OF okd e'(1) s' [unfolded m'(1)] _ caps(1) url perm])
         (use e'(2) in \<open>auto simp: served_def\<close>)
    then show ?thesis using m' mgr_step_length [OF s'] by (simp add: s NeOther)
  qed
qed

lemma net_reaches_ok:
  assumes "net_reaches rd alive url_ok sort_by s0 s" "net_ok s0"
    and "\<And>txt. url_ok txt" "\<And>cmp xs. mset (sort_by cmp xs) = mset xs"
  shows "net_ok s \<and> length (mg_tunnels (fst s)) = length (mg_tunnels (fst s0))"
  using assms
proof (induction rule: net_reaches.induct)
  case (event s e s')
  then show ?case
    using net_event_ok [where s = s and e = e and rd = rd and alive = alive and url_ok = url_ok and sort_by = sort_by] by auto
qed simp

lemma net_new_ok:
  assumes "n < 2 ^ 16" "\<And>txt. url_ok txt" "tc_tunnel_req_cap cfg < 2 ^ 16"
  shows "\<exists>s0. net_new url_ok tx n cfg = Inr s0 \<and> net_ok s0 \<and> length (mg_tunnels (fst s0)) = n"
proof -
  let ?m = "tun_mgr_new tx n cfg"
  obtain eff where eff: "connect_all url_ok ?m [0..<n] = Inr eff" "connects eff = [0..<n]"
    using connect_all_ok [where url_ok = url_ok] assms(2) by blast
  let ?m1 = "?m\<lparr>mg_keepalive_trigger := True\<rparr>"
  have i: "mgr_init url_ok ?m = Inr (?m1, eff)" using eff by (simp add: mgr_init_def tun_mgr_new_def)
  have "mgr_ok (?m1, mset [0..<n])" using mgr_init_ok [OF assms(1)] by (rule mgr_ok_cong [rotated 5]) auto
  then have "net_ok (?m1, start_tasks ?m1 eff)"
    using assms(3) eff(2) by (auto simp: net_ok_def started_tasks open_at_def tun_mgr_new_def dest!: started_tasks(3))
  then show ?thesis using i by (simp add: net_new_def tun_mgr_new_def)
qed


text \<open>Two tunnels; dialling the second fails, and its index waits for the next keep-alive.\<close>

definition second_fails :: "bytes list net_event" where
  "second_fails = NeTurn 1 \<lparr>ci_now = 7, ci_tx = 6, ci_dialled = Some (Inl IoError), ci_sent = False\<rparr>"

end
