(* ===== verification/Req_Life.thy ===== *)
theory Req_Life imports Tun_Conn begin
text \<open>
  The tasks that carry a proxied TCP connection, from the moment it has a slot to the release of the slot:
  the futures of \<^verbatim>\<open>serve_sock\<close> in \<^verbatim>\<open>tunnels/reqserv.rs\<close>, for a connection of a local client, and of
  \<^verbatim>\<open>proxy_request_internal\<close> in \<^verbatim>\<open>xport/xreqserv.rs\<close>, for a connection that the relay asked for.
\<close>

section \<open>The task\<close>

text \<open>
  Both join two futures over one socket: one takes items from the slot's channel, writes them to the socket
  and then shuts down its writing side; the other reads the socket, until the slot's trigger fires. Only
  one of them stops reading after a failure.
\<close>

record ('s, 'e) req_owner =
  qo_item :: "u16 \<Rightarrow> (u16 \<times> 'e list) res"
  qo_msg :: "'s \<Rightarrow> tmessage \<Rightarrow> ('e list \<times> bool) res"
  qo_recv_finished :: "'s \<Rightarrow> 'e list res"
  qo_closed :: "'s \<Rightarrow> ('s \<times> 'e list) res"
  qo_breaks :: bool

record 'io req_task =
  qt_framed :: "'io tcp_framed"
  qt_write_out :: u16
  qt_send_ended :: bool
  qt_recv_ended :: bool

definition req_task_new :: "'io \<Rightarrow> 'io req_task" where
  "req_task_new io = \<lparr>qt_framed = tcp_framed_new io, qt_write_out = 0, qt_send_ended = False, qt_recv_ended = False\<rparr>"

text \<open>What the task does, with what its owner then does.\<close>

datatype req_call = QItem wmessage | QShutdownWrite | QData tmessage | QFinished | QClosed

text \<open>
  A turn of one of the futures: an item is taken from the channel; forwarding ends, as all senders are gone or
  a write failed; the socket is read; the trigger fires.
\<close>

datatype req_in = RqItem wmessage | RqSendEnd | RqRead | RqTripped

definition req_join :: "('s, 'e) req_owner \<Rightarrow> 's \<Rightarrow> 'io req_task \<Rightarrow> ('s \<times> 'io req_task \<times> (req_call \<times> 'e list) list) res" where
  "req_join o1 s k =
     (if qt_send_ended k \<and> qt_recv_ended k then
        and_then (qo_closed o1 s) (\<lambda>(s, eff). Inr (s, k, [(QClosed, eff)]))
      else Inr (s, k, []))"

definition req_send_end :: "('s, 'e) req_owner \<Rightarrow> 's \<Rightarrow> 'io req_task \<Rightarrow> ('s \<times> 'io req_task \<times> (req_call \<times> 'e list) list) res" where
  "req_send_end o1 s k =
     and_then (req_join o1 s (k\<lparr>qt_send_ended := True\<rparr>)) (\<lambda>(s, k, tr). Inr (s, k, (QShutdownWrite, []) # tr))"

definition req_recv_end :: "('s, 'e) req_owner \<Rightarrow> 's \<Rightarrow> 'io req_task \<Rightarrow> ('s \<times> 'io req_task \<times> (req_call \<times> 'e list) list) res" where
  "req_recv_end o1 s k =
     and_then (qo_recv_finished o1 s) (\<lambda>eff.
     and_then (req_join o1 s (k\<lparr>qt_recv_ended := True\<rparr>)) (\<lambda>(s, k, tr). Inr (s, k, (QFinished, eff) # tr)))"

definition req_read :: "'io reader \<Rightarrow> ('s, 'e) req_owner \<Rightarrow> 's \<Rightarrow> 'io req_task \<Rightarrow> ('s \<times> 'io req_task \<times> (req_call \<times> 'e list) list) res" where
  "req_read rd o1 s k =
     and_then (tf_poll_next rd (qt_framed k)) (\<lambda>(framed, r).
     let k = k\<lparr>qt_framed := framed\<rparr> in
     case r of
       Pending \<Rightarrow> Inr (s, k, [])
     | Ready None \<Rightarrow> req_recv_end o1 s k
     | Ready (Some (Inl e)) \<Rightarrow> if qo_breaks o1 then req_recv_end o1 s k else Inr (s, k, [])
     | Ready (Some (Inr m)) \<Rightarrow>
         and_then (qo_msg o1 s m) (\<lambda>(eff, ok).
         if \<not> ok \<and> qo_breaks o1 then
           and_then (req_recv_end o1 s k) (\<lambda>(s, k, tr). Inr (s, k, (QData m, eff) # tr))
         else Inr (s, k, [(QData m, eff)])))"

definition req_turn ::
  "'io reader \<Rightarrow> ('s, 'e) req_owner \<Rightarrow> 's \<Rightarrow> 'io req_task \<Rightarrow> req_in \<Rightarrow> ('s \<times> 'io req_task \<times> (req_call \<times> 'e list) list) res" where
  "req_turn rd o1 s k inp =
     (case inp of
        RqItem item \<Rightarrow>
          if qt_send_ended k then Inr (s, k, [])
          else and_then (qo_item o1 (qt_write_out k)) (\<lambda>(w, eff). Inr (s, k\<lparr>qt_write_out := w\<rparr>, [(QItem item, eff)]))
      | RqSendEnd \<Rightarrow> if qt_send_ended k then Inr (s, k, []) else req_send_end o1 s k
      | RqRead \<Rightarrow> if qt_recv_ended k then Inr (s, k, []) else req_read rd o1 s k
      | RqTripped \<Rightarrow> if qt_recv_ended k then Inr (s, k, []) else req_recv_end o1 s k)"

text \<open>Before each turn other tasks may have changed the owner.\<close>

fun req_run ::
  "'io reader \<Rightarrow> ('s, 'e) req_owner \<Rightarrow> 's \<Rightarrow> 'io req_task \<Rightarrow> (('s \<Rightarrow> 's) \<times> req_in) list \<Rightarrow>
   ('s \<times> 'io req_task \<times> (req_call \<times> 'e list) list) res" where
  "req_run rd o1 s k [] = Inr (s, k, [])"
| "req_run rd o1 s k ((other, inp) # rest) =
     and_then (req_turn rd o1 (other s) k inp) (\<lambda>(s, k, tr).
     and_then (req_run rd o1 s k rest) (\<lambda>(s, k, tr2). Inr (s, k, tr @ tr2)))"

section \<open>The two owners\<close>

text \<open>\<^verbatim>\<open>tunnels/reqserv.rs\<close>: the slot of a tunnel of the manager.\<close>

definition client_request :: "(chan \<Rightarrow> bool) \<Rightarrow> tun_stub \<Rightarrow> (tun_mgr, effect) req_owner" where
  "client_request alive ts =
     \<lparr>qo_item = quota_item alive ts,
      qo_msg = (\<lambda>m message. on_request_msg alive message ts),
      qo_recv_finished = (\<lambda>m. on_request_recv_finished alive ts),
      qo_closed = (\<lambda>m. mgr_request_closed alive m ts),
      qo_breaks = True\<rparr>"

text \<open>\<^verbatim>\<open>xport/xreqserv.rs\<close>: the slot of the reverse tunnel. Its socket options must be set.\<close>

definition x_request :: "(chan \<Rightarrow> bool) \<Rightarrow> u16 \<Rightarrow> u16 \<Rightarrow> (xtunnel, x_effect) req_owner" where
  "x_request alive req_idx req_tag =
     \<lparr>qo_item = (\<lambda>w. Inr (w, [])),
      qo_msg = (\<lambda>x message. xt_on_request_msg alive x message req_idx req_tag),
      qo_recv_finished = (\<lambda>x. xt_on_request_recv_finished alive x req_idx req_tag),
      qo_closed = (\<lambda>x. xt_on_request_closed alive x req_idx req_tag),
      qo_breaks = False\<rparr>"

definition proxy_request_internal :: "bool \<Rightarrow> 'io \<Rightarrow> 'io req_task res" where
  "proxy_request_internal options_ok socket = (if options_ok then Inr (req_task_new socket) else Inl Panicked)"

section \<open>The life of a task\<close>

text \<open>Which calls belong to the sending half, and which to the reading half.\<close>

fun sends :: "req_call \<Rightarrow> bool" where
  "sends (QItem m) = True" | "sends QShutdownWrite = True" | "sends _ = False"

fun receives :: "req_call \<Rightarrow> bool" where
  "receives (QData m) = True" | "receives QFinished = True" | "receives _ = False"

text \<open>What one half calls while it goes from ended or not to ended or not: its end is the last, and once.\<close>

definition half_calls :: "('m \<Rightarrow> req_call) \<Rightarrow> req_call \<Rightarrow> bool \<Rightarrow> bool \<Rightarrow> req_call list \<Rightarrow> bool" where
  "half_calls f fin ended ended' cs \<longleftrightarrow>
     (if ended then ended' \<and> cs = [] else \<exists>xs. cs = map f xs @ (if ended' then [fin] else []))"

lemma half_append:
  assumes "half_calls f z b b1 cs" "half_calls f z b1 b2 ds"
  shows "half_calls f z b b2 (cs @ ds)"
proof (cases b1)
  case False
  then obtain xs ys where "\<not> b" "cs = map f xs" "ds = map f ys @ (if b2 then [z] else [])"
    using assms by (auto simp: half_calls_def split: if_splits)
  then show ?thesis by (auto simp: half_calls_def simp flip: map_append intro!: exI [of _ "xs @ ys"])
qed (use assms in \<open>auto simp: half_calls_def split: if_splits\<close>)

text \<open>The slot is released by the last call of all, when both halves have ended.\<close>

definition task_ended :: "'io req_task \<Rightarrow> bool" where
  "task_ended k \<longleftrightarrow> qt_send_ended k \<and> qt_recv_ended k"

definition task_calls :: "'io req_task \<Rightarrow> 'io req_task \<Rightarrow> req_call list \<Rightarrow> bool" where
  "task_calls k k' cs \<longleftrightarrow>
     half_calls QItem QShutdownWrite (qt_send_ended k) (qt_send_ended k') (filter sends cs) \<and>
     half_calls QData QFinished (qt_recv_ended k) (qt_recv_ended k') (filter receives cs) \<and>
     (if task_ended k' \<and> \<not> task_ended k then \<exists>ds. cs = ds @ [QClosed] \<and> QClosed \<notin> set ds else QClosed \<notin> set cs)"

lemma no_calls: "filter sends cs = [] \<Longrightarrow> filter receives cs = [] \<Longrightarrow> QClosed \<notin> set cs \<Longrightarrow> cs = []"
proof (cases cs)
  case (Cons c ds)
  then show "filter sends cs = [] \<Longrightarrow> filter receives cs = [] \<Longrightarrow> QClosed \<notin> set cs \<Longrightarrow> cs = []"
    by (cases c) auto
qed

lemma task_calls_append:
  assumes "task_calls k k1 cs" "task_calls k1 k2 ds"
  shows "task_calls k k2 (cs @ ds)"
proof -
  have s: "half_calls QItem QShutdownWrite (qt_send_ended k) (qt_send_ended k2) (filter sends (cs @ ds))"
    using assms half_append unfolding task_calls_def filter_append by blast
  have r: "half_calls QData QFinished (qt_recv_ended k) (qt_recv_ended k2) (filter receives (cs @ ds))"
    using assms half_append unfolding task_calls_def filter_append by blast
  have mono: "task_ended k \<Longrightarrow> task_ended k1" "task_ended k1 \<Longrightarrow> task_ended k2"
    using assms by (auto simp: task_calls_def half_calls_def task_ended_def)
  have "if task_ended k2 \<and> \<not> task_ended k then \<exists>es. cs @ ds = es @ [QClosed] \<and> QClosed \<notin> set es else QClosed \<notin> set (cs @ ds)"
  proof (cases "task_ended k1")
    case True
    then have "filter sends ds = []" "filter receives ds = []" "QClosed \<notin> set ds"
      using assms(2) by (simp_all add: task_calls_def half_calls_def task_ended_def)
    then have "ds = []" by (rule no_calls)
    then show ?thesis using True mono assms(1) by (simp add: task_calls_def)
  next
    case False
    then have no: "QClosed \<notin> set cs" "\<not> task_ended k" using assms(1) mono by (auto simp: task_calls_def)
    show ?thesis
    proof (cases "task_ended k2")
      case True
      then obtain es where "ds = es @ [QClosed]" "QClosed \<notin> set es" using assms(2) False by (auto simp: task_calls_def)
      then show ?thesis using True no by (auto intro!: exI [of _ "cs @ es"])
    qed (use assms(2) no in \<open>auto simp: task_calls_def\<close>)
  qed
  then show ?thesis using s r by (simp add: task_calls_def)
qed

lemma req_join_calls:
  assumes "req_join o1 s k = Inr (s', k', tr)"
  shows "k' = k \<and> map fst tr = (if qt_send_ended k \<and> qt_recv_ended k then [QClosed] else [])"
  using assms by (auto simp: req_join_def and_then_Inr_iff split: if_splits)

lemmas call_defs = task_calls_def half_calls_def task_ended_def

lemma req_send_end_calls:
  assumes "\<not> qt_send_ended k" "req_send_end o1 s k = Inr (s', k', tr)"
  shows "task_calls k k' (map fst tr) \<and> qt_framed k' = qt_framed k"
proof -
  obtain tr2 where j: "req_join o1 s (k\<lparr>qt_send_ended := True\<rparr>) = Inr (s', k', tr2)" "tr = (QShutdownWrite, []) # tr2"
    using assms(2) by (auto simp: req_send_end_def and_then_Inr_iff)
  then show ?thesis using assms(1) req_join_calls [OF j(1)] by (auto simp: call_defs)
qed

lemma req_recv_end_calls:
  assumes "\<not> qt_recv_ended k" "req_recv_end o1 s k = Inr (s', k', tr)"
  shows "task_calls k k' (map fst tr) \<and> qt_framed k' = qt_framed k"
proof -
  obtain tr2 eff where j: "req_join o1 s (k\<lparr>qt_recv_ended := True\<rparr>) = Inr (s', k', tr2)" "tr = (QFinished, eff) # tr2"
    using assms(2) by (auto simp: req_recv_end_def and_then_Inr_iff)
  then show ?thesis using assms(1) req_join_calls [OF j(1)] by (auto simp: call_defs)
qed

lemma task_calls_simps:
  "task_calls (k\<lparr>qt_framed := f\<rparr>) k' cs = task_calls k k' cs" "task_calls k (k'\<lparr>qt_framed := f\<rparr>) cs = task_calls k k' cs"
  "task_calls k k []" "\<not> qt_recv_ended k \<Longrightarrow> task_calls k k [QData m]"
  "\<not> qt_send_ended k \<Longrightarrow> task_calls k (k\<lparr>qt_write_out := w\<rparr>) [QItem x]"
  by (auto simp: call_defs intro: exI [of _ "[m]"] exI [of _ "[x]"])

lemma req_read_cases:
  assumes "req_read rd o1 s k = Inr (s', k', tr)"
  obtains (quiet) framed where "s' = s" "k' = k\<lparr>qt_framed := framed\<rparr>" "tr = []"
    | (ends) framed where "req_recv_end o1 s (k\<lparr>qt_framed := framed\<rparr>) = Inr (s', k', tr)"
    | (data) framed m eff where "s' = s" "k' = k\<lparr>qt_framed := framed\<rparr>" "tr = [(QData m, eff)]"
    | (last) framed m eff tr2 where "req_recv_end o1 s (k\<lparr>qt_framed := framed\<rparr>) = Inr (s', k', tr2)" "tr = (QData m, eff) # tr2"
proof -
  obtain framed r where p: "tf_poll_next rd (qt_framed k) = Inr (framed, r)"
    using assms by (auto simp: req_read_def and_then_Inr_iff)
  consider "r = Pending" | "r = Ready None" | e where "r = Ready (Some (Inl e))" | m where "r = Ready (Some (Inr m))"
    by (cases r) (metis option.exhaust sum.exhaust)+
  then show ?thesis
  proof cases
    case 4
    obtain eff ok where m: "qo_msg o1 s m = Inr (eff, ok)" using assms p 4 by (auto simp: Let_def req_read_def and_then_Inr_iff)
    show ?thesis
    proof (cases "\<not> ok \<and> qo_breaks o1")
      case True
      then show ?thesis using assms p 4 m by (auto simp: Let_def req_read_def and_then_Inr_iff intro: last)
    qed (use assms p 4 m data in \<open>auto simp: Let_def req_read_def\<close>)
  qed (use assms p quiet ends in \<open>auto simp: Let_def req_read_def split: if_splits\<close>)
qed

lemma req_read_calls:
  assumes "\<not> qt_recv_ended k" "req_read rd o1 s k = Inr (s', k', tr)"
  shows "task_calls k k' (map fst tr)"
  using assms(2)
proof (cases rule: req_read_cases)
  case (ends framed)
  then show ?thesis using req_recv_end_calls [OF _ ends] assms(1) by (simp add: task_calls_simps)
next
  case (last framed m eff tr2)
  have "task_calls k (k\<lparr>qt_framed := framed\<rparr>) [QData m]" using assms(1) by (simp add: task_calls_simps)
  then show ?thesis using task_calls_append req_recv_end_calls [OF _ last(1)] assms(1) last(2) by fastforce
qed (use assms(1) in \<open>auto simp: task_calls_simps\<close>)

lemma req_turn_calls:
  "req_turn rd o1 s k inp = Inr (s', k', tr) \<Longrightarrow> task_calls k k' (map fst tr)"
  by (cases inp) (auto simp: req_turn_def and_then_Inr_iff task_calls_simps req_read_calls split: if_splits
      dest: req_send_end_calls req_recv_end_calls)

lemma req_run_calls:
  "req_run rd o1 s k inps = Inr (s', k', tr) \<Longrightarrow> task_calls k k' (map fst tr)"
proof (induction inps arbitrary: s k tr)
  case (Cons i inps)
  obtain other inp where i: "i = (other, inp)" by fastforce
  obtain s1 k1 tr1 tr2 where "req_turn rd o1 (other s) k inp = Inr (s1, k1, tr1)"
    "req_run rd o1 s1 k1 inps = Inr (s', k', tr2)" "tr = tr1 @ tr2"
    using Cons.prems i by (auto simp: and_then_Inr_iff)
  then show ?case using task_calls_append [OF req_turn_calls Cons.IH] by simp
qed (simp add: task_calls_simps)

section \<open>Properties\<close>


definition client_stub :: tun_stub where
  "client_stub = \<lparr>ts_tunnel_tx = 1, ts_tun_idx = 0, ts_req_idx = 0, ts_req_tag = 1, ts_request_quota = 4\<rparr>"

text \<open>A client sends two bytes and closes; an item of the relay is on its way, and then its channel is dropped.\<close>

definition short_life :: "((tun_mgr \<Rightarrow> tun_mgr) \<times> req_in) list" where
  "short_life = [(id, RqRead), (id, RqItem (wmessage_new [5] 0)), (id, RqRead), (id, RqSendEnd)]"

lemma short_run:
  "\<exists>m k tr. req_run chunk_rd (client_request (\<lambda>_. True) client_stub) (tun_mgr_new 0 2 sample_cfg) (req_task_new [[8, 9]]) short_life
      = Inr (m, k, tr) \<and> qt_send_ended k \<and> qt_recv_ended k \<and> length (filter (\<lambda>(c, _). sends c \<and> c \<noteq> QShutdownWrite) tr) = 1"
  by (simp add: short_life_def req_turn_def req_read_def req_task_new_def tcp_framed_new_def tf_poll_next_def poll_read_buf_def
      chunk_rd_def tm_remaining_mut_def tmessage_new_def TMESSAGE_KEEP_def DEFAULT_CAP_def tm_advance_mut_def client_request_def
      on_request_msg_eq request_messages tx_send_def quota_item_def quota_report_threshold_def req_recv_end_def req_send_end_def
      req_join_def mgr_request_closed_def tun_mgr_new_def client_stub_def vec_get_def Let_def numeral_2_eq_2)


section \<open>The bytes of a client\<close>

text \<open>A poll of the socket's stream, between chunks.\<close>

lemma tf_poll_chunk:
  assumes src: "byte_source rd left" and st: "tf_reading st \<in> {None, Some tmessage_new}"
  obtains (waits) st' where "tf_poll_next rd st = Inr (st', Pending)" "tf_reading st' \<in> {None, Some tmessage_new}"
      "left (tf_io st') = left (tf_io st)"
    | (ended) st' where "tf_poll_next rd st = Inr (st', Ready None)" "tf_reading st' \<in> {None, Some tmessage_new}"
      "left (tf_io st) = []" "left (tf_io st') = []"
    | (chunk) st' m bs where "tf_poll_next rd st = Inr (st', Ready (Some (Inr m)))" "tf_reading st' \<in> {None, Some tmessage_new}"
      "left (tf_io st) = bs @ left (tf_io st')" "tm_buf m = replicate 7 0 @ bs" "length bs \<le> 8089"
proof -
  have room: "tm_remaining_mut tmessage_new = Inr 8089"
    by (simp add: tm_remaining_mut_def tmessage_new_def TMESSAGE_KEEP_def DEFAULT_CAP_def)
  have m: "(case tf_reading st of None \<Rightarrow> tmessage_new | Some m \<Rightarrow> m) = tmessage_new" using st by auto
  obtain io a where rd: "rd (tf_io st) 8089 = (io, a)" by fastforce
  note d = byte_sourceD [OF src rd]
  show ?thesis
  proof (cases a)
    case (Got bs)
    then have b: "left (tf_io st) = bs @ left io" "length bs \<le> 8089" "bs = [] \<longrightarrow> left (tf_io st) = []" using d(1) by auto
    show ?thesis
    proof (cases "bs = []")
      case True
      have "tm_advance_mut tmessage_new [] = tmessage_new" by (simp add: tm_advance_mut_def tmessage_new_def)
      then show ?thesis
        using rd Got room b True
        by (intro ended [of "st\<lparr>tf_io := io, tf_reading := Some tmessage_new, tf_has_finished := True\<rparr>"])
           (simp_all add: tf_poll_next_def poll_read_buf_def m Let_def)
    next
      case False
      then show ?thesis
        using rd Got room b
        by (intro chunk) (auto simp: tf_poll_next_def poll_read_buf_def m tm_advance_mut_def tmessage_new_def TMESSAGE_KEEP_def Let_def)
    qed
  next
    case ReadNotReady
    then show ?thesis using rd room d(2) by (intro waits [of "st\<lparr>tf_io := io, tf_reading := Some tmessage_new\<rparr>"]) (simp_all add: tf_poll_next_def poll_read_buf_def m Let_def)
  qed (use d in auto)
qed

definition heard_from :: "(req_call \<times> 'e list) list \<Rightarrow> 'e list list" where
  "heard_from tr = map snd (filter (receives \<circ> fst) tr)"

definition carries ::
  "(bytes \<Rightarrow> 'e) \<Rightarrow> 'e \<Rightarrow> ('io \<Rightarrow> bytes) \<Rightarrow> 'io req_task \<Rightarrow> bool \<Rightarrow> 'io req_task \<Rightarrow> (req_call \<times> 'e list) list \<Rightarrow> bool" where
  "carries data finished left k trip k' tr \<longleftrightarrow>
     (if qt_recv_ended k then heard_from tr = [] \<and> qt_recv_ended k' \<and> qt_framed k' = qt_framed k
      else tf_reading (qt_framed k') \<in> {None, Some tmessage_new} \<and>
        (qt_recv_ended k' \<and> \<not> trip \<longrightarrow> left (tf_io (qt_framed k')) = []) \<and>
        (\<exists>ps. heard_from tr = map (\<lambda>p. [data p]) ps @ (if qt_recv_ended k' then [[finished]] else []) \<and>
           concat ps @ left (tf_io (qt_framed k')) = left (tf_io (qt_framed k)) \<and> (\<forall>p \<in> set ps. length p \<le> 8089)))"

lemma carries_append:
  assumes "carries data finished left k trip k1 tr" "carries data finished left k1 trip2 k2 tr2"
  shows "carries data finished left k (trip \<or> trip2) k2 (tr @ tr2)"
proof -
  have h: "heard_from (tr @ tr2) = heard_from tr @ heard_from tr2" by (simp add: heard_from_def)
  show ?thesis
  proof (cases "qt_recv_ended k1")
    case True
    then show ?thesis using assms by (auto simp: carries_def h split: if_splits)
  next
    case False
    then have k: "\<not> qt_recv_ended k" using assms(1) by (auto simp: carries_def)
    obtain ps where ps: "heard_from tr = map (\<lambda>p. [data p]) ps"
      "concat ps @ left (tf_io (qt_framed k1)) = left (tf_io (qt_framed k))" "\<forall>p \<in> set ps. length p \<le> 8089"
      using assms(1) False k by (auto simp: carries_def)
    obtain ps2 where ps2: "heard_from tr2 = map (\<lambda>p. [data p]) ps2 @ (if qt_recv_ended k2 then [[finished]] else [])"
      "concat ps2 @ left (tf_io (qt_framed k2)) = left (tf_io (qt_framed k1))" "\<forall>p \<in> set ps2. length p \<le> 8089"
      "tf_reading (qt_framed k2) \<in> {None, Some tmessage_new}" "qt_recv_ended k2 \<and> \<not> trip2 \<longrightarrow> left (tf_io (qt_framed k2)) = []"
      using assms(2) False by (auto simp: carries_def)
    have "\<exists>ps. heard_from (tr @ tr2) = map (\<lambda>p. [data p]) ps @ (if qt_recv_ended k2 then [[finished]] else []) \<and>
      concat ps @ left (tf_io (qt_framed k2)) = left (tf_io (qt_framed k)) \<and> (\<forall>p \<in> set ps. length p \<le> 8089)"
      using ps ps2(1-3) h by (intro exI [of _ "ps @ ps2"]) auto
    then show ?thesis using k ps2(4,5) by (simp add: carries_def)
  qed
qed

lemma slot_data_frame: "length p \<le> 8089 \<Longrightarrow> frame (tun_msg ReqData (req_body idx tag p))"
  by (intro tun_msg_frame) simp

text \<open>
  What a task relies on of its owner: while the slot is \<open>usable\<close>, which only others can change, each chunk
  and the end of them become one message on the tunnel.
\<close>

locale stream_carrier =
  fixes o1 :: "('s, 'e) req_owner"
    and usable :: "'s \<Rightarrow> bool"
    and data :: "bytes \<Rightarrow> 'e"
    and finished :: 'e
  assumes msg: "usable s \<Longrightarrow> tm_buf m = replicate 7 0 @ bs \<Longrightarrow> qo_msg o1 s m = Inr ([data bs], True)"
    and recv_finished: "usable s \<Longrightarrow> qo_recv_finished o1 s = Inr [finished]"
begin

lemma recv_end:
  assumes "usable s" "req_recv_end o1 s k = Inr (s', k', tr)"
  shows "heard_from tr = [[finished]] \<and> qt_recv_ended k' \<and> qt_framed k' = qt_framed k"
  using assms recv_finished by (auto simp: req_recv_end_def req_join_def and_then_Inr_iff heard_from_def split: if_splits)

lemma turn_carries:
  assumes src: "byte_source rd left"
    and st: "qt_recv_ended k \<or> tf_reading (qt_framed k) \<in> {None, Some tmessage_new} \<and> usable s"
    and turn: "req_turn rd o1 s k inp = Inr (s', k', tr)"
  shows "carries data finished left k (inp = RqTripped) k' tr \<and> (qt_recv_ended k' \<or> usable s')"
proof (cases inp)
  case (RqItem m)
  then show ?thesis using turn st
    by (auto simp: req_turn_def and_then_Inr_iff carries_def heard_from_def split: if_splits)
next
  case RqSendEnd
  then show ?thesis using turn st
    by (auto simp: req_turn_def req_send_end_def req_join_def and_then_Inr_iff carries_def heard_from_def split: if_splits)
next
  case RqTripped
  then show ?thesis using turn st recv_end [of s k s' k' tr]
    by (cases "qt_recv_ended k") (auto simp: req_turn_def carries_def heard_from_def intro!: exI [of _ "[]"])
next
  case RqRead
  show ?thesis
  proof (cases "qt_recv_ended k")
    case False
    then have r: "req_read rd o1 s k = Inr (s', k', tr)" "tf_reading (qt_framed k) \<in> {None, Some tmessage_new}" "usable s"
      using turn st RqRead by (auto simp: req_turn_def)
    show ?thesis
    proof (cases rule: tf_poll_chunk [OF src r(2)])
      case (1 st')
      then show ?thesis using r False by (auto simp: req_read_def carries_def heard_from_def intro!: exI [of _ "[]"])
    next
      case (2 st')
      then have "req_recv_end o1 s (k\<lparr>qt_framed := st'\<rparr>) = Inr (s', k', tr)"
        using r by (simp add: req_read_def)
      from recv_end [OF r(3) this] show ?thesis using 2 False by (auto simp: carries_def intro!: exI [of _ "[]"])
    next
      case (3 st' m bs)
      then have "tr = [(QData m, [data bs])]" "k' = k\<lparr>qt_framed := st'\<rparr>" "s' = s"
        using r msg [OF r(3) 3(4)] by (auto simp: req_read_def Let_def)
      then show ?thesis using 3 False r(3) by (auto simp: carries_def heard_from_def intro!: exI [of _ "[bs]"])
    qed
  qed (use turn RqRead in \<open>auto simp: req_turn_def carries_def heard_from_def\<close>)
qed

lemma run_carries:
  assumes "byte_source rd left"
  shows "qt_recv_ended k \<or> tf_reading (qt_framed k) \<in> {None, Some tmessage_new} \<and> usable s \<Longrightarrow>
    \<forall>(other, inp) \<in> set inps. \<forall>s. usable s \<longrightarrow> usable (other s) \<Longrightarrow>
    req_run rd o1 s k inps = Inr (s', k', tr) \<Longrightarrow>
    carries data finished left k (RqTripped \<in> snd ` set inps) k' tr"
proof (induction inps arbitrary: s k tr)
  case Nil
  then show ?case by (auto simp: carries_def heard_from_def intro!: exI [of _ "[]"])
next
  case (Cons i inps)
  obtain other inp where i: "i = (other, inp)" by fastforce
  obtain s1 k1 tr1 tr2 where t: "req_turn rd o1 (other s) k inp = Inr (s1, k1, tr1)"
    "req_run rd o1 s1 k1 inps = Inr (s', k', tr2)" "tr = tr1 @ tr2"
    using Cons.prems(3) i by (auto simp: and_then_Inr_iff)
  have "qt_recv_ended k \<or> tf_reading (qt_framed k) \<in> {None, Some tmessage_new} \<and> usable (other s)"
    using Cons.prems(1,2) i by auto
  from turn_carries [OF assms this t(1)]
  have c: "carries data finished left k (inp = RqTripped) k1 tr1" and u: "qt_recv_ended k1 \<or> usable s1" by auto
  then have "qt_recv_ended k1 \<or> tf_reading (qt_framed k1) \<in> {None, Some tmessage_new} \<and> usable s1"
    by (auto simp: carries_def split: if_splits)
  from carries_append [OF c Cons.IH [OF this _ t(2)]] Cons.prems(2) show ?case using i t(3) by (simp add: eq_commute)
qed

theorem stream_carried:
  assumes "byte_source rd left" "usable s" "\<forall>(other, inp) \<in> set inps. \<forall>s. usable s \<longrightarrow> usable (other s)"
    "req_run rd o1 s (req_task_new io) inps = Inr (s', k, tr)"
  shows "\<exists>ps. map snd (filter (receives \<circ> fst) tr) = map (\<lambda>p. [data p]) ps @ (if qt_recv_ended k then [[finished]] else []) \<and>
    concat ps @ left (tf_io (qt_framed k)) = left io \<and>
    (\<forall>p \<in> set ps. \<forall>idx tag. frame (tun_msg ReqData (req_body idx tag p))) \<and>
    (qt_recv_ended k \<and> RqTripped \<notin> snd ` set inps \<longrightarrow> concat ps = left io)"
proof -
  have "carries data finished left (req_task_new io) (RqTripped \<in> snd ` set inps) k tr"
    by (rule run_carries [OF assms(1) _ assms(3,4)]) (simp add: req_task_new_def tcp_framed_new_def assms(2))
  then obtain ps where "heard_from tr = map (\<lambda>p. [data p]) ps @ (if qt_recv_ended k then [[finished]] else [])"
    "concat ps @ left (tf_io (qt_framed k)) = left io" "\<forall>p \<in> set ps. length p \<le> 8089"
    "qt_recv_ended k \<and> RqTripped \<notin> snd ` set inps \<longrightarrow> left (tf_io (qt_framed k)) = []"
    by (auto simp: carries_def req_task_new_def tcp_framed_new_def)
  then show ?thesis using slot_data_frame unfolding heard_from_def by (intro exI [of _ ps]) auto
qed

end

text \<open>The message of a command for a slot, on its tunnel's channel.\<close>

definition slot_msg :: "chan \<Rightarrow> u16 \<Rightarrow> u16 \<Rightarrow> cmd \<Rightarrow> bytes \<Rightarrow> effect" where
  "slot_msg tx idx tag c p = Sent tx (wmessage_new (tun_msg c (req_body idx tag p)) 0)"

interpretation client: stream_carrier "client_request alive ts" "\<lambda>_. alive (ts_tunnel_tx ts)"
  "slot_msg (ts_tunnel_tx ts) (ts_req_idx ts) (ts_req_tag ts) ReqData"
  "slot_msg (ts_tunnel_tx ts) (ts_req_idx ts) (ts_req_tag ts) ReqClientFinished []" for alive ts
  by unfold_locales (simp_all add: client_request_def on_request_msg_eq request_messages tx_send_def slot_msg_def)

definition x_usable :: "(chan \<Rightarrow> bool) \<Rightarrow> chan \<Rightarrow> u16 \<Rightarrow> u16 \<Rightarrow> xtunnel \<Rightarrow> bool" where
  "x_usable alive tx idx tag x \<longleftrightarrow> check_req_valid x idx tag \<and> xt_tun_tx x = Some tx \<and> alive tx"

lemma data_message:
  assumes "tm_buf m = replicate 7 0 @ bs"
  shows "and_then (put_at 0 (le16 (word_of_nat (length (tm_buf m)))) (tm_buf m)) (\<lambda>vec.
      and_then (put_at 2 [cmd_code ReqData] vec) (\<lambda>vec.
      and_then (theader_write_to (theader_new idx tag) 3 vec) f)) = f (tun_msg ReqData (req_body idx tag bs))"
  using assms
  by (simp add: put_at_def theader_write_to_def theader_new_def tun_msg_def req_body_def le16_def add.commute)

lemma x_messages:
  assumes "x_usable alive tx idx tag x"
  shows "tm_buf m = replicate 7 0 @ bs \<Longrightarrow> xt_on_request_msg alive x m idx tag = Inr ([Eff (slot_msg tx idx tag ReqData bs)], True)"
    "xt_on_request_recv_finished alive x idx tag = Inr [Eff (slot_msg tx idx tag ReqServerFinished [])]"
proof -
  have u: "check_req_valid x idx tag" "xt_tun_tx x = Some tx" "alive tx" using assms by (simp_all add: x_usable_def)
  show "xt_on_request_recv_finished alive x idx tag = Inr [Eff (slot_msg tx idx tag ReqServerFinished [])]"
    unfolding xt_on_request_recv_finished_def Let_def server_messages using u by (simp add: tx_send_def slot_msg_def)
  assume m: "tm_buf m = replicate 7 0 @ bs"
  show "xt_on_request_msg alive x m idx tag = Inr ([Eff (slot_msg tx idx tag ReqData bs)], True)"
    unfolding xt_on_request_msg_def Let_def data_message [OF m] using u by (simp add: tx_send_def slot_msg_def)
qed

interpretation xr: stream_carrier "x_request alive idx tag" "x_usable alive tx idx tag"
  "\<lambda>p. Eff (slot_msg tx idx tag ReqData p)" "Eff (slot_msg tx idx tag ReqServerFinished [])" for alive tx idx tag
  by unfold_locales (simp_all add: x_request_def x_messages)



text \<open>
  C27: What the relay hears of a connection it asked for, as long as its slot and the reverse tunnel stay: the
  bytes of the local service, in order and framed, and then their end.
\<close>

theorem service_bytes_carried:
  assumes "byte_source rd left" "x_usable alive tx idx tag x"
    "\<forall>(other, inp) \<in> set inps. \<forall>x. x_usable alive tx idx tag x \<longrightarrow> x_usable alive tx idx tag (other x)"
    "req_run rd (x_request alive idx tag) x (req_task_new io) inps = Inr (x', k, tr)"
  shows "\<exists>ps. map snd (filter (receives \<circ> fst) tr) =
      map (\<lambda>p. [Eff (slot_msg tx idx tag ReqData p)]) ps
      @ (if qt_recv_ended k then [[Eff (slot_msg tx idx tag ReqServerFinished [])]] else []) \<and>
    concat ps @ left (tf_io (qt_framed k)) = left io \<and>
    (\<forall>p \<in> set ps. frame (tun_msg ReqData (req_body idx tag p))) \<and>
    (qt_recv_ended k \<and> RqTripped \<notin> snd ` set inps \<longrightarrow> concat ps = left io)"
  using xr.stream_carried [where alive = alive and idx = idx and tag = tag, OF assms] by blast

lemma service_run:
  "\<exists>x k tr. req_run chunk_rd (x_request (\<lambda>_. True) 0 9) one_request (req_task_new [[8], [9]])
      [(id, RqRead), (id, RqRead), (id, RqSendEnd), (id, RqRead)] = Inr (x, k, tr) \<and> qt_recv_ended k"
proof -
  have u: "x_usable (\<lambda>_. True) 4 0 9 one_request" by (simp add: one_request_def x_usable_def check_req_valid_def xtunnel_new_def)
  note m = x_messages [OF u]
  obtain x eff where c: "xt_on_request_closed (\<lambda>_. True) one_request 0 9 = Inr (x, eff)"
    using closed_valid [of one_request 0 9 4 "\<lambda>_. True"] u by (simp add: x_usable_def)
  show ?thesis
    by (simp add: req_turn_def req_read_def req_task_new_def tcp_framed_new_def tf_poll_next_def poll_read_buf_def
      chunk_rd_def tm_remaining_mut_def tmessage_new_def TMESSAGE_KEEP_def DEFAULT_CAP_def tm_advance_mut_def x_request_def
      m c req_recv_end_def req_send_end_def req_join_def Let_def)
qed

lemma service_bytes_carried_witness:
  "\<exists>x k tr ps. req_run chunk_rd (x_request (\<lambda>_. True) 0 9) one_request (req_task_new [[8], [9]])
      [(id, RqRead), (id, RqRead), (id, RqSendEnd), (id, RqRead)] = Inr (x, k, tr) \<and>
    map snd (filter (receives \<circ> fst) tr) =
      map (\<lambda>p. [Eff (slot_msg 4 0 9 ReqData p)]) ps @ [[Eff (slot_msg 4 0 9 ReqServerFinished [])]] \<and> concat ps = [8, 9]"
proof -
  let ?inps = "[(id, RqRead), (id, RqRead), (id, RqSendEnd), (id, RqRead)] :: ((xtunnel \<Rightarrow> xtunnel) \<times> req_in) list"
  obtain x k tr where r: "req_run chunk_rd (x_request (\<lambda>_. True) 0 9) one_request (req_task_new [[8], [9]]) ?inps = Inr (x, k, tr)"
    "qt_recv_ended k" using service_run by blast
  have u: "x_usable (\<lambda>_. True) 4 0 9 one_request" by (simp add: one_request_def x_usable_def check_req_valid_def xtunnel_new_def)
  have "\<forall>(other, inp) \<in> set ?inps. \<forall>x. x_usable (\<lambda>_. True) 4 0 9 x \<longrightarrow> x_usable (\<lambda>_. True) 4 0 9 (other x)" by simp
  from service_bytes_carried [OF chunk_source u this r(1)] show ?thesis using r by fastforce
qed

section \<open>The quota of a client\<close>

definition told :: "(req_call \<times> 'e list) list \<Rightarrow> 'e list" where
  "told tr = concat (map snd (filter (sends \<circ> fst) tr))"

definition items :: "(req_call \<times> 'e list) list \<Rightarrow> nat" where
  "items tr = length (filter (\<lambda>(c, _). sends c \<and> c \<noteq> QShutdownWrite) tr)"

lemma told_items_simps:
  "told [] = []" "told (tr @ tr2) = told tr @ told tr2" "told ((QItem m, eff) # tr) = eff @ told tr"
  "told ((QShutdownWrite, eff) # tr) = eff @ told tr" "told ((QData d, eff) # tr) = told tr"
  "told ((QFinished, eff) # tr) = told tr" "told ((QClosed, eff) # tr) = told tr"
  "items [] = 0" "items (tr @ tr2) = items tr + items tr2" "items ((QItem m, eff) # tr) = Suc (items tr)"
  "items ((QShutdownWrite, eff) # tr) = items tr" "items ((QData d, eff) # tr) = items tr"
  "items ((QFinished, eff) # tr) = items tr" "items ((QClosed, eff) # tr) = items tr"
  by (simp_all add: told_def items_def)

lemma recv_end_quiet:
  "req_recv_end o1 s k = Inr (s', k', tr) \<Longrightarrow> told tr = [] \<and> items tr = 0 \<and> qt_write_out k' = qt_write_out k"
  by (auto simp: req_recv_end_def req_join_def and_then_Inr_iff told_items_simps split: if_splits)

lemma read_quiet:
  assumes "req_read rd o1 s k = Inr (s', k', tr)"
  shows "told tr = [] \<and> items tr = 0 \<and> qt_write_out k' = qt_write_out k"
  using assms by (cases rule: req_read_cases) (auto simp: told_items_simps dest!: recv_end_quiet)

lemma quota_turn:
  assumes "alive (ts_tunnel_tx ts)" "0 < quota_report_threshold (ts_request_quota ts)"
    "qt_write_out k < quota_report_threshold (ts_request_quota ts)"
    "req_turn rd (client_request alive ts) s k inp = Inr (s', k', tr)"
  shows "\<exists>j. told tr = replicate j (Sent (ts_tunnel_tx ts) (wmessage_new (tun_msg ReqClientQuota
        (req_body (ts_req_idx ts) (ts_req_tag ts) (le16 (quota_report_threshold (ts_request_quota ts))))) 0)) \<and>
    qt_write_out k' < quota_report_threshold (ts_request_quota ts) \<and>
    unat (qt_write_out k) + items tr = j * unat (quota_report_threshold (ts_request_quota ts)) + unat (qt_write_out k')"
proof (cases inp)
  case (RqItem m)
  show ?thesis
  proof (cases "qt_send_ended k")
    case False
    obtain w eff where q: "quota_item alive ts (qt_write_out k) = Inr (w, eff)" "tr = [(QItem m, eff)]" "k' = k\<lparr>qt_write_out := w\<rparr>"
      using assms(4) RqItem False by (auto simp: req_turn_def client_request_def and_then_Inr_iff)
    then have "quota_items alive ts 1 (qt_write_out k) = Inr (w, eff)" by simp
    then show ?thesis using quota_items_count [of alive ts, OF assms(1-3), of 1] q by (auto simp: told_items_simps)
  qed (use assms RqItem in \<open>auto simp: req_turn_def told_items_simps intro!: exI [of _ 0]\<close>)
qed (use assms in \<open>auto simp: req_turn_def req_send_end_def req_join_def and_then_Inr_iff told_items_simps intro!: exI [of _ 0]
    split: if_splits dest!: recv_end_quiet read_quiet\<close>)

lemma quota_run:
  assumes "alive (ts_tunnel_tx ts)" "0 < quota_report_threshold (ts_request_quota ts)"
  shows "qt_write_out k < quota_report_threshold (ts_request_quota ts) \<Longrightarrow>
    req_run rd (client_request alive ts) s k inps = Inr (s', k', tr) \<Longrightarrow>
    \<exists>j. told tr = replicate j (Sent (ts_tunnel_tx ts) (wmessage_new (tun_msg ReqClientQuota
        (req_body (ts_req_idx ts) (ts_req_tag ts) (le16 (quota_report_threshold (ts_request_quota ts))))) 0)) \<and>
    qt_write_out k' < quota_report_threshold (ts_request_quota ts) \<and>
    unat (qt_write_out k) + items tr = j * unat (quota_report_threshold (ts_request_quota ts)) + unat (qt_write_out k')"
proof (induction inps arbitrary: s k tr)
  case Nil
  then show ?case by (auto simp: told_items_simps intro!: exI [of _ 0])
next
  case (Cons i inps)
  obtain other inp where i: "i = (other, inp)" by fastforce
  obtain s1 k1 tr1 tr2 where t: "req_turn rd (client_request alive ts) (other s) k inp = Inr (s1, k1, tr1)"
    "req_run rd (client_request alive ts) s1 k1 inps = Inr (s', k', tr2)" "tr = tr1 @ tr2"
    using Cons.prems(2) i by (auto simp: and_then_Inr_iff)
  note a = quota_turn [OF assms Cons.prems(1) t(1)]
  then obtain j where j: "told tr1 = replicate j (Sent (ts_tunnel_tx ts) (wmessage_new (tun_msg ReqClientQuota
        (req_body (ts_req_idx ts) (ts_req_tag ts) (le16 (quota_report_threshold (ts_request_quota ts))))) 0))"
    "qt_write_out k1 < quota_report_threshold (ts_request_quota ts)"
    "unat (qt_write_out k) + items tr1 = j * unat (quota_report_threshold (ts_request_quota ts)) + unat (qt_write_out k1)" by blast
  from Cons.IH [OF j(2) t(2)] obtain j2 where j2: "told tr2 = replicate j2 (Sent (ts_tunnel_tx ts) (wmessage_new (tun_msg ReqClientQuota
        (req_body (ts_req_idx ts) (ts_req_tag ts) (le16 (quota_report_threshold (ts_request_quota ts))))) 0))"
    "qt_write_out k' < quota_report_threshold (ts_request_quota ts)"
    "unat (qt_write_out k1) + items tr2 = j2 * unat (quota_report_threshold (ts_request_quota ts)) + unat (qt_write_out k')" by blast
  then show ?case using j t(3)
    by (intro exI [of _ "j + j2"]) (simp add: told_items_simps replicate_add distrib_right)
qed

text \<open>
  What the relay is told of the items that have gone out to the client, over the whole life of the
  connection: reports of exactly half the quota, and together with what is still counted they add up to
  the items taken from the channel, so that the relay is never behind by half of the quota.
\<close>

theorem client_quota_accounted:
  assumes "alive (ts_tunnel_tx ts)" "2 \<le> ts_request_quota ts"
    "req_run rd (client_request alive ts) m (req_task_new io) inps = Inr (m', k, tr)"
  shows "\<exists>j. concat (map snd (filter (sends \<circ> fst) tr)) = replicate j (Sent (ts_tunnel_tx ts) (wmessage_new
        (tun_msg ReqClientQuota (req_body (ts_req_idx ts) (ts_req_tag ts) (le16 (ts_request_quota ts div 2)))) 0)) \<and>
    unat (qt_write_out k) < unat (ts_request_quota ts) div 2 \<and>
    length (filter (\<lambda>(c, _). sends c \<and> c \<noteq> QShutdownWrite) tr) = j * (unat (ts_request_quota ts) div 2) + unat (qt_write_out k)"
proof -
  have thr: "unat (quota_report_threshold (ts_request_quota ts)) = unat (ts_request_quota ts) div 2"
    by (simp add: quota_report_threshold_def unat_div)
  have "2 \<le> unat (ts_request_quota ts)" using assms(2) by (simp add: word_le_nat_alt)
  then have pos: "0 < quota_report_threshold (ts_request_quota ts)" by (simp add: word_less_nat_alt thr)
  show ?thesis
    using quota_run [OF assms(1) pos _ assms(3)] pos thr
    by (auto simp: req_task_new_def told_def items_def word_less_nat_alt quota_report_threshold_def)
qed

lemma client_quota_accounted_witness:
  "\<exists>m k tr j. req_run chunk_rd (client_request (\<lambda>_. True) client_stub) (tun_mgr_new 0 2 sample_cfg) (req_task_new [[8, 9]]) short_life
      = Inr (m, k, tr) \<and> 1 = j * 2 + unat (qt_write_out k)"
proof -
  obtain m k tr where r: "req_run chunk_rd (client_request (\<lambda>_. True) client_stub) (tun_mgr_new 0 2 sample_cfg)
      (req_task_new [[8, 9]]) short_life = Inr (m, k, tr)" "items tr = 1"
    using short_run unfolding items_def by blast
  have "2 \<le> ts_request_quota client_stub" by (simp add: client_stub_def)
  from client_quota_accounted [OF _ this r(1)] show ?thesis using r by (auto simp: client_stub_def items_def)
qed
end
