(* ===== verification/Wire_Type.thy ===== *)
theory Wire_Type
  imports Req_Life
begin

text \<open>
  Message types of the tunnel protocol. The messages of src/src/tunnels/tunnel.rs, src/src/tunnels/reqserv.rs and
  src/src/xport/xtunnel.rs are built with hand-written offsets and taken apart by position; this theory says which
  messages each end of a tunnel may send, and proves that the code sends no others and takes all of them.
\<close>

section \<open>Types\<close>

text \<open>The end that opens requests, and the end that serves them.\<close>

datatype side = Client | Server

definition enc_ip :: "ip_addr \<Rightarrow> bytes" where
  "enc_ip ip = (case ip of V4 v4 \<Rightarrow> 0 # octets4 v4 | V6 v6 \<Rightarrow> 2 # concat (map le16 (segments v6)))"

inductive says :: "side \<Rightarrow> bytes \<Rightarrow> bool" where
  data: "length p \<le> 8089 \<Longrightarrow> says s (tun_msg ReqData (req_body i t p))"
| ping: "says s (tun_msg Ping (le64 ts))"
| pong: "says s (tun_msg Pong (le64 ts))"
| datagram: "length d \<le> 8055 \<Longrightarrow> says s (tun_msg UdpX (enc_socketaddr a @ enc_socketaddr b @ d))"
| open_addr: "says Client (tun_msg ReqCreated (req_body i t (enc_ip ip @ le16 port)))"
| open_port: "says Client (tun_msg ReqCreated (req_body i t (le16 port)))"
| client_closed: "says Client (tun_msg ReqClientClosed (req_body i t []))"
| client_finished: "says Client (tun_msg ReqClientFinished (req_body i t []))"
| quota: "says Client (tun_msg ReqClientQuota (req_body i t (le16 q)))"
| server_closed: "says Server (tun_msg ReqServerClosed (req_body i t []))"
| server_finished: "says Server (tun_msg ReqServerFinished (req_body i t []))"

lemma length_enc_ip: "length (enc_ip ip) \<le> 17"
  by (simp add: enc_ip_def split: ip_addr.splits)

lemma length_enc_addr: "length (enc_socketaddr a) \<le> 19"
  by (simp add: length_enc_socketaddr)

text \<open>A typed message is a frame: its receiver's transport delivers it whole.\<close>

lemma says_frame: "says s bs \<Longrightarrow> frame bs"
proof (induction rule: says.induct)
  case (datagram d s a b)
  show ?case using datagram length_enc_addr [of a] length_enc_addr [of b] by (intro tun_msg_frame) simp
next
  case (open_addr i t ip port)
  show ?case using length_enc_ip [of ip] by (intro tun_msg_frame) simp
qed (rule tun_msg_frame; simp)+

text \<open>What is handed to a request is a data message without its first seven bytes.\<close>

fun typed_effect :: "side \<Rightarrow> effect \<Rightarrow> bool" where
  "typed_effect s (Sent c m) \<longleftrightarrow> wm_cursor m = 0 \<and> says s (wm_buf m)
     \<or> wm_cursor m = 7 \<and> (\<exists>i t p. length p \<le> 8089 \<and> wm_buf m = tun_msg ReqData (req_body i t p))"
| "typed_effect s (SentUdp c d a b) \<longleftrightarrow> length d \<le> 8055"
| "typed_effect s (ShutdownFd fd) \<longleftrightarrow> True"

lemma wmessage_new_sel [simp]: "wm_buf (wmessage_new v c) = v" "wm_cursor (wmessage_new v c) = c"
  by (simp_all add: wmessage_new_def)

lemma typed_send: "says s bs \<Longrightarrow> \<forall>e \<in> set (fst (tx_send alive tx (wmessage_new bs 0))). typed_effect s e"
  by (simp add: tx_send_def wmessage_new_def)

lemma typed_hand: "length p \<le> 8089 \<Longrightarrow>
  \<forall>e \<in> set (fst (tx_send alive tx (wmessage_new (tun_msg ReqData (req_body i t p)) 7))). typed_effect s e"
  by (auto simp: tx_send_def wmessage_new_def)

lemma ping_reply: "put_at 2 [cmd_code Pong] (tun_msg Ping body) = Inr (tun_msg Pong body)"
  by (simp add: tun_msg_def put_at_def le16_def)

lemma header_read: "theader_read_from (req_body i tag p) = Inr (theader_new i tag)"
  by (simp add: req_body_def)

lemma tun_msg_parts:
  obtains a b where "tun_msg c body = a # b # cmd_code c # body"
  using tun_msg_take by blast

section \<open>The tunnel's client end\<close>

text \<open>Everything that happens to a tunnel, its requests' messages included.\<close>

datatype end_input =
    Input tun_input
  | Datagram bytes socket_addr socket_addr
  | RequestRead tun_stub bytes
  | RequestFinished tun_stub
  | RequestQuota tun_stub u16

fun end_step :: "(chan \<Rightarrow> bool) \<Rightarrow> tunnel \<Rightarrow> end_input \<Rightarrow> (tunnel \<times> effect list) res" where
  "end_step alive t (Input i) = tun_step alive t i"
| "end_step alive t (Datagram d a b) = and_then (udp_proxy_north alive t d a b) (\<lambda>eff. Inr (t, eff))"
| "end_step alive t (RequestRead ts bs) =
     and_then (on_request_msg alive \<lparr>tm_buf = replicate 7 0 @ bs, tm_capacity = DEFAULT_CAP\<rparr> ts) (\<lambda>(eff, _). Inr (t, eff))"
| "end_step alive t (RequestFinished ts) = and_then (on_request_recv_finished alive ts) (\<lambda>eff. Inr (t, eff))"
| "end_step alive t (RequestQuota ts q) = and_then (send_request_quota alive ts q) (\<lambda>eff. Inr (t, eff))"

fun end_run :: "(chan \<Rightarrow> bool) \<Rightarrow> tunnel \<Rightarrow> end_input list \<Rightarrow> (tunnel \<times> effect list) res" where
  "end_run alive t [] = Inr (t, [])"
| "end_run alive t (i # is) =
     and_then (end_step alive t i) (\<lambda>(t, eff). and_then (end_run alive t is) (\<lambda>(t, effs). Inr (t, eff @ effs)))"

text \<open>
  The inputs the two neighbours may give: the relay speaks as a server, answers pings with times that
  have passed and closes requests under tags it was given; the UDP proxy and the reader keep to the
  sizes of their buffers.
\<close>

definition past_pong :: "u64 \<Rightarrow> bytes \<Rightarrow> bool" where
  "past_pong elapsed bs \<longleftrightarrow> (\<forall>ts. bs = tun_msg Pong (le64 ts) \<longrightarrow> ts \<le> elapsed)"

fun typed_input :: "nat \<Rightarrow> end_input \<Rightarrow> bool" where
  "typed_input t0 (Input (FromServer now msg)) \<longleftrightarrow>
     says Server (rm_buf msg) \<and> past_pong (word_of_nat (now - t0)) (rm_buf msg) \<and> closes_honestly msg"
| "typed_input t0 (Input i) \<longleftrightarrow> honest_input i"
| "typed_input t0 (Datagram d a b) \<longleftrightarrow> length d \<le> 8055"
| "typed_input t0 (RequestRead ts bs) \<longleftrightarrow> length bs \<le> 8089"
| "typed_input t0 (RequestFinished ts) \<longleftrightarrow> True"
| "typed_input t0 (RequestQuota ts q) \<longleftrightarrow> True"

lemma on_udpx_none:
  assumes "rm_buf msg = tun_msg UdpX body" "tn_udpx_tx t = None"
  shows "on_tunnel_msg alive now t msg = Inr (t\<lparr>tn_busy := tn_busy t + length body + 1\<rparr>, [])"
proof -
  obtain a b where buf: "rm_buf msg = a # b # cmd_code UdpX # body" unfolding assms using tun_msg_parts by metis
  show ?thesis unfolding on_tunnel_msg_dispatch [OF buf] dispatch_def cmd.case using assms(2) by (simp add: on_udpx_south_def)
qed

lemma from_server_typed:
  assumes ok: "tunnel_ok t" and msg: "says Server (rm_buf msg)" and past: "past_pong (get_elapsed_milliseconds now t) (rm_buf msg)"
  shows "\<exists>t' eff. on_tunnel_msg alive now t msg = Inr (t', eff) \<and> tn_time t' = tn_time t \<and> (\<forall>e \<in> set eff. typed_effect Client e)"
  using msg
proof cases
  case (data p i tag)
  obtain a b where buf: "rm_buf msg = a # b # cmd_code ReqData # req_body i tag p"
    unfolding data using tun_msg_parts by metis
  show ?thesis
    unfolding on_tunnel_msg_dispatch [OF buf] dispatch_def cmd.case header_read and_then_simps
    using typed_hand [OF data(2), of alive _ i tag Client] unfolding data(1) by (auto split: option.splits)
next
  case (ping ts)
  obtain a b where buf: "rm_buf msg = a # b # cmd_code Ping # le64 ts"
    unfolding ping using tun_msg_parts by metis
  show ?thesis
    unfolding on_tunnel_msg_dispatch [OF buf] dispatch_def cmd.case reply_ping_def
    unfolding ping(1) ping_reply using typed_send [OF says.pong, of alive _ ts Client] by simp
next
  case (pong ts)
  obtain a b where buf: "rm_buf msg = a # b # cmd_code Pong # le64 ts"
    unfolding pong using tun_msg_parts by metis
  let ?t = "t\<lparr>tn_busy := tn_busy t + length (le64 ts) + 1\<rparr>"
  have r: "rtt_ok (?t\<lparr>tn_ping_count := 0\<rparr>)" using ok by (simp add: tunnel_ok_def rtt_ok_def)
  obtain t2 where t2: "append_rtt (?t\<lparr>tn_ping_count := 0\<rparr>) (get_elapsed_milliseconds now t - ts) = Inr t2" "tn_time t2 = tn_time t"
    using append_rtt_ok [OF r] by force
  have "ts \<le> get_elapsed_milliseconds now t" using past pong by (simp add: past_pong_def)
  moreover have "rd_u64 (le64 ts) 0 = Inr (ts, 8)" by (simp add: rd_u64_def)
  ultimately have "on_pong now ?t (le64 ts) = Inr t2"
    using t2(1) by (simp add: on_pong_def get_elapsed_milliseconds_def Let_def not_less)
  then show ?thesis
    unfolding on_tunnel_msg_dispatch [OF buf] dispatch_def cmd.case using t2(2) by simp
next
  case (datagram d a b)
  then show ?thesis
    by (cases "tn_udpx_tx t") (auto simp: udpx_received on_udpx_none)
next
  case (server_closed i tag)
  obtain a b where buf: "rm_buf msg = a # b # cmd_code ReqServerClosed # req_body i tag []"
    unfolding server_closed using tun_msg_parts by metis
  show ?thesis unfolding on_tunnel_msg_dispatch [OF buf] dispatch_def cmd.case header_read by (auto split: prod.splits)
next
  case (server_finished i tag)
  obtain a b where buf: "rm_buf msg = a # b # cmd_code ReqServerFinished # req_body i tag []"
    unfolding server_finished using tun_msg_parts by metis
  show ?thesis unfolding on_tunnel_msg_dispatch [OF buf] dispatch_def cmd.case header_read by (auto simp: free_request_tx_def Let_def)
qed

lemma send_ping_typed:
  assumes "tunnel_ok t"
  shows "\<exists>t' eff b. send_ping alive now t = Inr (t', eff, b) \<and> tn_time t' = tn_time t \<and> (\<forall>e \<in> set eff. typed_effect Client e)"
proof -
  have bs: "and_then (put_at 0 (le16 11) (replicate 11 0)) (\<lambda>bs. and_then (put_at 2 [8] bs) (\<lambda>bs.
      and_then (put_at 3 (le64 ts) bs) f)) = f (tun_msg Ping (le64 ts))" for ts and f :: "bytes \<Rightarrow> 'b res"
    by (simp add: put_at_def tun_msg_def le16_def le64_def le32_def)
  obtain t' eff b where p: "send_ping alive now t = Inr (t', eff, b)" using send_ping_ok [OF assms] by blast
  moreover from this have "tn_time t' = tn_time t"
    by (auto simp: send_ping_def bs Let_def tx_send_def append_rtt_def and_then_Inr_iff split: if_splits)
  moreover have "\<forall>e \<in> set eff. typed_effect Client e"
    using p typed_send [OF says.ping, of alive "tn_tx t" _ Client]
    by (auto simp: send_ping_def bs Let_def tx_send_def and_then_Inr_iff split: if_splits)
  ultimately show ?thesis by blast
qed

lemma end_step_typed:
  assumes ok: "tunnel_ok t" and time: "tn_time t = t0" and i: "typed_input t0 i"
  shows "\<exists>t' eff. end_step alive t i = Inr (t', eff) \<and> tunnel_ok t' \<and> tn_time t' = t0 \<and> (\<forall>e \<in> set eff. typed_effect Client e)"
proof (cases i)
  case (Input ti)
  have "\<exists>t' eff. tun_step alive t ti = Inr (t', eff) \<and> tn_time t' = tn_time t \<and> (\<forall>e \<in> set eff. typed_effect Client e)"
  proof (cases ti)
    case (FromServer now msg)
    then show ?thesis
      using from_server_typed [OF ok, of msg now alive] i Input time by (auto simp: get_elapsed_milliseconds_def)
  next
    case (RequestCreated req ip port)
    obtain t' ts where a: "on_request_created_internal t req = Inr (t', ts)" using alloc_ok [OF ok] by blast
    then have "tn_time t' = tn_time t" by (auto simp: on_request_created_internal_def and_then_Inr_iff Let_def split: if_splits)
    then show ?thesis
      using a typed_send [OF says.open_addr] unfolding RequestCreated
      by (cases ts) (auto simp: on_request_created_def created_messages enc_ip_def)
  next
    case (RequestClosed ts)
    then show ?thesis
      using typed_send [OF says.client_closed]
      by (auto simp: on_request_closed_def created_messages Let_def split: prod.splits)
  next
    case (PingTimer now)
    then show ?thesis using send_ping_typed [OF ok, of alive now] by auto
  qed (simp_all add: reset_busy_def set_udpx_tx_def)
  moreover have "honest_input ti" using i Input by (cases ti) simp_all
  ultimately show ?thesis using tun_step_ok [OF ok] time Input by fastforce
next
  case (Datagram d a b)
  then show ?thesis using ok time i typed_send [OF says.datagram] by (auto simp: north_message)
next
  case (RequestRead ts bs)
  have "on_request_msg alive \<lparr>tm_buf = replicate 7 0 @ bs, tm_capacity = DEFAULT_CAP\<rparr> ts = Inr (tx_send alive (ts_tunnel_tx ts)
     (wmessage_new (tun_msg ReqData (req_body (ts_req_idx ts) (ts_req_tag ts) bs)) 0))" by (rule on_request_msg_eq) simp
  then show ?thesis using RequestRead ok time i typed_send [OF says.data, of bs alive "ts_tunnel_tx ts"] by (simp add: split_beta)
next
  case (RequestFinished ts)
  then show ?thesis using ok time typed_send [OF says.client_finished] by (simp add: request_messages)
next
  case (RequestQuota ts q)
  then show ?thesis using ok time typed_send [OF says.quota] by (simp add: request_messages)
qed


section \<open>The reverse tunnel's end\<close>

datatype srv_input =
    Event x_event
  | ServedRead u16 u16 bytes
  | ServedFinished u16 u16

fun srv_step :: "(chan \<Rightarrow> bool) \<Rightarrow> (str \<Rightarrow> bool) \<Rightarrow> xtunnel \<Rightarrow> srv_input \<Rightarrow> (xtunnel \<times> x_effect list) res" where
  "srv_step alive url_ok x (Event (XBuilt fd tx)) = Inr (fst (xt_on_tunnel_created x fd tx), [])"
| "srv_step alive url_ok x (Event XBuildFailed) = Inr (xt_on_tunnel_build_error x, [])"
| "srv_step alive url_ok x (Event XEnded) = Inr (xt_on_tunnel_closed x)"
| "srv_step alive url_ok x (Event (XKeepAlive now)) = xt_keepalive alive url_ok now x"
| "srv_step alive url_ok x (Event (XMsg now tx tr msg)) = xt_on_tunnel_msg alive now tx tr x msg"
| "srv_step alive url_ok x (Event (XReqClosed i t)) = xt_on_request_closed alive x i t"
| "srv_step alive url_ok x (Event (XDialled i t r)) = proxy_request_dialled alive x i t r"
| "srv_step alive url_ok x (Event XStop) = Inr (xt_stop x)"
| "srv_step alive url_ok x (ServedRead i t bs) =
     and_then (xt_on_request_msg alive x \<lparr>tm_buf = replicate 7 0 @ bs, tm_capacity = DEFAULT_CAP\<rparr> i t) (\<lambda>(eff, _). Inr (x, eff))"
| "srv_step alive url_ok x (ServedFinished i t) =
     and_then (xt_on_request_recv_finished alive x i t) (\<lambda>eff. Inr (x, eff))"

fun srv_run :: "(chan \<Rightarrow> bool) \<Rightarrow> (str \<Rightarrow> bool) \<Rightarrow> xtunnel \<Rightarrow> srv_input list \<Rightarrow> (xtunnel \<times> x_effect list) res" where
  "srv_run alive url_ok x [] = Inr (x, [])"
| "srv_run alive url_ok x (i # is) =
     and_then (srv_step alive url_ok x i) (\<lambda>(x, eff).
     and_then (srv_run alive url_ok x is) (\<lambda>(x, effs). Inr (x, eff @ effs)))"

fun typed_srv_input :: "nat \<Rightarrow> srv_input \<Rightarrow> bool" where
  "typed_srv_input t0 (Event (XMsg now tx tr msg)) \<longleftrightarrow>
     says Client (rm_buf msg) \<and> past_pong (word_of_nat (now - t0)) (rm_buf msg)"
| "typed_srv_input t0 (ServedRead i t bs) \<longleftrightarrow> length bs \<le> 8089"
| "typed_srv_input t0 _ \<longleftrightarrow> True"

fun typed_x_effect :: "x_effect \<Rightarrow> bool" where
  "typed_x_effect (Eff e) \<longleftrightarrow> typed_effect Server e"
| "typed_x_effect _ \<longleftrightarrow> True"

lemma typed_map_Eff [simp]: "(\<forall>e \<in> set (map Eff es). typed_x_effect e) \<longleftrightarrow> (\<forall>e \<in> set es. typed_effect Server e)"
  by simp

lemma clean_typed: "\<forall>e \<in> set (snd (clean_xreq r)). typed_x_effect e"
  by (auto simp: clean_xreq_def split: option.splits)

text \<open>Nothing moves the start of the clock.\<close>

lemma xt_frame:
  "xt_time (fst (xt_close_rawfd x)) = xt_time x" "\<forall>e \<in> set (snd (xt_close_rawfd x)). typed_x_effect e"
  by (auto simp: xt_close_rawfd_def split: option.splits)

lemma proxy_request_typed:
  "proxy_request x tx tr i t port = (y, eff, ok) \<Longrightarrow> xt_time y = xt_time x \<and> (\<forall>e \<in> set eff. typed_x_effect e)"
  by (auto simp: proxy_request_def save_request_tx_def Let_def split: if_splits)

lemma xt_closed_typed:
  "\<exists>y eff. xt_on_request_closed alive x i t = Inr (y, eff) \<and> xt_time y = xt_time x \<and> (\<forall>e \<in> set eff. typed_x_effect e)"
proof (cases "check_req_valid x i t \<and> xt_tun_tx x \<noteq> None")
  case True
  then obtain tx where tx: "xt_tun_tx x = Some tx" by blast
  show ?thesis
    using closed_valid [OF _ tx, of i t alive] True clean_typed typed_send [OF says.server_closed, of alive tx i t] by auto
qed (auto simp: xt_on_request_closed_def)

lemma xt_keepalive_typed:
  assumes "\<And>txt. url_ok txt"
  shows "\<exists>y eff. xt_keepalive alive url_ok now x = Inr (y, eff) \<and> xt_time y = xt_time x \<and> (\<forall>e \<in> set eff. typed_x_effect e)"
proof -
  have bs: "and_then (put_at 0 (le16 11) (replicate 11 0)) (\<lambda>bs. and_then (put_at 2 [8] bs) (\<lambda>bs.
      and_then (put_at 3 (le64 ts) bs) f)) = f (tun_msg Ping (le64 ts))" for ts and f :: "bytes \<Rightarrow> 'b res"
    by (simp add: put_at_def tun_msg_def le16_def le64_def le32_def)
  obtain y eff where p: "xt_send_ping alive now x = Inr (y, eff)" using xt_send_ping_ok by blast
  have "xt_time y = xt_time x" "\<forall>e \<in> set eff. typed_x_effect e"
    using p xt_frame [of x]
    by (auto simp: xt_send_ping_def bs Let_def tx_send_def says.ping split: if_splits option.splits)
  then show ?thesis
    using p assms by (auto simp: xt_keepalive_def xt_process_reconnect_def xtunel_connect_def Let_def)
qed

lemma xt_unhandled:
  assumes "rm_buf msg = tun_msg c body" "4 \<le> length body" "c \<in> {UdpX, ReqClientQuota}"
  shows "xt_on_tunnel_msg alive now tx tr x msg = Inr (x, [])"
proof -
  obtain a b where buf: "rm_buf msg = a # b # cmd_code c # body" unfolding assms using tun_msg_parts by metis
  obtain th where th: "theader_read_from body = Inr th" using theader_read_ok assms(2) by blast
  have s3: "slice_from 3 (a # b # cmd_code c # body) = Inr body" by (simp add: slice_from_def numeral_3_eq_3)
  have s4: "slice_from THEADER_SIZE body = Inr (drop 4 body)" using assms(2) by (simp add: slice_from_def THEADER_SIZE_def)
  have proxy: "xt_on_tunnel_msg alive now tx tr x msg = xt_on_tunnel_proxy_msg alive tx tr x c msg"
    using assms(3) by (auto simp: xt_on_tunnel_msg_def buf slice_from_def rd_u8_def simp del: cmd_code.simps)
  show ?thesis unfolding proxy xt_on_tunnel_proxy_msg_def buf Let_def s3 and_then_simps th s4 using assms(3) by auto
qed

lemma xt_opened_typed:
  assumes "rm_buf msg = tun_msg ReqCreated (req_body i t p)" "2 \<le> length p"
  shows "\<exists>y eff. xt_on_tunnel_msg alive now tx tr x msg = Inr (y, eff) \<and> xt_time y = xt_time x \<and> (\<forall>e \<in> set eff. typed_x_effect e)"
proof -
  obtain port where port: "rd_u16 p 0 = Inr (port, 2)" using assms(2) by (simp add: rd_u16_def)
  obtain es e1 where es: "xreqq_alloc (xt_requests x) i t = (es, e1)" by fastforce
  then have e1: "\<forall>e \<in> set e1. typed_x_effect e"
    using clean_typed [of "xt_requests x ! unat i"] by (auto simp: xreqq_alloc_def Let_def split: if_splits prod.splits)
  obtain y e2 ok where y: "proxy_request (x\<lparr>xt_requests := es\<rparr>) tx tr i t port = (y, e2, ok)" by (metis prod_cases3)
  show ?thesis
    using xt_dispatch [OF assms(1), of alive now tx tr x] port es y e1 proxy_request_typed [OF y] by auto
qed

lemma from_client_typed:
  assumes msg: "says Client (rm_buf msg)" and past: "past_pong (xt_get_elapsed_milliseconds now x) (rm_buf msg)"
  shows "\<exists>y eff. xt_on_tunnel_msg alive now tx tr x msg = Inr (y, eff) \<and> xt_time y = xt_time x \<and> (\<forall>e \<in> set eff. typed_x_effect e)"
  using msg
proof cases
  case (data p i t)
  show ?thesis
    using xt_dispatch [OF data(1), of alive now tx tr x] typed_hand [OF data(2), of alive _ i t Server] unfolding data(1)
    by (auto split: option.splits)
next
  case (ping ts)
  obtain a b where buf: "rm_buf msg = a # b # cmd_code Ping # le64 ts" unfolding ping using tun_msg_parts by metis
  have "xt_on_tunnel_msg alive now tx tr x msg = and_then (xt_reply_ping alive x msg) (\<lambda>eff. Inr (x, eff))"
    by (simp add: xt_on_tunnel_msg_def buf slice_from_def rd_u8_def cmd_from_def)
  then show ?thesis
    using typed_send [OF says.pong, of alive _ ts Server]
    by (auto simp: xt_reply_ping_def ping(1) ping_reply [simplified] split: option.splits)
next
  case (pong ts)
  obtain a b where buf: "rm_buf msg = a # b # cmd_code Pong # le64 ts" unfolding pong using tun_msg_parts by metis
  have "ts \<le> xt_get_elapsed_milliseconds now x" using past pong by (simp add: past_pong_def)
  moreover have "rd_u64 (le64 ts) 0 = Inr (ts, 8)" by (simp add: rd_u64_def)
  ultimately show ?thesis
    by (simp add: xt_on_tunnel_msg_def buf slice_from_def rd_u8_def cmd_from_def xt_on_pong_def xt_get_elapsed_milliseconds_def Let_def not_less)
next
  case (datagram d a b)
  then show ?thesis using xt_unhandled [OF datagram(1)] length_enc_socketaddr [of a] by simp
next
  case (open_addr i t ip port)
  moreover have "2 \<le> length (enc_ip ip @ le16 port)" unfolding length_append codec_length by (rule le_add2)
  ultimately show ?thesis by (rule xt_opened_typed)
next
  case (open_port i t port)
  moreover have "2 \<le> length (le16 port)" unfolding codec_length by (rule order_refl)
  ultimately show ?thesis by (rule xt_opened_typed)
next
  case (client_closed i t)
  obtain es eff r where f: "xreqq_free (xt_requests x) i t = (es, eff, r)" by (metis prod_cases3)
  then have "\<forall>e \<in> set eff. typed_x_effect e"
    using clean_typed [of "xt_requests x ! unat i"] by (auto simp: xreqq_free_def Let_def split: if_splits prod.splits)
  then show ?thesis using xt_dispatch [OF client_closed, of alive now tx tr x] f by auto
next
  case (client_finished i t)
  then show ?thesis using xt_dispatch [OF client_finished, of alive now tx tr x] by (simp add: xt_free_request_tx_def Let_def)
next
  case (quota i t q)
  then show ?thesis using xt_unhandled [OF quota] by simp
qed

lemma srv_step_typed:
  assumes i: "typed_srv_input t0 i" and time: "xt_time x = t0" and url: "\<And>txt. url_ok txt"
  shows "\<exists>y eff. srv_step alive url_ok x i = Inr (y, eff) \<and> xt_time y = t0 \<and> (\<forall>e \<in> set eff. typed_x_effect e)"
proof (cases i)
  case (Event e)
  show ?thesis
  proof (cases e)
    case (XBuilt fd tx)
    then show ?thesis using Event time by (simp add: xt_on_tunnel_created_def)
  next
    case XBuildFailed
    then show ?thesis using Event time by (simp add: xt_on_tunnel_build_error_def)
  next
    case XEnded
    then show ?thesis using Event time clean_typed by (auto simp: xt_on_tunnel_closed_def xreqq_clear_all_def Let_def)
  next
    case (XKeepAlive now)
    then show ?thesis using Event time xt_keepalive_typed [where url_ok = url_ok, OF url] by auto
  next
    case (XMsg now tx tr msg)
    then show ?thesis using Event time i from_client_typed [of msg now x alive tx tr] by (simp add: xt_get_elapsed_milliseconds_def)
  next
    case (XReqClosed i t)
    then show ?thesis using Event time xt_closed_typed [of alive x] by auto
  next
    case (XDialled i t r)
    then show ?thesis using Event time xt_closed_typed [of alive x i t]
      by (cases r) (auto simp: proxy_request_dialled_def xt_on_request_connect_error_def)
  next
    case XStop
    then show ?thesis using Event time xt_frame [of "x\<lparr>xt_discarded := True\<rparr>"] by (auto simp: xt_stop_def split: prod.splits)
  qed
next
  case (ServedRead i t bs)
  have m: "and_then (put_at 0 (le16 (7 + word_of_nat (length bs))) (replicate 7 0 @ bs)) (\<lambda>vec.
      and_then (put_at 2 [1] vec) (\<lambda>vec. and_then (theader_write_to (theader_new i t) 3 vec) f))
      = f (tun_msg ReqData (req_body i t bs))" for f :: "bytes \<Rightarrow> 'b res"
    by (simp add: put_at_def theader_write_to_def theader_new_def tun_msg_def req_body_def le16_def add.commute)
  show ?thesis
    using ServedRead time assms(1)
    by (auto simp: xt_on_request_msg_def Let_def m tx_send_def says.data split: option.splits)
next
  case (ServedFinished i t)
  have "xt_on_request_recv_finished alive x i t = Inr (case xt_tun_tx x of
      Some tx \<Rightarrow> if check_req_valid x i t
        then map Eff (fst (tx_send alive tx (wmessage_new (tun_msg ReqServerFinished (req_body i t [])) 0))) else []
    | None \<Rightarrow> [])"
    unfolding xt_on_request_recv_finished_def Let_def server_messages by (simp split: option.splits)
  then show ?thesis
    using ServedFinished time typed_send [OF says.server_finished, of alive _ i t] by (auto split: option.splits)
qed




end
