(* ===== verification/Forwarder_Run.thy ===== *)
theory Forwarder_Run imports Forwarder Ledger begin

text \<open>
  The forwarder with its builders, clients and timers as a machine (\<^verbatim>\<open>src/dns/forwarder.rs\<close>,
  \<^verbatim>\<open>src/dns/dnstunbuilder.rs\<close>, \<^verbatim>\<open>src/dns/udpserv.rs\<close>, \<^verbatim>\<open>src/dns/lresolver.rs\<close>): each callback is an event, and
  the whole refines the ledger of a redialling pool.
\<close>

section \<open>Events\<close>

datatype fw_event =
    FBuilt dns_tunnel
  | FBuildFailed nat
  | FTunnelEnded nat
  | FTunnelMsg nat nat rmessage
  | FQuestion bytes socket_addr
  | FAnswer bytes
  | FTick nat
  | FStop
  | FResolverClosed
  | FDomains "str list"

type_synonym fw_state = "forwarder \<times> nat multiset"

fun dials :: "dns_effect list \<Rightarrow> nat list" where
  "dials [] = []"
| "dials (DnsConnect i _ _ _ _ _ # es) = i # dials es"
| "dials (_ # es) = dials es"

fun fw_step :: "dns_env \<Rightarrow> fw_state \<Rightarrow> fw_event \<Rightarrow> fw_state res" where
  "fw_step env (fw, c) (FBuilt tun) = and_then (fw_on_tunnel_created fw tun) (\<lambda>(fw, _). Inr (fw, c - {#dt_index tun#}))"
| "fw_step env (fw, c) (FBuildFailed i) = Inr (fw_on_tunnel_build_error fw i, c - {#i#})"
| "fw_step env (fw, c) (FTunnelEnded i) = and_then (fw_on_tunnel_closed fw i) (\<lambda>fw. Inr (fw, c))"
| "fw_step env (fw, c) (FTunnelMsg now i msg) = and_then (fw_tunnel_msg env now fw i msg) (\<lambda>(fw, _). Inr (fw, c))"
| "fw_step env (fw, c) (FQuestion m src) = and_then (on_dns_udp_msg env fw m src) (\<lambda>(fw, _). Inr (fw, c))"
| "fw_step env (fw, c) (FAnswer m) = and_then (on_resolver_udp_msg env fw m) (\<lambda>(fw, _). Inr (fw, c))"
| "fw_step env (fw, c) (FTick now) = and_then (fw_keepalive env now fw) (\<lambda>(fw, eff). Inr (fw, c + mset (dials eff)))"
| "fw_step env (fw, c) FStop = Inr (fst (fw_stop fw), c)"
| "fw_step env (fw, c) FResolverClosed = Inr (on_lresolver_udp_closed fw, c)"
| "fw_step env (fw, c) (FDomains ds) = and_then (update_domains env fw ds) (\<lambda>(fw, _). Inr (fw, c))"

definition fw_opens :: "fw_state \<Rightarrow> nat \<Rightarrow> bool" where
  "fw_opens s i \<longleftrightarrow> i < length (fw_tunnels (fst s)) \<and> fw_tunnels (fst s) ! i \<noteq> None"

definition fw_queue :: "fw_state \<Rightarrow> nat list" where
  "fw_queue s = map unat (fw_reconnect_queue (fst s))"

definition fw_stopped :: "fw_state \<Rightarrow> bool" where
  "fw_stopped s = fw_discarded (fst s)"

fun fw_enabled :: "fw_state \<Rightarrow> fw_event \<Rightarrow> bool" where
  "fw_enabled s (FBuilt tun) \<longleftrightarrow> dt_index tun \<in># snd s \<and> dt_ok tun"
| "fw_enabled s (FBuildFailed i) \<longleftrightarrow> i \<in># snd s"
| "fw_enabled s (FTunnelEnded i) \<longleftrightarrow> fw_opens s i"
| "fw_enabled s (FTunnelMsg now i msg) \<longleftrightarrow> fw_opens s i"
| "fw_enabled s _ \<longleftrightarrow> True"

fun fw_kind :: "fw_event \<Rightarrow> ledger_event" where
  "fw_kind (FBuilt tun) = LBuilt (dt_index tun)"
| "fw_kind (FBuildFailed i) = LFailed i"
| "fw_kind (FTunnelEnded i) = LEnded i"
| "fw_kind (FTick now) = LTick"
| "fw_kind FStop = LStop"
| "fw_kind _ = LOther"

text \<open>The events that carry a datagram or a tunnel message, whose bytes may make the code panic.\<close>

fun carries_bytes :: "fw_event \<Rightarrow> bool" where
  "carries_bytes (FTunnelMsg now i msg) \<longleftrightarrow> True"
| "carries_bytes (FQuestion m src) \<longleftrightarrow> True"
| "carries_bytes (FAnswer m) \<longleftrightarrow> True"
| "carries_bytes _ \<longleftrightarrow> False"

section \<open>The invariant\<close>

definition fw_ok :: "fw_state \<Rightarrow> bool" where
  "fw_ok s \<longleftrightarrow> length (fw_tunnels (fst s)) < 2 ^ 16 \<and> (\<forall>i. i \<in># snd s \<longrightarrow> i < length (fw_tunnels (fst s)))
     \<and> (\<forall>i \<in> set (fw_queue s). i < length (fw_tunnels (fst s)))
     \<and> (\<forall>t \<in> open_tunnels (fw_tunnels (fst s)). dt_ok t) \<and> (fw_discarded (fst s) \<or> us_tx (fw_server (fst s)) \<noteq> None)"

lemma index_u16: "length ts < 2 ^ 16 \<Longrightarrow> i < length ts \<Longrightarrow> unat (word_of_nat i :: u16) = i"
  by (simp add: unat_of_nat_less)

lemma open_tunnels_update: "open_tunnels (ts[i := x]) \<subseteq> open_tunnels ts \<union> set_option x"
  by (auto simp: open_tunnels_def dest!: set_update_subset_insert [THEN subsetD])

lemma dials_append [simp]: "dials (map DEff es) = []" "dials (xs @ ys) = dials xs @ dials ys"
  by (induction es, simp_all) (induction xs rule: dials.induct; simp)

lemma dials_connect_all: "dns_connect_all env fw tx ns = Inr eff \<Longrightarrow> dials eff = ns"
  by (induction ns arbitrary: eff) (auto simp: dns_connect_def Let_def res_simps split: if_splits)

lemma connect_all_total: "(\<And>u. e_url_ok env u) \<Longrightarrow> \<exists>eff. dns_connect_all env fw tx ns = Inr eff"
  by (induction ns) (auto simp: dns_connect_def Let_def)

lemma pings_keep:
  "dns_pings_to alive now ts = Inr (ts', eff) \<Longrightarrow> \<forall>t \<in> open_tunnels ts. dt_ok t \<Longrightarrow>
   map (\<lambda>x. x = None) ts' = map (\<lambda>x. x = None) ts \<and> (\<forall>t \<in> open_tunnels ts'. dt_ok t)"
proof (induction ts arbitrary: ts' eff)
  case (Cons x ts)
  show ?case
  proof (cases x)
    case None
    then show ?thesis using Cons by (auto simp: res_simps)
  next
    case (Some t)
    obtain t' eff1 b where p: "dt_send_ping alive now t = Inr (t', eff1, b)" "dt_ok t'"
      using dt_send_ping_ok [of t alive now] Cons.prems(2) Some by auto
    then show ?thesis using Cons Some by (auto simp: res_simps Let_def)
  qed
qed simp

lemma pings_total: "\<forall>t \<in> open_tunnels ts. dt_ok t \<Longrightarrow> \<exists>r. dns_pings_to alive now ts = Inr r"
proof (induction ts)
  case (Cons x ts)
  show ?case
  proof (cases x)
    case None
    then show ?thesis using Cons by auto
  next
    case (Some t)
    obtain t' eff1 b where "dt_send_ping alive now t = Inr (t', eff1, b)"
      using dt_send_ping_ok [of t alive now] Cons.prems Some by auto
    then show ?thesis using Cons Some by (auto simp: Let_def)
  qed
qed simp

lemma none_map: "map (\<lambda>x. x = None) ts' = map (\<lambda>x. x = None) ts \<Longrightarrow>
  length ts' = length ts \<and> (\<forall>i < length ts. (ts' ! i = None) = (ts ! i = None))"
  by (simp add: list_eq_iff_nth_eq)

lemma keepalive_eq:
  assumes "\<not> fw_discarded fw" "us_tx (fw_server fw) = Some tx"
  shows "fw_keepalive env now fw =
    and_then (dns_pings_to (e_alive env) now (fw_tunnels fw)) (\<lambda>(ts, eff).
    and_then (dns_connect_all env (fw\<lparr>fw_lresolver := lr_keepalive (fw_lresolver fw), fw_tunnels := ts\<rparr>) tx
       (map unat (rev (fw_reconnect_queue fw)))) (\<lambda>eff2.
    Inr (fw\<lparr>fw_lresolver := lr_keepalive (fw_lresolver fw), fw_tunnels := ts, fw_reconnect_queue := []\<rparr>,
         map DEff eff @ eff2)))"
  using assms by (simp add: fw_keepalive_def fw_send_pings_def fw_process_reconnect_def and_then_assoc split_def Let_def)

lemma keepalive_keep:
  assumes "fw_ok (fw, c)" "fw_keepalive env now fw = Inr (fw', eff)"
  shows "map (\<lambda>x. x = None) (fw_tunnels fw') = map (\<lambda>x. x = None) (fw_tunnels fw)
    \<and> (\<forall>t \<in> open_tunnels (fw_tunnels fw'). dt_ok t) \<and> fw_discarded fw' = fw_discarded fw \<and> fw_server fw' = fw_server fw
    \<and> (if fw_discarded fw then fw' = fw \<and> eff = []
       else fw_reconnect_queue fw' = [] \<and> dials eff = map unat (rev (fw_reconnect_queue fw)))"
proof (cases "fw_discarded fw")
  case True
  then have "fw' = fw" "eff = []" using assms(2) by (simp_all add: fw_keepalive_def)
  then show ?thesis using True assms(1) by (simp add: fw_ok_def)
next
  case False
  obtain tx where tx: "us_tx (fw_server fw) = Some tx" using assms(1) False by (auto simp: fw_ok_def)
  let ?q = "map unat (rev (fw_reconnect_queue fw))"
  obtain ts eff1 where p: "dns_pings_to (e_alive env) now (fw_tunnels fw) = Inr (ts, eff1)"
    using assms(2) unfolding keepalive_eq [OF False tx] and_then_Inr_iff by auto
  obtain eff2 where c: "dns_connect_all env (fw\<lparr>fw_lresolver := lr_keepalive (fw_lresolver fw), fw_tunnels := ts\<rparr>) tx ?q
      = Inr eff2"
    using assms(2) unfolding keepalive_eq [OF False tx] p and_then_simps split by (auto simp: res_simps)
  have "fw' = fw\<lparr>fw_lresolver := lr_keepalive (fw_lresolver fw), fw_tunnels := ts, fw_reconnect_queue := []\<rparr>"
    "eff = map DEff eff1 @ eff2"
    using assms(2) unfolding keepalive_eq [OF False tx] p by (simp_all add: c)
  moreover have "\<forall>t \<in> open_tunnels (fw_tunnels fw). dt_ok t" using assms(1) by (simp add: fw_ok_def)
  ultimately show ?thesis using pings_keep [OF p] False dials_connect_all [OF c] by simp
qed

lemma tunnel_msg_keeps:
  assumes "dt_on_tunnel_msg uni alive now save t msg = Inr (t', eff)" "dt_ok t"
  shows "dt_ok t'"
proof -
  obtain x v k bs c where m: "slice_from 2 (rm_buf msg) = Inr x" "rd_u8 x 0 = Inr (v, k)" "slice_from 1 x = Inr bs"
    "cmd_from v = Inr c"
    using assms(1) unfolding dt_on_tunnel_msg_def by (auto simp: res_simps)
  note d = assms(1) [unfolded dt_on_tunnel_msg_def, unfolded m and_then_simps split]
  show ?thesis
  proof (cases c)
    case ReqData
    then show ?thesis using d assms(2) by (auto simp: res_simps Let_def split: if_splits option.splits)
  next
    case Pong
    then show ?thesis using d assms(2) dt_on_pong_ok by (auto simp: res_simps m)
  qed (use d assms(2) in \<open>auto simp: res_simps m\<close>)
qed

section \<open>What each event does to the pool\<close>

lemma fw_tunnel_msg_keep:
  assumes "fw_tunnel_msg env now fw i msg = Inr (fw', eff)" "\<forall>t \<in> open_tunnels (fw_tunnels fw). dt_ok t"
    "i < length (fw_tunnels fw)"
  shows "(\<exists>t t'. fw_tunnels fw ! i = Some t \<and> dt_ok t' \<and> fw' = fw\<lparr>fw_tunnels := (fw_tunnels fw)[i := Some t']\<rparr>)
    \<or> fw' = fw"
proof (cases "fw_tunnels fw ! i")
  case None
  then show ?thesis using assms(1) by (simp add: fw_tunnel_msg_def)
next
  case (Some t)
  then have "Some t \<in> set (fw_tunnels fw)" using assms(3) by (metis nth_mem)
  then have "dt_ok t" using assms(2) by (simp add: open_tunnels_def)
  moreover obtain t' eff where m: "dt_on_tunnel_msg (e_lower env) (e_alive env) now (save_ipset env fw) t msg = Inr (t', eff)"
    "fw' = fw\<lparr>fw_tunnels := (fw_tunnels fw)[i := Some t']\<rparr>"
    using assms(1) Some by (auto simp: fw_tunnel_msg_def res_simps)
  ultimately have "dt_ok t'" using tunnel_msg_keeps by blast
  then show ?thesis using Some m(2) by blast
qed

lemma question_keep:
  "on_dns_udp_msg env fw m src = Inr (fw', r) \<Longrightarrow> \<exists>lr. fw' = fw\<lparr>fw_lresolver := lr\<rparr>"
proof -
  have same: "\<exists>lr. g = g\<lparr>fw_lresolver := lr\<rparr>" for g by (intro exI [of _ "fw_lresolver g"]) simp
  show "on_dns_udp_msg env fw m src = Inr (fw', r) \<Longrightarrow> \<exists>lr. fw' = fw\<lparr>fw_lresolver := lr\<rparr>"
    by (auto simp: on_dns_udp_msg_def match_result_def Let_def res_simps same
        split: if_splits sum.splits option.splits prod.splits)
qed

lemma answer_keep:
  "on_resolver_udp_msg env fw m = Inr (fw', r) \<Longrightarrow> \<exists>lr. fw' = fw\<lparr>fw_lresolver := lr\<rparr>"
proof -
  have same: "\<exists>lr. g = g\<lparr>fw_lresolver := lr\<rparr>" for g by (intro exI [of _ "fw_lresolver g"]) simp
  show "on_resolver_udp_msg env fw m = Inr (fw', r) \<Longrightarrow> \<exists>lr. fw' = fw\<lparr>fw_lresolver := lr\<rparr>"
    by (auto simp: on_resolver_udp_msg_def match_result_def Let_def res_simps same
        split: if_splits sum.splits option.splits prod.splits)
qed

text \<open>An event that is none of the pool's business leaves the pool alone.\<close>

lemma other_keep:
  assumes "fw_ok (fw, c)" "fw_enabled (fw, c) e" "fw_step env (fw, c) e = Inr (fw', c')" "fw_kind e = LOther"
  shows "c' = c \<and> fw_opens (fw', c') = fw_opens (fw, c) \<and> fw_reconnect_queue fw' = fw_reconnect_queue fw
    \<and> fw_discarded fw' = fw_discarded fw \<and> fw_server fw' = fw_server fw
    \<and> length (fw_tunnels fw') = length (fw_tunnels fw) \<and> (\<forall>t \<in> open_tunnels (fw_tunnels fw'). dt_ok t)"
proof -
  have ok: "\<forall>t \<in> open_tunnels (fw_tunnels fw). dt_ok t" using assms(1) by (simp add: fw_ok_def)
  show ?thesis
  proof (cases e)
    case (FTunnelMsg now i msg)
    then have i: "i < length (fw_tunnels fw)" using assms(2) by (simp add: fw_opens_def)
    obtain eff where m: "fw_tunnel_msg env now fw i msg = Inr (fw', eff)" "c' = c"
      using assms(3) FTunnelMsg by (auto simp: res_simps)
    from fw_tunnel_msg_keep [OF m(1) ok i] show ?thesis
    proof (elim disjE exE conjE)
      fix t t' assume t: "fw_tunnels fw ! i = Some t" "dt_ok t'" "fw' = fw\<lparr>fw_tunnels := (fw_tunnels fw)[i := Some t']\<rparr>"
      moreover have "\<forall>u \<in> open_tunnels ((fw_tunnels fw)[i := Some t']). dt_ok u"
        using open_tunnels_update [of "fw_tunnels fw" i "Some t'"] ok t(2) by auto
      ultimately show ?thesis using i m(2) by (auto simp: fw_opens_def fun_eq_iff nth_list_update)
    qed (use ok m(2) in simp)
  next
    case (FQuestion m src)
    then show ?thesis using assms(3) ok question_keep by (fastforce simp: res_simps fw_opens_def fun_eq_iff)
  next
    case (FAnswer m)
    then show ?thesis using assms(3) ok answer_keep by (fastforce simp: res_simps fw_opens_def fun_eq_iff)
  next
    case FResolverClosed
    then show ?thesis using assms(3) ok by (auto simp: on_lresolver_udp_closed_def fw_opens_def fun_eq_iff)
  next
    case (FDomains ds)
    then show ?thesis using assms(3) ok by (auto simp: update_domains_def res_simps fw_opens_def fun_eq_iff)
  qed (use assms(4) in simp_all)
qed

lemma built_keep:
  assumes "fw_on_tunnel_created fw tun = Inr (fw', b)"
  shows "fw' = (if fw_discarded fw then fw else fw\<lparr>fw_tunnels := (fw_tunnels fw)[dt_index tun := Some tun]\<rparr>)
    \<and> (fw_discarded fw \<or> dt_index tun < length (fw_tunnels fw))"
  using assms by (auto simp: fw_on_tunnel_created_def Let_def res_simps split: if_splits)

lemma closed_keep:
  assumes "fw_opens (fw, c) i"
  shows "fw_on_tunnel_closed fw i = Inr (fw\<lparr>fw_tunnels := (fw_tunnels fw)[i := None],
    fw_reconnect_queue := fw_reconnect_queue fw @ [word_of_nat i]\<rparr>)"
  using assms by (auto simp: fw_opens_def fw_on_tunnel_closed_def fw_on_tunnel_closed_interal_def)

lemma fw_step_ok:
  assumes "fw_ok s" "fw_enabled s e" "fw_step env s e = Inr s'"
  shows "fw_ok s'"
proof -
  obtain fw c fw' c' where s: "s = (fw, c)" "s' = (fw', c')" by (cases s, cases s') auto
  have ok: "\<forall>t \<in> open_tunnels (fw_tunnels fw). dt_ok t" "length (fw_tunnels fw) < 2 ^ 16"
    "\<And>i. i \<in># c \<Longrightarrow> i < length (fw_tunnels fw)" "\<forall>i \<in> set (fw_queue (fw, c)). i < length (fw_tunnels fw)"
    "fw_discarded fw \<or> us_tx (fw_server fw) \<noteq> None" using assms(1) s by (simp_all add: fw_ok_def)
  have idx: "unat (word_of_nat i :: u16) = i" if "i < length (fw_tunnels fw)" for i using that ok(2) by (rule index_u16 [rotated])
  show ?thesis
  proof (cases e)
    case (FBuilt tun)
    then have "\<forall>t \<in> open_tunnels ((fw_tunnels fw)[dt_index tun := Some tun]). dt_ok t" "c' = c - {#dt_index tun#}"
      using open_tunnels_update [of "fw_tunnels fw" "dt_index tun" "Some tun"] ok(1) assms(2,3) s
      by (auto simp: res_simps)
    moreover obtain b where "fw_on_tunnel_created fw tun = Inr (fw', b)" using assms(3) s FBuilt by (auto simp: res_simps)
    ultimately show ?thesis using built_keep [of fw tun fw' b] ok s
      by (auto simp: fw_ok_def fw_queue_def dest: in_diffD split: if_splits)
  next
    case (FBuildFailed i)
    then show ?thesis using assms ok s idx
      by (auto simp: fw_ok_def fw_queue_def fw_on_tunnel_build_error_def dest: in_diffD split: if_splits)
  next
    case (FTunnelEnded i)
    then have "fw_opens (fw, c) i" using assms(2) s by simp
    from closed_keep [OF this] this show ?thesis using FTunnelEnded assms(3) ok s idx
      open_tunnels_update [of "fw_tunnels fw" i None]
      by (auto simp: fw_ok_def fw_queue_def fw_opens_def)
  next
    case (FTick now)
    obtain eff where k: "fw_keepalive env now fw = Inr (fw', eff)" "c' = c + mset (dials eff)"
      using assms(3) s FTick by (auto simp: res_simps)
    note keep = keepalive_keep [OF assms(1) [unfolded s(1)] k(1)]
    then have "length (fw_tunnels fw') = length (fw_tunnels fw)" using none_map by blast
    then show ?thesis using keep k(2) ok s by (auto simp: fw_ok_def fw_queue_def split: if_splits)
  next
    case FStop
    then show ?thesis using assms(3) ok s by (auto simp: fw_ok_def fw_queue_def fw_stop_def split: if_splits)
  qed (use other_keep [OF assms(1) [unfolded s(1)] assms(2) [unfolded s(1)] assms(3) [unfolded s]] ok s
       in \<open>auto simp: fw_ok_def fw_queue_def\<close>)
qed

section \<open>The forwarder redials\<close>

interpretation fwp: redialling fw_opens fw_queue snd fw_stopped fw_ok fw_enabled "fw_step env" fw_kind for env
proof (unfold_locales, goal_cases)
  case (1 s e s')
  then show ?case by (rule fw_step_ok)
next
  case (2 s e s' i)
  obtain fw c tun where s: "s = (fw, c)" "e = FBuilt tun" "dt_index tun = i" using 2(4) by (cases s; cases e) auto
  obtain fw' b where b: "fw_on_tunnel_created fw tun = Inr (fw', b)" "s' = (fw', c - {#i#})"
    using 2(3) s by (auto simp: res_simps)
  show ?case using 2(2) s b(2) built_keep [OF b(1)]
    by (auto simp: fw_opens_def fw_queue_def fw_stopped_def fun_eq_iff nth_list_update)
next
  case (3 s e s' i)
  obtain fw c where s: "s = (fw, c)" "e = FBuildFailed i" using 3(4) by (cases s; cases e) auto
  have "unat (word_of_nat i :: u16) = i" using 3(1,2) s by (auto simp: fw_ok_def intro: index_u16)
  then show ?case using 3(2,3) s
    by (auto simp: fw_opens_def fw_queue_def fw_stopped_def fun_eq_iff fw_on_tunnel_build_error_def split: if_splits)
next
  case (4 s e s' i)
  obtain fw c where s: "s = (fw, c)" "e = FTunnelEnded i" using 4(4) by (cases s; cases e) auto
  have o: "fw_opens (fw, c) i" using 4(2) s by simp
  have "unat (word_of_nat i :: u16) = i" using 4(1) o s by (auto simp: fw_ok_def fw_opens_def intro: index_u16)
  then show ?case using 4(3) s o closed_keep [OF o]
    by (auto simp: fw_opens_def fw_queue_def fw_stopped_def fun_eq_iff nth_list_update)
next
  case (5 s e s')
  obtain fw c now where s: "s = (fw, c)" "e = FTick now" using 5(4) by (cases s; cases e) auto
  obtain fw' eff where k: "fw_keepalive env now fw = Inr (fw', eff)" "s' = (fw', c + mset (dials eff))"
    using 5(3) s by (auto simp: res_simps)
  note keep = keepalive_keep [OF 5(1) [unfolded s(1)] k(1)]
  have slots: "length (fw_tunnels fw') = length (fw_tunnels fw)"
    "\<forall>i < length (fw_tunnels fw). (fw_tunnels fw' ! i = None) = (fw_tunnels fw ! i = None)"
    using keep none_map by blast+
  have "mset (map unat (rev q)) = mset (map unat q)" for q :: "u16 list" by simp
  then show ?case using keep slots k(2) s
    by (auto simp: fw_opens_def fw_queue_def fw_stopped_def fun_eq_iff simp del: mset_map split: if_splits)
next
  case (6 s e s')
  obtain fw c where s: "s = (fw, c)" "e = FStop" using 6(4) by (cases s; cases e) auto
  then show ?case using 6(3) by (auto simp: fw_opens_def fw_stopped_def fw_stop_def fun_eq_iff split: if_splits)
next
  case (7 s e s')
  obtain fw c fw' c' where s: "s = (fw, c)" "s' = (fw', c')" by (cases s; cases s') auto
  note k = other_keep [OF 7(1-3) [unfolded s] 7(4)]
  then have c: "c' = c" by blast
  have "fw_opens (fw', c) = fw_opens (fw, c)" using k unfolding c by blast
  moreover have "fw_reconnect_queue fw' = fw_reconnect_queue fw" "fw_discarded fw' = fw_discarded fw" using k by blast+
  ultimately show ?case unfolding s c fw_queue_def fw_stopped_def by simp
qed

lemma forwarder_new_shape:
  assumes "forwarder_new env tx cfg ds = Inr (fw, eff)"
  shows "fw_tunnels fw = replicate (tc_dns_tunnel_number cfg) None \<and> fw_capacity fw = tc_dns_tunnel_number cfg
    \<and> fw_reconnect_queue fw = [] \<and> \<not> fw_discarded fw"
  using assms by (auto simp: forwarder_new_def Let_def res_simps map_replicate_trivial [symmetric])

lemma forwarder_init_shape:
  assumes "forwarder_init env fw = Inr (fw', eff, True)"
  shows "fw_tunnels fw' = fw_tunnels fw \<and> fw_reconnect_queue fw' = fw_reconnect_queue fw
    \<and> fw_discarded fw' = fw_discarded fw \<and> us_tx (fw_server fw') \<noteq> None \<and> dials eff = [0..<fw_capacity fw]"
proof (cases "e_bind env (us_listen_addr (fw_server fw))")
  case None
  then show ?thesis using assms by (simp add: forwarder_init_def Let_def us_start_def)
next
  case (Some tx)
  let ?fw = "fw\<lparr>fw_keepalive_trigger := True\<rparr>"
  obtain eff1 where c: "dns_connect_all env ?fw tx [0..<fw_capacity fw] = Inr eff1"
    using assms Some
    by (auto simp: forwarder_init_def Let_def us_start_def on_dns_udp_created_def match_result_def res_simps
        split: sum.splits if_splits)
  then show ?thesis using assms Some dials_connect_all [OF c]
    by (auto simp: forwarder_init_def Let_def us_start_def on_dns_udp_created_def match_result_def
        split: sum.splits if_splits)
qed

lemma init_represents:
  assumes "forwarder_new env tx cfg ds = Inr (fw0, eff0)" "forwarder_init env fw0 = Inr (fw, eff, True)"
    "tc_dns_tunnel_number cfg < 2 ^ 16"
  shows "fw_ok (fw, mset (dials eff)) \<and>
    represents fw_opens fw_queue snd fw_stopped (fw, mset (dials eff)) (ledger_new (tc_dns_tunnel_number cfg))"
proof -
  have "count (mset [0..<n]) i = (if i < n then 1 else 0)" for n i :: nat
    by (simp add: distinct_count_atmost_1 [THEN iffD1])
  moreover have "open_tunnels (replicate n None) = {}" for n by (induction n) simp_all
  ultimately show ?thesis using forwarder_new_shape [OF assms(1)] forwarder_init_shape [OF assms(2)] assms(3)
    by (simp add: fw_ok_def represents_def fw_opens_def fw_queue_def fw_stopped_def ledger_new_def)
qed

text \<open>No lifecycle event panics: a tunnel is only built where none is open.\<close>

lemma lifecycle_total:
  assumes "fw_ok s" "represents fw_opens fw_queue snd fw_stopped s L" "fw_enabled s e" "\<not> carries_bytes e"
    "\<And>u. e_url_ok env u"
  shows "\<exists>s'. fw_step env s e = Inr s'"
proof -
  obtain fw c where s: "s = (fw, c)" by (cases s)
  show ?thesis
  proof (cases e)
    case (FBuilt tun)
    then have i: "dt_index tun \<in># snd s" using assms(3) by simp
    then have "lg_phase L (dt_index tun) = Dialling" by (rule fwp.dialling_phase [OF assms(2)])
    then have "\<not> fw_opens s (dt_index tun)" using assms(2) by (simp add: represents_def)
    moreover have "dt_index tun < length (fw_tunnels fw)" using i assms(1) s by (simp add: fw_ok_def)
    ultimately show ?thesis using FBuilt s by (auto simp: fw_on_tunnel_created_def Let_def fw_opens_def)
  next
    case (FTunnelEnded i)
    then show ?thesis using closed_keep [of fw c i] assms(3) s by simp
  next
    case (FTick now)
    obtain r where p: "dns_pings_to (e_alive env) now (fw_tunnels fw) = Inr r"
      using pings_total assms(1) s by (fastforce simp: fw_ok_def)
    show ?thesis
    proof (cases "fw_discarded fw")
      case True
      then show ?thesis using FTick s by (simp add: fw_keepalive_def)
    next
      case False
      obtain tx where tx: "us_tx (fw_server fw) = Some tx" using assms(1) False s by (auto simp: fw_ok_def)
      let ?fw = "fw\<lparr>fw_lresolver := lr_keepalive (fw_lresolver fw), fw_tunnels := fst r\<rparr>"
      obtain eff where "dns_connect_all env ?fw tx (map unat (rev (fw_reconnect_queue fw))) = Inr eff"
        using connect_all_total assms(5) by blast
      then show ?thesis using FTick s keepalive_eq [OF False tx, of env now] p by (simp add: split_def)
    qed
  next
    case (FDomains ds)
    then show ?thesis using new_domap_ok [of env ds] s by (auto simp: update_domains_def)
  qed (use assms(4) s in auto)
qed

section \<open>Properties\<close>



end
