(* ===== verification/Keep_Alive.thy ===== *)
theory Keep_Alive
  imports Tun_Net Req_Life Forwarder_Run
begin

text \<open>
  The keep-alive timers: \<^verbatim>\<open>start_keepalive_timer\<close> of src/src/tunnels/tunmgr.rs, src/src/dns/forwarder.rs and
  src/src/xport/xtunnel.rs, and the time in which they find that the relay has gone silent.
\<close>

section \<open>The task\<close>

text \<open>
  \<^verbatim>\<open>tokio::time::interval\<close> fires at once and then after each period (its documentation); \<^verbatim>\<open>skip(1)\<close> drops the
  first tick. \<open>n\<close> bounds how far the timer is followed.
\<close>

definition interval_ticks :: "nat \<Rightarrow> nat \<Rightarrow> nat \<Rightarrow> nat list" where
  "interval_ticks start period n = map (\<lambda>i. start + i * period) [0..<n]"

definition keepalive_ticks :: "nat \<Rightarrow> nat \<Rightarrow> nat list" where
  "keepalive_ticks start n = drop 1 (interval_ticks start (unat KEEP_ALIVE_INTERVAL) n)"

text \<open>
  \<^verbatim>\<open>take_until(tripwire).for_each(..)\<close>: the trigger lives in the object the timer ticks for, and the task ends
  when the object has dropped it. What each tick sends is kept apart.
\<close>

fun timer_task ::
  "('s \<Rightarrow> bool) \<Rightarrow> (nat \<Rightarrow> 's \<Rightarrow> ('s \<times> 'e list) res) \<Rightarrow> nat list \<Rightarrow> 's \<Rightarrow> ('s \<times> 'e list list) res" where
  "timer_task trigger tick [] s = Inr (s, [])"
| "timer_task trigger tick (t # ts) s =
     (if \<not> trigger s then Inr (s, [])
      else
        and_then (tick t s) (\<lambda>(s, eff).
        and_then (timer_task trigger tick ts s) (\<lambda>(s, effs). Inr (s, eff # effs))))"

definition mgr_start_keepalive_timer ::
  "(chan \<Rightarrow> bool) \<Rightarrow> (str \<Rightarrow> bool) \<Rightarrow> sorter \<Rightarrow> nat \<Rightarrow> nat \<Rightarrow> tun_mgr \<Rightarrow> (tun_mgr \<times> mgr_effect list list) res" where
  "mgr_start_keepalive_timer alive url_ok sort_by start n m =
     timer_task mg_keepalive_trigger (mgr_keepalive alive url_ok sort_by) (keepalive_ticks start n) (m\<lparr>mg_keepalive_trigger := True\<rparr>)"

definition fw_start_keepalive_timer ::
  "dns_env \<Rightarrow> nat \<Rightarrow> nat \<Rightarrow> forwarder \<Rightarrow> (forwarder \<times> dns_effect list list) res" where
  "fw_start_keepalive_timer env start n fw =
     timer_task fw_keepalive_trigger (fw_keepalive env) (keepalive_ticks start n) (fw\<lparr>fw_keepalive_trigger := True\<rparr>)"

definition xt_start_keepalive_timer ::
  "(chan \<Rightarrow> bool) \<Rightarrow> (str \<Rightarrow> bool) \<Rightarrow> nat \<Rightarrow> nat \<Rightarrow> xtunnel \<Rightarrow> (xtunnel \<times> x_effect list list) res" where
  "xt_start_keepalive_timer alive url_ok start n x =
     timer_task xt_keepalive_trigger (xt_keepalive alive url_ok) (keepalive_ticks start n) (x\<lparr>xt_keepalive_trigger := True\<rparr>)"

lemma keepalive_ticks_nth:
  "keepalive_ticks start (Suc n) = map (\<lambda>i. start + (i + 1) * 15000) [0..<n]"
  by (rule nth_equalityI) (simp_all add: keepalive_ticks_def interval_ticks_def KEEP_ALIVE_INTERVAL_def nth_append del: upt_Suc)

text \<open>Nothing ticks for an object that was stopped.\<close>

lemma timer_stopped: "\<not> trigger s \<Longrightarrow> timer_task trigger tick ts s = Inr (s, [])"
  by (cases ts) simp_all

lemma stopped_timers:
  "\<not> mg_discarded m \<Longrightarrow> timer_task mg_keepalive_trigger mtick ts (fst (mgr_stop m)) = Inr (fst (mgr_stop m), [])"
  "\<not> fw_discarded fw \<Longrightarrow> timer_task fw_keepalive_trigger ftick ts (fst (fw_stop fw)) = Inr (fst (fw_stop fw), [])"
  "\<not> xt_discarded x \<Longrightarrow> timer_task xt_keepalive_trigger xtick ts (fst (xt_stop x)) = Inr (fst (xt_stop x), [])"
  by (intro timer_stopped; simp add: mgr_stop_def fw_stop_def xt_stop_def split: prod.split)+

section \<open>A silent relay\<close>

text \<open>One tick, as one tunnel sees it.\<close>

lemma send_pings_to_nth:
  "send_pings_to alive now ts = Inr (ts', eff) \<Longrightarrow> i < length ts \<Longrightarrow> ts ! i = Some tun \<Longrightarrow>
   \<exists>t' e ok. send_ping alive now tun = Inr (t', e, ok) \<and> ts' ! i = Some t' \<and> length ts' = length ts \<and>
     (\<not> ok \<longrightarrow> ShutdownFd (tn_rawfd t') \<in> set eff)"
proof (induction alive now ts arbitrary: i ts' eff rule: send_pings_to.induct)
  case (2 alive now ts)
  then show ?case by (cases i) (auto simp: and_then_Inr_iff)
next
  case (3 alive now t ts)
  obtain t1 e1 ok ts1 e2 where s: "send_ping alive now t = Inr (t1, e1, ok)" "send_pings_to alive now ts = Inr (ts1, e2)"
    "ts' = Some t1 # ts1" "eff = (if ok then e1 else e1 @ close_rawfd t1) @ e2"
    using "3.prems"(1) by (auto simp: and_then_Inr_iff Let_def)
  have len: "length ts1 = length ts" using send_pings_length [OF s(2)] .
  show ?case
  proof (cases i)
    case 0
    then show ?thesis using s "3.prems"(3) len by (auto simp: close_rawfd_def)
  next
    case (Suc j)
    then show ?thesis using "3.IH" [OF s(1) refl refl refl s(2), of j] "3.prems" s by auto
  qed
qed simp

lemma send_ping_rawfd: "send_ping alive now t = Inr (t', eff, ok) \<Longrightarrow> tn_rawfd t' = tn_rawfd t"
  by (auto simp: send_ping_def Let_def tx_send_def append_rtt_def and_then_Inr_iff split: if_splits)

lemma keepalive_parts:
  assumes "mgr_keepalive alive url_ok sort_by now m = Inr (m', eff)" "\<not> mg_discarded m"
  obtains ts e1 e2 where "send_pings_to alive now (mg_tunnels (sort_tunnels_by_busy sort_by m)) = Inr (ts, e1)"
    "eff = map Tun e1 @ e2" "mg_tunnels m' = ts" "mg_discarded m' = mg_discarded m" "mg_keepalive_trigger m' = mg_keepalive_trigger m"
proof -
  let ?s = "sort_tunnels_by_busy sort_by m"
  obtain ts e1 m3 e2 where p: "send_pings_to alive now (mg_tunnels ?s) = Inr (ts, e1)"
    "process_reconnect url_ok (?s\<lparr>mg_tunnels := ts\<rparr>) = Inr (m3, e2)"
    "m' = fst (report_access_log alive m3)" "eff = map Tun e1 @ e2 @ snd (report_access_log alive m3)"
    using assms by (auto simp: mgr_keepalive_def send_pings_def and_then_Inr_iff Let_def split_beta)
  have "m3 = ?s\<lparr>mg_tunnels := ts, mg_reconnect_queue := []\<rparr>" using p(2) by (auto simp: process_reconnect_def and_then_Inr_iff)
  then show ?thesis
    using p by (intro that [of ts e1 "e2 @ snd (report_access_log alive m3)"]) (simp_all add: report_access_log_def sort_tunnels_by_busy_def)
qed

lemma keepalive_frame:
  assumes "mgr_keepalive alive url_ok sort_by now m = Inr (m', eff)"
  shows "mg_keepalive_trigger m' = mg_keepalive_trigger m \<and> mg_discarded m' = mg_discarded m"
proof (cases "mg_discarded m")
  case True
  then show ?thesis using assms by (simp add: mgr_keepalive_def)
next
  case False
  then show ?thesis using keepalive_parts [OF assms] by metis
qed

lemma keepalive_tick:
  assumes ok: "mgr_ok (m, c)" and url: "\<And>txt. url_ok txt" and perm: "\<And>cmp xs. mset (sort_by cmp xs) = mset xs"
    and run: "\<not> mg_discarded m" and i: "i < length (mg_tunnels m)" "mg_tunnels m ! i = Some tun" and live: "alive (tn_tx tun)"
  shows "\<exists>m' eff tun'. mgr_keepalive alive url_ok sort_by now m = Inr (m', eff) \<and> mgr_ok (m', c + mset (connects eff)) \<and>
    \<not> mg_discarded m' \<and> mg_keepalive_trigger m' = mg_keepalive_trigger m \<and> i < length (mg_tunnels m') \<and>
    mg_tunnels m' ! i = Some tun' \<and> tn_tx tun' = tn_tx tun \<and> tn_rawfd tun' = tn_rawfd tun \<and>
    (if tn_ping_count tun \<le> 5 then tn_ping_count tun' = tn_ping_count tun + 1 else Tun (ShutdownFd (tn_rawfd tun)) \<in> set eff)"
proof -
  obtain m' eff where k: "mgr_keepalive alive url_ok sort_by now m = Inr (m', eff)" "mgr_ok (m', c + mset (connects eff))"
    using keepalive_ok [where alive = alive and url_ok = url_ok and sort_by = sort_by and now = now, OF ok url perm] by blast
  let ?s = "sort_tunnels_by_busy sort_by m"
  obtain ts e1 e2 where p: "send_pings_to alive now (mg_tunnels ?s) = Inr (ts, e1)" "eff = map Tun e1 @ e2"
    and m': "mg_tunnels m' = ts" "mg_discarded m' = mg_discarded m" "mg_keepalive_trigger m' = mg_keepalive_trigger m"
    using keepalive_parts [OF k(1) run] .
  have at: "mg_tunnels ?s ! i = Some (reset_busy tun)" "length (mg_tunnels ?s) = length (mg_tunnels m)"
    using i by (simp_all add: sort_tunnels_by_busy_def)
  then obtain t' e b where t': "send_ping alive now (reset_busy tun) = Inr (t', e, b)" "ts ! i = Some t'" "length ts = length (mg_tunnels m)"
    "\<not> b \<longrightarrow> ShutdownFd (tn_rawfd t') \<in> set e1"
    using send_pings_to_nth [OF p(1), of i] i(1) by auto
  have "tunnel_ok tun" using ok i by (auto simp: mgr_ok_def mgr_shape_def tunnels_ok_def dest: nth_mem)
  then have "tunnel_ok (reset_busy tun)" by (simp add: reset_busy_def)
  from send_ping_ok [OF this, of alive now] send_ping_rawfd [OF t'(1)]
  show ?thesis using k m' t' i(1) live run p(2) by (auto simp: reset_busy_def)
qed

lemma ticks_total:
  assumes url: "\<And>txt. url_ok txt" and perm: "\<And>cmp xs. mset (sort_by cmp xs) = mset xs"
  shows "mgr_ok (m, c) \<Longrightarrow> \<exists>m' effs. timer_task mg_keepalive_trigger (mgr_keepalive alive url_ok sort_by) ts m = Inr (m', effs) \<and>
    (\<not> mg_discarded m \<longrightarrow> mg_keepalive_trigger m \<longrightarrow> length effs = length ts)"
proof (induction ts arbitrary: m c)
  case (Cons now ts)
  show ?case
  proof (cases "mg_keepalive_trigger m")
    case True
    obtain m1 eff where k: "mgr_keepalive alive url_ok sort_by now m = Inr (m1, eff)" "mgr_ok (m1, c + mset (connects eff))"
      using keepalive_ok [where alive = alive and url_ok = url_ok and sort_by = sort_by and now = now, OF Cons.prems url perm] by blast
    have "mg_keepalive_trigger m1 = mg_keepalive_trigger m \<and> mg_discarded m1 = mg_discarded m" using k(1) by (rule keepalive_frame)
    then show ?thesis using Cons.IH [OF k(2)] k(1) True by auto
  qed simp
qed simp

text \<open>
  A relay that does not answer: the ping counter of its tunnel goes up with each tick, and the tick that
  finds it above five shuts the connection down. With the timer's period that is the seventh tick at
  the latest, 105 seconds after the timer was started.
\<close>

lemma silent_ticks:
  assumes url: "\<And>txt. url_ok txt" and perm: "\<And>cmp xs. mset (sort_by cmp xs) = mset xs"
  shows "mgr_ok (m, c) \<Longrightarrow> \<not> mg_discarded m \<Longrightarrow> mg_keepalive_trigger m \<Longrightarrow> i < length (mg_tunnels m) \<Longrightarrow>
    mg_tunnels m ! i = Some tun \<Longrightarrow> alive (tn_tx tun) \<Longrightarrow> tn_ping_count tun \<le> 6 \<Longrightarrow> 6 - unat (tn_ping_count tun) < length ts \<Longrightarrow>
    \<exists>m' effs. timer_task mg_keepalive_trigger (mgr_keepalive alive url_ok sort_by) ts m = Inr (m', effs) \<and>
      length effs = length ts \<and> Tun (ShutdownFd (tn_rawfd tun)) \<in> set (effs ! (6 - unat (tn_ping_count tun)))"
proof (induction ts arbitrary: m c tun)
  case (Cons now ts)
  let ?p = "unat (tn_ping_count tun)"
  obtain m1 eff tun1 where k: "mgr_keepalive alive url_ok sort_by now m = Inr (m1, eff)" "mgr_ok (m1, c + mset (connects eff))"
    "\<not> mg_discarded m1" "mg_keepalive_trigger m1 = mg_keepalive_trigger m" "i < length (mg_tunnels m1)"
    "mg_tunnels m1 ! i = Some tun1" "tn_tx tun1 = tn_tx tun" "tn_rawfd tun1 = tn_rawfd tun"
    "if tn_ping_count tun \<le> 5 then tn_ping_count tun1 = tn_ping_count tun + 1 else Tun (ShutdownFd (tn_rawfd tun)) \<in> set eff"
    using keepalive_tick [where url_ok = url_ok and sort_by = sort_by and alive = alive and now = now,
        OF Cons.prems(1) url perm Cons.prems(2,4-6)] by blast
  show ?case
  proof (cases "tn_ping_count tun \<le> 5")
    case True
    then have p: "tn_ping_count tun1 = tn_ping_count tun + 1" and le: "?p \<le> 5" using k(9) by (simp_all add: word_le_nat_alt)
    then have n: "unat (tn_ping_count tun1) = ?p + 1" by (subst p, subst unat_add_lem [THEN iffD1]) simp_all
    then have "tn_ping_count tun1 \<le> 6" using le by (simp add: word_le_nat_alt)
    moreover have "6 - unat (tn_ping_count tun1) < length ts" using Cons.prems(8) le by (simp add: n)
    moreover have "mg_keepalive_trigger m1" "alive (tn_tx tun1)" using k(4,7) Cons.prems(3,6) by simp_all
    ultimately obtain m' effs where r: "timer_task mg_keepalive_trigger (mgr_keepalive alive url_ok sort_by) ts m1 = Inr (m', effs)"
      "length effs = length ts" "Tun (ShutdownFd (tn_rawfd tun1)) \<in> set (effs ! (6 - unat (tn_ping_count tun1)))"
      using Cons.IH [OF k(2,3) _ k(5,6)] by blast
    have "6 - ?p = Suc (6 - unat (tn_ping_count tun1))" using le n by simp
    then show ?thesis using k(1,8) r Cons.prems(3) by simp
  next
    case False
    then have six: "?p = 6" using Cons.prems(7) by (simp add: word_le_nat_alt)
    obtain m' effs where r: "timer_task mg_keepalive_trigger (mgr_keepalive alive url_ok sort_by) ts m1 = Inr (m', effs)" "length effs = length ts"
      using ticks_total [where url_ok = url_ok and sort_by = sort_by and alive = alive, OF url perm k(2)] k(3,4) Cons.prems(3) by blast
    then show ?thesis using k(1,9) False six Cons.prems(3) by simp
  qed
qed simp


definition one_tunnel :: tun_mgr where
  "one_tunnel = (tun_mgr_new 0 1 sample_cfg)\<lparr>mg_tunnels := [Some (tunnel_new 0 1 7 0 4 5)]\<rparr>"


end
