(* ===== verification/Udp_X.thy ===== *)
theory Udp_X imports Tun_Mgr "HOL-Library.AList" begin

text \<open>
  \<^verbatim>\<open>src/udpx\<close>: the proxy of intercepted UDP datagrams. A datagram of a client goes to the tunnel manager
  its flow hashes to; a reply leaves through a socket bound to the address the client believes to talk
  to. Those sockets (\<^verbatim>\<open>UStub\<close>) live in a cache that forgets them after a minute without use.
\<close>

section \<open>The delay queue\<close>

text \<open>
  \<^verbatim>\<open>tokio::time::DelayQueue\<close> is not part of the repository: its operations are a parameter. A key is a
  number, a deadline an absolute time in seconds. \<open>dq_reset\<close> and \<open>dq_remove\<close> panic on a key that is not
  in the queue (\<open>None\<close>). Polling at a time gives an expired element, the end of an empty queue, the
  timer's error, or nothing yet.
\<close>

datatype dq_answer = DqPending | DqFinished | DqError | DqExpired socket_addr

record 'q dq_api =
  dq_new :: 'q
  dq_insert :: "'q \<Rightarrow> socket_addr \<Rightarrow> nat \<Rightarrow> 'q \<times> nat"
  dq_reset :: "'q \<Rightarrow> nat \<Rightarrow> nat \<Rightarrow> 'q option"
  dq_remove :: "'q \<Rightarrow> nat \<Rightarrow> 'q option"
  dq_clear :: "'q \<Rightarrow> 'q"
  dq_poll :: "nat \<Rightarrow> 'q \<Rightarrow> 'q \<times> dq_answer"

section \<open>Stubs\<close>

datatype udpx_effect =
    SetUdpTx chan chan
  | UdpProxy chan bytes socket_addr socket_addr nat
  | StubSend chan bytes socket_addr
  | CloseFd nat
  | SpawnStub nat chan socket_addr
  | SpawnKeepalive
  | SpawnServer str

record ustub =
  ub_rawfd :: nat
  ub_tx :: "chan option"
  ub_trigger :: bool
  ub_src_addr :: socket_addr

text \<open>
  What the system gives when a stub's socket is made: an error of \<^verbatim>\<open>sas_socket\<close>, an error of
  \<^verbatim>\<open>UdpSocket::from_std\<close> (which drops, and so closes, the descriptor), or a descriptor and the channel
  that feeds it.
\<close>

datatype sas_result = SasFailed | FromStdFailed nat | SasSocket nat chan

definition start_udp_socket :: "sas_result \<Rightarrow> ustub \<Rightarrow> socket_addr \<Rightarrow> ustub option \<times> udpx_effect list" where
  "start_udp_socket sas stub src_addr =
     (case sas of
        SasFailed \<Rightarrow> (None, [])
      | FromStdFailed rawfd \<Rightarrow> (None, [CloseFd rawfd])
      | SasSocket rawfd tx \<Rightarrow>
          (Some (stub\<lparr>ub_tx := Some tx, ub_trigger := True, ub_rawfd := rawfd\<rparr>), [SpawnStub rawfd tx src_addr]))"

definition ustub_new :: "sas_result \<Rightarrow> socket_addr \<Rightarrow> ustub option \<times> udpx_effect list" where
  "ustub_new sas src_addr =
     start_udp_socket sas \<lparr>ub_rawfd = 0, ub_tx = None, ub_trigger = False, ub_src_addr = src_addr\<rparr> src_addr"

definition ustub_south :: "(chan \<Rightarrow> bool) \<Rightarrow> ustub \<Rightarrow> bytes \<Rightarrow> socket_addr \<Rightarrow> udpx_effect list" where
  "ustub_south alive stub msg dst_addr =
     (case ub_tx stub of
        None \<Rightarrow> []
      | Some tx \<Rightarrow> if alive tx then [StubSend tx msg dst_addr] else [])"

definition ustub_cleanup :: "ustub \<Rightarrow> ustub \<times> udpx_effect list" where
  "ustub_cleanup stub = (stub\<lparr>ub_tx := None, ub_trigger := False\<rparr>, [CloseFd (ub_rawfd stub)])"

section \<open>The cache\<close>

definition TTL_SECS :: nat where "TTL_SECS = 60"

record 'q cache =
  ca_entries :: "(socket_addr \<times> ustub \<times> nat) list"
  ca_expirations :: 'q
  ca_is_in_keepalive :: bool

definition cache_new :: "'q dq_api \<Rightarrow> 'q cache" where
  "cache_new dq = \<lparr>ca_entries = [], ca_expirations = dq_new dq, ca_is_in_keepalive = False\<rparr>"

definition task_keepalive :: "'q cache \<Rightarrow> 'q cache \<times> udpx_effect list" where
  "task_keepalive c = (c\<lparr>ca_is_in_keepalive := True\<rparr>, [SpawnKeepalive])"

definition cache_insert ::
  "'q dq_api \<Rightarrow> nat \<Rightarrow> 'q cache \<Rightarrow> socket_addr \<Rightarrow> ustub \<Rightarrow> 'q cache \<times> udpx_effect list" where
  "cache_insert dq now c key value =
     (case dq_insert dq (ca_expirations c) key (now + TTL_SECS) of
        (q, delay) \<Rightarrow>
          let c = c\<lparr>ca_expirations := q, ca_entries := AList.update key (value, delay) (ca_entries c)\<rparr> in
          if \<not> ca_is_in_keepalive c then task_keepalive c else (c, []))"

definition cache_get ::
  "'q dq_api \<Rightarrow> nat \<Rightarrow> 'q cache \<Rightarrow> socket_addr \<Rightarrow> ('q cache \<times> ustub option) res" where
  "cache_get dq now c key =
     (case map_of (ca_entries c) key of
        Some (v, k) \<Rightarrow>
          and_then (unwrap (dq_reset dq (ca_expirations c) k (now + TTL_SECS))) (\<lambda>q.
          Inr (c\<lparr>ca_expirations := q\<rparr>, Some v))
      | None \<Rightarrow> Inr (c, None))"

text \<open>\<^verbatim>\<open>drain\<close> visits the entries in an order of its own; the model takes that of the list.\<close>

definition cache_cleanup :: "'q dq_api \<Rightarrow> 'q cache \<Rightarrow> 'q cache \<times> udpx_effect list" where
  "cache_cleanup dq c =
     (c\<lparr>ca_expirations := dq_clear dq (ca_expirations c), ca_entries := []\<rparr>,
      concat (map (\<lambda>(_, v, _). snd (ustub_cleanup v)) (ca_entries c)))"

definition cache_remove :: "'q dq_api \<Rightarrow> 'q cache \<Rightarrow> socket_addr \<Rightarrow> 'q cache res" where
  "cache_remove dq c key =
     (case map_of (ca_entries c) key of
        Some (_, cache_key) \<Rightarrow>
          let c = c\<lparr>ca_entries := AList.delete key (ca_entries c)\<rparr> in
          and_then (unwrap (dq_remove dq (ca_expirations c) cache_key)) (\<lambda>q. Inr (c\<lparr>ca_expirations := q\<rparr>))
      | None \<Rightarrow> Inr c)"

text \<open>\<open>PurgeReady True\<close> is \<^verbatim>\<open>Ready(Ok(()))\<close>, \<open>PurgeReady False\<close> the timer's error.\<close>

datatype purge_poll = PurgePending | PurgeReady bool

definition purge_entry :: "'q cache \<Rightarrow> socket_addr \<Rightarrow> 'q cache \<times> udpx_effect list" where
  "purge_entry c a =
     (case map_of (ca_entries c) a of
        Some (stub, _) \<Rightarrow> (c\<lparr>ca_entries := AList.delete a (ca_entries c)\<rparr>, snd (ustub_cleanup stub))
      | None \<Rightarrow> (c, []))"

partial_function (option) purge_loop ::
  "'q dq_api \<Rightarrow> nat \<Rightarrow> 'q cache \<Rightarrow> udpx_effect list \<Rightarrow> ('q cache \<times> udpx_effect list \<times> purge_poll) option" where
  "purge_loop dq now c eff =
     (case dq_poll dq now (ca_expirations c) of
        (q, DqPending) \<Rightarrow> Some (c\<lparr>ca_expirations := q\<rparr>, eff, PurgePending)
      | (q, DqFinished) \<Rightarrow> Some (c\<lparr>ca_expirations := q\<rparr>, eff, PurgeReady True)
      | (q, DqError) \<Rightarrow> Some (c\<lparr>ca_expirations := q\<rparr>, eff, PurgeReady False)
      | (q, DqExpired a) \<Rightarrow>
          (case purge_entry (c\<lparr>ca_expirations := q\<rparr>) a of
             (c, closed) \<Rightarrow> purge_loop dq now c (eff @ closed)))"

definition poll_purge ::
  "'q dq_api \<Rightarrow> nat \<Rightarrow> 'q cache \<Rightarrow> ('q cache \<times> udpx_effect list \<times> purge_poll) option" where
  "poll_purge dq now c = purge_loop dq now c []"

text \<open>One poll of the future \<^verbatim>\<open>task_keepalive\<close> spawns.\<close>

definition keepalive_poll ::
  "'q dq_api \<Rightarrow> nat \<Rightarrow> 'q cache \<Rightarrow> ('q cache \<times> udpx_effect list) option" where
  "keepalive_poll dq now c =
     (case poll_purge dq now c of
        None \<Rightarrow> None
      | Some (c, eff, PurgePending) \<Rightarrow> Some (c, eff)
      | Some (c, eff, PurgeReady _) \<Rightarrow> Some (c\<lparr>ca_is_in_keepalive := False\<rparr>, eff))"

section \<open>Reading intercepted datagrams\<close>

definition INITIAL_RD_CAPACITY :: nat where "INITIAL_RD_CAPACITY = 640"

text \<open>
  \<^verbatim>\<open>UdpSocketEx\<close>: \<open>sys\<close> is what \<^verbatim>\<open>recv_sas\<close> answers for a buffer of the given length: that nothing is
  there, an error, or the bytes it put into the buffer with the two addresses it could tell. \<open>spare\<close> is
  the room the read buffer has after \<^verbatim>\<open>reserve(INITIAL_RD_CAPACITY)\<close>.
\<close>

datatype sas_recv = RecvWouldBlock | RecvFailed | RecvGot bytes "socket_addr option" "socket_addr option"

datatype udp_poll = UdpPending | UdpFailed | UdpReady bytes socket_addr socket_addr

definition poll_recv_from :: "(nat \<Rightarrow> sas_recv) \<Rightarrow> nat \<Rightarrow> udp_poll res" where
  "poll_recv_from sys len =
     (case sys len of
        RecvWouldBlock \<Rightarrow> Inr UdpPending
      | RecvFailed \<Rightarrow> Inr UdpFailed
      | RecvGot bs src_addr dst_addr \<Rightarrow>
          and_then (unwrap src_addr) (\<lambda>src_addr.
          and_then (unwrap dst_addr) (\<lambda>dst_addr.
          Inr (UdpReady bs src_addr dst_addr))))"

definition udp_poll_next :: "(nat \<Rightarrow> sas_recv) \<Rightarrow> nat \<Rightarrow> bytes \<Rightarrow> (bytes \<times> udp_poll) res" where
  "udp_poll_next sys spare rd =
     and_then (poll_recv_from sys spare) (\<lambda>r.
     case r of
       UdpReady bs saddr daddr \<Rightarrow>
         let rd = rd @ bs; len = length rd; out = take len rd in
         Inr ([], UdpReady out saddr daddr)
     | _ \<Rightarrow> Inr (rd, r))"

section \<open>The server and the manager\<close>

text \<open>
  Starting a server parses the address, binds, and asks for transparency and original destinations; the
  last is in \<^verbatim>\<open>UdpSocketEx::new\<close>, whose \<^verbatim>\<open>unwrap\<close> panics.
\<close>

datatype server_bind = BindFailed | RecvOptionFailed | BindOk

record x_server =
  xs_listen_addr :: str
  xs_tx :: bool

definition x_server_start :: "(str \<Rightarrow> server_bind) \<Rightarrow> x_server \<Rightarrow> (x_server \<times> udpx_effect list \<times> bool) res" where
  "x_server_start bind s =
     (case bind (xs_listen_addr s) of
        BindFailed \<Rightarrow> Inr (s, [], False)
      | RecvOptionFailed \<Rightarrow> Inl Panicked
      | BindOk \<Rightarrow> Inr (s\<lparr>xs_tx := True\<rparr>, [SpawnServer (xs_listen_addr s)], True))"

definition x_server_stop :: "x_server \<Rightarrow> x_server" where
  "x_server_stop s = s\<lparr>xs_tx := False\<rparr>"

text \<open>A \<^verbatim>\<open>TunMgrStub\<close> is the channel of its manager's thread.\<close>

record 'q udpx_mgr =
  um_tmstubs :: "chan list"
  um_ctl_tx :: chan
  um_server :: x_server
  um_server6 :: x_server
  um_cache :: "'q cache"

definition udpx_mgr_new :: "'q dq_api \<Rightarrow> chan list \<Rightarrow> chan \<Rightarrow> 'q udpx_mgr" where
  "udpx_mgr_new dq tmstubs ctl_tx =
     \<lparr>um_tmstubs = tmstubs, um_ctl_tx = ctl_tx,
      um_server = \<lparr>xs_listen_addr = LOCAL_SERVER @ lit '':'' @ dec_digits (unat LOCAL_TPROXY_SERVER_PORT), xs_tx = False\<rparr>,
      um_server6 = \<lparr>xs_listen_addr = lit ''[::1]:'' @ dec_digits (unat LOCAL_TPROXY_SERVER_PORT), xs_tx = False\<rparr>,
      um_cache = cache_new dq\<rparr>"

definition udpx_mgr_init ::
  "(chan \<Rightarrow> bool) \<Rightarrow> (str \<Rightarrow> server_bind) \<Rightarrow> 'q udpx_mgr \<Rightarrow> ('q udpx_mgr \<times> udpx_effect list \<times> bool) res" where
  "udpx_mgr_init alive bind m =
     (let eff = map (\<lambda>tm. SetUdpTx tm (um_ctl_tx m)) (filter alive (um_tmstubs m)) in
      and_then (x_server_start bind (um_server m)) (\<lambda>(s, eff1, ok).
      let m = m\<lparr>um_server := s\<rparr> in
      if \<not> ok then Inr (m, eff @ eff1, False)
      else
        and_then (x_server_start bind (um_server6 m)) (\<lambda>(s6, eff2, ok).
        Inr (m\<lparr>um_server6 := s6\<rparr>, eff @ eff1 @ eff2, ok))))"

definition udpx_mgr_stop :: "'q dq_api \<Rightarrow> 'q udpx_mgr \<Rightarrow> 'q udpx_mgr \<times> udpx_effect list" where
  "udpx_mgr_stop dq m =
     (case cache_cleanup dq (um_cache m) of
        (c, eff) \<Rightarrow>
          (m\<lparr>um_tmstubs := [], um_server := x_server_stop (um_server m),
             um_server6 := x_server_stop (um_server6 m), um_cache := c\<rparr>, eff))"

text \<open>The FNV hash of a pair of addresses (the \<^verbatim>\<open>fnv\<close> crate) is a parameter.\<close>

type_synonym flow_hash = "socket_addr \<Rightarrow> socket_addr \<Rightarrow> u64"

definition calc_hash_code :: "flow_hash \<Rightarrow> socket_addr \<Rightarrow> socket_addr \<Rightarrow> nat" where
  "calc_hash_code fnv src_addr dst_addr = unat (fnv src_addr dst_addr)"

definition on_udp_msg_forward ::
  "(chan \<Rightarrow> bool) \<Rightarrow> flow_hash \<Rightarrow> 'q udpx_mgr \<Rightarrow> bytes \<Rightarrow> socket_addr \<Rightarrow> socket_addr \<Rightarrow> udpx_effect list res" where
  "on_udp_msg_forward alive fnv m msg src_addr dst_addr =
     (if length (um_tmstubs m) < 1 then Inr []
      else
        let hash_code = calc_hash_code fnv src_addr dst_addr;
            tm_index = hash_code mod length (um_tmstubs m) in
        and_then (vec_get (um_tmstubs m) tm_index) (\<lambda>tx.
        Inr (if alive tx then [UdpProxy tx msg src_addr dst_addr hash_code] else [])))"

definition build_ustub ::
  "'q dq_api \<Rightarrow> nat \<Rightarrow> sas_result \<Rightarrow> 'q cache \<Rightarrow> socket_addr \<Rightarrow> 'q cache \<times> udpx_effect list" where
  "build_ustub dq now sas c src_addr =
     (case ustub_new sas src_addr of
        (Some ustub, eff) \<Rightarrow> (case cache_insert dq now c src_addr ustub of (c, eff2) \<Rightarrow> (c, eff @ eff2))
      | (None, eff) \<Rightarrow> (c, eff))"

definition on_udp_proxy_south ::
  "'q dq_api \<Rightarrow> (chan \<Rightarrow> bool) \<Rightarrow> nat \<Rightarrow> sas_result \<Rightarrow> 'q udpx_mgr \<Rightarrow> bytes \<Rightarrow> socket_addr \<Rightarrow> socket_addr
   \<Rightarrow> ('q udpx_mgr \<times> udpx_effect list) res" where
  "on_udp_proxy_south dq alive now sas m msg src_addr dst_addr =
     and_then (cache_get dq now (um_cache m) src_addr) (\<lambda>(c, stub).
     and_then
       (if stub = None then
          (case build_ustub dq now sas c src_addr of
             (c, eff) \<Rightarrow> and_then (cache_get dq now c src_addr) (\<lambda>(c, stub). Inr (c, stub, eff)))
        else Inr (c, stub, [])) (\<lambda>(c, stub, eff).
     case stub of
       Some stub \<Rightarrow> Inr (m\<lparr>um_cache := c\<rparr>, eff @ ustub_south alive stub msg dst_addr)
     | None \<Rightarrow> Inr (m\<lparr>um_cache := c\<rparr>, eff)))"

definition on_ustub_closed :: "'q dq_api \<Rightarrow> 'q udpx_mgr \<Rightarrow> socket_addr \<Rightarrow> 'q udpx_mgr res" where
  "on_ustub_closed dq m src_addr =
     and_then (cache_remove dq (um_cache m) src_addr) (\<lambda>c. Inr (m\<lparr>um_cache := c\<rparr>))"

section \<open>The cache is a map with a time to live\<close>

text \<open>
  What is documented of the delay queue, over the elements \<open>pend\<close> says are in it: an insertion uses a
  fresh key, a key in the queue may be reset or removed, a poll takes out one element whose deadline has
  come, is pending only when there is none, and ends only when the queue is empty.
\<close>

definition dq_ok :: "'q dq_api \<Rightarrow> ('q \<Rightarrow> nat \<Rightarrow> (socket_addr \<times> nat) option) \<Rightarrow> bool" where
  "dq_ok dq pend \<longleftrightarrow>
     pend (dq_new dq) = Map.empty \<and>
     (\<forall>q a d q' k. dq_insert dq q a d = (q', k) \<longrightarrow> pend q k = None \<and> pend q' = (pend q)(k \<mapsto> (a, d))) \<and>
     (\<forall>q k a d d'. pend q k = Some (a, d) \<longrightarrow>
        (\<exists>q'. dq_reset dq q k d' = Some q' \<and> pend q' = (pend q)(k \<mapsto> (a, d')))) \<and>
     (\<forall>q k e. pend q k = Some e \<longrightarrow> (\<exists>q'. dq_remove dq q k = Some q' \<and> pend q' = (pend q)(k := None))) \<and>
     (\<forall>q. pend (dq_clear dq q) = Map.empty) \<and>
     (\<forall>now q q' r. dq_poll dq now q = (q', r) \<longrightarrow>
        r = DqPending \<and> pend q' = pend q \<and> (\<forall>k a d. pend q k = Some (a, d) \<longrightarrow> now < d)
        \<or> r = DqFinished \<and> pend q' = pend q \<and> pend q = Map.empty
        \<or> (\<exists>a k d. r = DqExpired a \<and> pend q k = Some (a, d) \<and> d \<le> now \<and> pend q' = (pend q)(k := None)))"

text \<open>Entries and pending elements name each other; \<open>joined\<close> reads both together.\<close>

definition linked :: "('a \<Rightarrow> ('v \<times> 'k) option) \<Rightarrow> ('k \<Rightarrow> ('a \<times> nat) option) \<Rightarrow> bool" where
  "linked E P \<longleftrightarrow> finite (dom P) \<and> (\<forall>a v k. E a = Some (v, k) \<longrightarrow> (\<exists>d. P k = Some (a, d)))
     \<and> (\<forall>k a d. P k = Some (a, d) \<longrightarrow> (\<exists>v. E a = Some (v, k)))"

definition joined :: "('a \<Rightarrow> ('v \<times> 'k) option) \<Rightarrow> ('k \<Rightarrow> ('a \<times> nat) option) \<Rightarrow> 'a \<Rightarrow> ('v \<times> nat) option" where
  "joined E P a = (case E a of None \<Rightarrow> None | Some (v, k) \<Rightarrow> map_option (\<lambda>(_, d). (v, d)) (P k))"

lemma linkedD:
  assumes "linked E P"
  shows "finite (dom P)" "E a = Some (v, k) \<Longrightarrow> \<exists>d. P k = Some (a, d)"
    "P k = Some (a, d) \<Longrightarrow> \<exists>v. E a = Some (v, k)"
  using assms by (auto simp: linked_def)

lemma linked_key:
  assumes "linked E P" "E a = Some (v, k)" "E b = Some (w, k)"
  shows "a = b"
  using linkedD(2) [OF assms(1,2)] linkedD(2) [OF assms(1,3)] by auto

lemma joined_Some: "linked E P \<Longrightarrow> E a = Some (v, k) \<Longrightarrow> \<exists>d. P k = Some (a, d) \<and> joined E P a = Some (v, d)"
  using linkedD(2) by (fastforce simp: joined_def)

lemma joined_None: "linked E P \<Longrightarrow> joined E P a = None \<longleftrightarrow> E a = None"
  using linkedD(2) by (fastforce simp: joined_def split: option.splits)

lemma linked_renew:
  assumes "linked E P" "E a = Some (v, k)"
  shows "linked E (P(k \<mapsto> (a, d))) \<and> joined E (P(k \<mapsto> (a, d))) = (joined E P)(a \<mapsto> (v, d))"
proof
  show "linked E (P(k \<mapsto> (a, d)))"
    unfolding linked_def
  proof (intro conjI allI impI)
    show "finite (dom (P(k \<mapsto> (a, d))))" using linkedD(1) [OF assms(1)] by simp
  next
    fix b w j assume "E b = Some (w, j)"
    then show "\<exists>e. (P(k \<mapsto> (a, d))) j = Some (b, e)"
      using linkedD(2) [OF assms(1), of b w j] linked_key [OF assms(1,2), of b w] by auto
  next
    fix j b e assume "(P(k \<mapsto> (a, d))) j = Some (b, e)"
    then show "\<exists>w. E b = Some (w, j)"
      using assms(2) linkedD(3) [OF assms(1), of j b e] by (auto split: if_splits)
  qed
  show "joined E (P(k \<mapsto> (a, d))) = (joined E P)(a \<mapsto> (v, d))"
    using assms(2) linked_key [OF assms] by (fastforce simp: joined_def split: option.splits)
qed

lemma linked_insert:
  assumes "linked E P" "E a = None" "P k = None"
  shows "linked (E(a \<mapsto> (v, k))) (P(k \<mapsto> (a, d))) \<and>
    joined (E(a \<mapsto> (v, k))) (P(k \<mapsto> (a, d))) = (joined E P)(a \<mapsto> (v, d))"
proof
  have fresh: "j \<noteq> k" if "E b = Some (w, j)" for b w j
    using linkedD(2) [OF assms(1) that] assms(3) by auto
  show "linked (E(a \<mapsto> (v, k))) (P(k \<mapsto> (a, d)))"
    unfolding linked_def
  proof (intro conjI allI impI)
    show "finite (dom (P(k \<mapsto> (a, d))))" using linkedD(1) [OF assms(1)] by simp
  next
    fix b w j assume "(E(a \<mapsto> (v, k))) b = Some (w, j)"
    then show "\<exists>e. (P(k \<mapsto> (a, d))) j = Some (b, e)"
      using linkedD(2) [OF assms(1), of b w j] fresh [of b w j] by (auto split: if_splits)
  next
    fix j b e assume "(P(k \<mapsto> (a, d))) j = Some (b, e)"
    then show "\<exists>w. (E(a \<mapsto> (v, k))) b = Some (w, j)"
      using assms(2) linkedD(3) [OF assms(1), of j b e] by (auto split: if_splits)
  qed
  show "joined (E(a \<mapsto> (v, k))) (P(k \<mapsto> (a, d))) = (joined E P)(a \<mapsto> (v, d))"
    using fresh by (fastforce simp: joined_def split: option.splits)
qed

lemma linked_remove:
  assumes "linked E P" "E a = Some (v, k)"
  shows "linked (E(a := None)) (P(k := None)) \<and> joined (E(a := None)) (P(k := None)) = (joined E P)(a := None)"
proof
  show "linked (E(a := None)) (P(k := None))"
    unfolding linked_def
  proof (intro conjI allI impI)
    show "finite (dom (P(k := None)))" using linkedD(1) [OF assms(1)] by simp
  next
    fix b w j assume "(E(a := None)) b = Some (w, j)"
    then show "\<exists>e. (P(k := None)) j = Some (b, e)"
      using linkedD(2) [OF assms(1), of b w j] linked_key [OF assms, of b w] by (auto split: if_splits)
  next
    fix j b e assume "(P(k := None)) j = Some (b, e)"
    then show "\<exists>w. (E(a := None)) b = Some (w, j)"
      using assms(2) linkedD(2) [OF assms] linkedD(3) [OF assms(1), of j b e] by (auto split: if_splits)
  qed
  show "joined (E(a := None)) (P(k := None)) = (joined E P)(a := None)"
    using linked_key [OF assms] by (fastforce simp: joined_def split: option.splits)
qed

definition cached ::
  "('q \<Rightarrow> nat \<Rightarrow> (socket_addr \<times> nat) option) \<Rightarrow> 'q cache \<Rightarrow> socket_addr \<Rightarrow> (ustub \<times> nat) option" where
  "cached pend c = joined (map_of (ca_entries c)) (pend (ca_expirations c))"

definition cache_ok :: "('q \<Rightarrow> nat \<Rightarrow> (socket_addr \<times> nat) option) \<Rightarrow> 'q cache \<Rightarrow> bool" where
  "cache_ok pend c \<longleftrightarrow> linked (map_of (ca_entries c)) (pend (ca_expirations c))
     \<and> distinct (map fst (ca_entries c)) \<and> (ca_entries c \<noteq> [] \<longrightarrow> ca_is_in_keepalive c)"

lemma dq_okD:
  assumes "dq_ok dq pend"
  shows "pend (dq_new dq) = Map.empty"
    "dq_insert dq q a d = (q', k) \<Longrightarrow> pend q k = None \<and> pend q' = (pend q)(k \<mapsto> (a, d))"
    "pend q k = Some (a, d) \<Longrightarrow> \<exists>q'. dq_reset dq q k d' = Some q' \<and> pend q' = (pend q)(k \<mapsto> (a, d'))"
    "pend q k = Some e \<Longrightarrow> \<exists>q'. dq_remove dq q k = Some q' \<and> pend q' = (pend q)(k := None)"
    "pend (dq_clear dq q) = Map.empty"
    "dq_poll dq now q = (q', r) \<Longrightarrow>
       r = DqPending \<and> pend q' = pend q \<and> (\<forall>k a d. pend q k = Some (a, d) \<longrightarrow> now < d)
       \<or> r = DqFinished \<and> pend q' = pend q \<and> pend q = Map.empty
       \<or> (\<exists>a k d. r = DqExpired a \<and> pend q k = Some (a, d) \<and> d \<le> now \<and> pend q' = (pend q)(k := None))"
  using assms unfolding dq_ok_def by (simp_all only: simp_thms)

lemma cache_new_ok: "dq_ok dq pend \<Longrightarrow> cache_ok pend (cache_new dq) \<and> cached pend (cache_new dq) = Map.empty"
  by (simp add: dq_okD(1) cache_ok_def cache_new_def cached_def linked_def joined_def fun_eq_iff)

lemma cache_get_ok:
  assumes "dq_ok dq pend" "cache_ok pend c"
  shows "\<exists>c'. cache_get dq now c a = Inr (c', map_option fst (cached pend c a)) \<and> cache_ok pend c' \<and>
    cached pend c' = (case cached pend c a of None \<Rightarrow> cached pend c
      | Some (v, _) \<Rightarrow> (cached pend c)(a \<mapsto> (v, now + TTL_SECS)))"
proof (cases "map_of (ca_entries c) a")
  case None
  then show ?thesis using assms(2) by (simp add: cache_get_def cached_def joined_def)
next
  case (Some e)
  obtain v k where e: "map_of (ca_entries c) a = Some (v, k)" using Some by (cases e) auto
  have l: "linked (map_of (ca_entries c)) (pend (ca_expirations c))" using assms(2) by (simp add: cache_ok_def)
  obtain d where d: "pend (ca_expirations c) k = Some (a, d)" "cached pend c a = Some (v, d)"
    using joined_Some [OF l e] unfolding cached_def by blast
  obtain q where q: "dq_reset dq (ca_expirations c) k (now + TTL_SECS) = Some q"
    "pend q = (pend (ca_expirations c))(k \<mapsto> (a, now + TTL_SECS))"
    using dq_okD(3) [OF assms(1) d(1)] by blast
  show ?thesis
    using e d q linked_renew [OF l e, of "now + TTL_SECS"] assms(2)
    by (simp add: cache_get_def cache_ok_def cached_def)
qed

lemma cache_insert_ok:
  assumes "dq_ok dq pend" "cache_ok pend c" "cached pend c a = None"
  shows "\<exists>c' eff. cache_insert dq now c a v = (c', eff) \<and> set eff \<subseteq> {SpawnKeepalive} \<and> cache_ok pend c' \<and>
    cached pend c' = (cached pend c)(a \<mapsto> (v, now + TTL_SECS))"
proof -
  obtain q k where q: "dq_insert dq (ca_expirations c) a (now + TTL_SECS) = (q, k)" by fastforce
  note p = dq_okD(2) [OF assms(1) q]
  have l: "linked (map_of (ca_entries c)) (pend (ca_expirations c))" using assms(2) by (simp add: cache_ok_def)
  have "map_of (ca_entries c) a = None" using assms(3) joined_None [OF l] by (simp add: cached_def)
  from linked_insert [OF l this, of k v "now + TTL_SECS"] p
  moreover have "distinct (map fst (ca_entries c))" using assms(2) by (simp add: cache_ok_def)
  ultimately show ?thesis
    using q by (cases "ca_is_in_keepalive c")
      (simp_all add: cache_insert_def task_keepalive_def cache_ok_def cached_def update_conv' distinct_update Let_def)
qed

lemma cache_remove_ok:
  assumes "dq_ok dq pend" "cache_ok pend c"
  shows "\<exists>c'. cache_remove dq c a = Inr c' \<and> cache_ok pend c' \<and> cached pend c' = (cached pend c)(a := None)"
proof (cases "map_of (ca_entries c) a")
  case None
  then show ?thesis using assms(2) by (auto simp: cache_remove_def cached_def joined_def)
next
  case (Some e)
  obtain v k where e: "map_of (ca_entries c) a = Some (v, k)" using Some by (cases e) auto
  have l: "linked (map_of (ca_entries c)) (pend (ca_expirations c))" using assms(2) by (simp add: cache_ok_def)
  obtain d where d: "pend (ca_expirations c) k = Some (a, d)" using linkedD(2) [OF l e] by blast
  obtain q where q: "dq_remove dq (ca_expirations c) k = Some q" "pend q = (pend (ca_expirations c))(k := None)"
    using dq_okD(4) [OF assms(1) d] by blast
  have "ca_is_in_keepalive c" "distinct (map fst (ca_entries c))" using e assms(2) unfolding cache_ok_def by auto
  then show ?thesis
    using e q linked_remove [OF l e] by (simp add: cache_remove_def cache_ok_def cached_def delete_conv' distinct_delete)
qed

text \<open>A poll removes what has expired, closes its sockets, and returns.\<close>

definition expired_fds :: "(socket_addr \<Rightarrow> (ustub \<times> nat) option) \<Rightarrow> nat \<Rightarrow> udpx_effect set" where
  "expired_fds T now = {CloseFd (ub_rawfd v) | a v d. T a = Some (v, d) \<and> d \<le> now}"

definition unexpired :: "('a \<Rightarrow> ('v \<times> nat) option) \<Rightarrow> nat \<Rightarrow> 'a \<Rightarrow> ('v \<times> nat) option" where
  "unexpired T now a = (case T a of Some (v, d) \<Rightarrow> if d \<le> now then None else Some (v, d) | None \<Rightarrow> None)"

lemma unexpired_remove:
  "T a = Some (v, d) \<Longrightarrow> d \<le> now \<Longrightarrow> unexpired (T(a := None)) now = unexpired T now"
  by (auto simp: unexpired_def fun_eq_iff)

lemma expired_fds_remove:
  assumes "T a = Some (v, d)" "d \<le> now"
  shows "expired_fds T now = insert (CloseFd (ub_rawfd v)) (expired_fds (T(a := None)) now)"
proof (rule set_eqI)
  fix x
  show "x \<in> expired_fds T now \<longleftrightarrow> x \<in> insert (CloseFd (ub_rawfd v)) (expired_fds (T(a := None)) now)"
  proof
    assume "x \<in> expired_fds T now"
    then obtain b w e where b: "x = CloseFd (ub_rawfd w)" "T b = Some (w, e)" "e \<le> now"
      by (auto simp: expired_fds_def)
    show "x \<in> insert (CloseFd (ub_rawfd v)) (expired_fds (T(a := None)) now)"
    proof (cases "b = a")
      case True then show ?thesis using b assms by simp
    next
      case False
      then have "(T(a := None)) b = Some (w, e)" using b by simp
      then show ?thesis using b unfolding expired_fds_def by blast
    qed
  next
    assume "x \<in> insert (CloseFd (ub_rawfd v)) (expired_fds (T(a := None)) now)"
    then show "x \<in> expired_fds T now" using assms by (fastforce simp: expired_fds_def split: if_splits)
  qed
qed

lemma purge_loop_ok:
  assumes "dq_ok dq pend" "linked (map_of (ca_entries c)) (pend (ca_expirations c))" "distinct (map fst (ca_entries c))"
  shows "\<exists>c' eff' r. purge_loop dq now c eff = Some (c', eff @ eff', r) \<and> r \<noteq> PurgeReady False \<and>
    linked (map_of (ca_entries c')) (pend (ca_expirations c')) \<and> distinct (map fst (ca_entries c')) \<and>
    (r = PurgeReady True \<longrightarrow> ca_entries c' = []) \<and> ca_is_in_keepalive c' = ca_is_in_keepalive c \<and>
    cached pend c' = unexpired (cached pend c) now \<and> set eff' = expired_fds (cached pend c) now"
  using assms(2,3)
proof (induction "card (dom (pend (ca_expirations c)))" arbitrary: c eff rule: less_induct)
  case less
  obtain q r where p: "dq_poll dq now (ca_expirations c) = (q, r)" by fastforce
  note l = less.prems(1)
  from dq_okD(6) [OF assms(1) p] consider
      "r = DqPending" "pend q = pend (ca_expirations c)" "\<forall>k a d. pend (ca_expirations c) k = Some (a, d) \<longrightarrow> now < d"
    | "r = DqFinished" "pend q = pend (ca_expirations c)" "pend (ca_expirations c) = Map.empty"
    | a k d where "r = DqExpired a" "pend (ca_expirations c) k = Some (a, d)" "d \<le> now"
        "pend q = (pend (ca_expirations c))(k := None)"
    by blast
  then show ?case
  proof cases
    case 1
    have late: "now < d" if "cached pend c a = Some (v, d)" for a v d
      using that 1(3) by (auto simp: cached_def joined_def split: option.splits)
    then have "unexpired (cached pend c) now = cached pend c" "expired_fds (cached pend c) now = {}"
      by (fastforce simp: unexpired_def expired_fds_def fun_eq_iff split: option.splits)+
    then show ?thesis using p 1 less.prems by (subst purge_loop.simps) (simp add: cached_def)
  next
    case 2
    have "map_of (ca_entries c) = Map.empty"
      using linkedD(2) [OF l] 2(3) by (auto simp: fun_eq_iff) (metis not_Some_eq surj_pair)
    then have n: "ca_entries c = []" by (cases "ca_entries c") auto
    then have "unexpired (cached pend c) now = cached pend c" "expired_fds (cached pend c) now = {}"
      by (auto simp: unexpired_def expired_fds_def cached_def joined_def fun_eq_iff)
    then show ?thesis using p 2 less.prems n by (subst purge_loop.simps) (simp add: cached_def)
  next
    case 3
    obtain v where e: "map_of (ca_entries c) a = Some (v, k)" using linkedD(3) [OF l 3(2)] by blast
    have T: "cached pend c a = Some (v, d)" using joined_Some [OF l e] 3(2) by (auto simp: cached_def)
    let ?c = "c\<lparr>ca_expirations := q, ca_entries := AList.delete a (ca_entries c)\<rparr>"
    have pe: "purge_entry (c\<lparr>ca_expirations := q\<rparr>) a = (?c, [CloseFd (ub_rawfd v)])"
      using e by (simp add: purge_entry_def ustub_cleanup_def)
    have l': "linked (map_of (ca_entries ?c)) (pend (ca_expirations ?c))"
      "cached pend ?c = (cached pend c)(a := None)"
      using linked_remove [OF l e] 3(4) by (simp_all add: delete_conv' cached_def)
    have "card (dom (pend (ca_expirations ?c))) < card (dom (pend (ca_expirations c)))"
      using linkedD(1) [OF l] 3(2,4) by (intro psubset_card_mono) auto
    note smaller = this
    have "distinct (map fst (ca_entries ?c))" using less.prems(2) by (simp add: distinct_delete)
    from less.hyps [OF smaller l'(1) this, of "eff @ [CloseFd (ub_rawfd v)]"]
    obtain c' eff' s where IH: "purge_loop dq now ?c (eff @ [CloseFd (ub_rawfd v)]) =
        Some (c', (eff @ [CloseFd (ub_rawfd v)]) @ eff', s)" "s \<noteq> PurgeReady False"
      "linked (map_of (ca_entries c')) (pend (ca_expirations c'))" "distinct (map fst (ca_entries c'))" "s = PurgeReady True \<longrightarrow> ca_entries c' = []"
      "ca_is_in_keepalive c' = ca_is_in_keepalive ?c"
      "cached pend c' = unexpired (cached pend ?c) now" "set eff' = expired_fds (cached pend ?c) now"
      by blast
    have "purge_loop dq now c eff = Some (c', eff @ (CloseFd (ub_rawfd v) # eff'), s)"
      using p 3(1) pe IH(1) by (subst purge_loop.simps) simp
    moreover have "cached pend c' = unexpired (cached pend c) now"
      "set (CloseFd (ub_rawfd v) # eff') = expired_fds (cached pend c) now"
      using IH(7,8) l'(2) unexpired_remove [where T = "cached pend c", OF T 3(3)]
      expired_fds_remove [where T = "cached pend c", OF T 3(3)] by simp_all
    ultimately show ?thesis using IH(2-6) by fastforce
  qed
qed

lemma keepalive_poll_ok:
  assumes "dq_ok dq pend" "cache_ok pend c"
  shows "\<exists>c' eff. keepalive_poll dq now c = Some (c', eff) \<and> cache_ok pend c' \<and>
    cached pend c' = unexpired (cached pend c) now \<and> set eff = expired_fds (cached pend c) now"
proof -
  obtain c' eff r where p: "purge_loop dq now c [] = Some (c', eff, r)" "r \<noteq> PurgeReady False"
    "linked (map_of (ca_entries c')) (pend (ca_expirations c'))" "distinct (map fst (ca_entries c'))"
    "r = PurgeReady True \<longrightarrow> ca_entries c' = []"
    "ca_is_in_keepalive c' = ca_is_in_keepalive c"
    "cached pend c' = unexpired (cached pend c) now" "set eff = expired_fds (cached pend c) now"
    using purge_loop_ok [OF assms(1), of c now "[]"] assms(2) by (auto simp: cache_ok_def)
  have keep: "ca_entries c' \<noteq> [] \<longrightarrow> ca_is_in_keepalive c'"
  proof
    assume "ca_entries c' \<noteq> []"
    then obtain a e xs where "ca_entries c' = (a, e) # xs" by (cases "ca_entries c'") auto
    then have "map_of (ca_entries c') a = Some e" by simp
    then have "cached pend c' a \<noteq> None" using joined_None [OF p(3)] by (simp add: cached_def)
    then have "cached pend c a \<noteq> None" using p(7) by (auto simp: unexpired_def split: option.splits)
    then have "ca_entries c \<noteq> []" by (auto simp: cached_def joined_def)
    then show "ca_is_in_keepalive c'" using assms(2) p(6) by (simp add: cache_ok_def)
  qed
  show ?thesis
  proof (cases r)
    case PurgePending
    then show ?thesis using p keep by (simp add: keepalive_poll_def poll_purge_def cache_ok_def)
  next
    case (PurgeReady b)
    then have "ca_entries c' = []" using p(2,5) by auto
    then show ?thesis
      using PurgeReady p by (simp add: keepalive_poll_def poll_purge_def cache_ok_def cached_def)
  qed
qed

section \<open>Runs of the manager\<close>

text \<open>What happens to the cache: a reply from the relay, the purge, the end of a stub's future, the stop.\<close>

datatype ux_event =
    UxSouth nat sas_result bytes socket_addr socket_addr
  | UxPurge nat
  | UxStubEnded nat socket_addr
  | UxStop

text \<open>
  The future a stub spawns ends when its channel is dropped, its trigger fires or its socket fails. It
  owns the socket, which it closes by dropping it, and then tells the manager the address.
\<close>

definition stub_future_end ::
  "'q dq_api \<Rightarrow> 'q udpx_mgr \<Rightarrow> nat \<Rightarrow> socket_addr \<Rightarrow> ('q udpx_mgr \<times> udpx_effect list) res" where
  "stub_future_end dq m rawfd target_addr =
     and_then (on_ustub_closed dq m target_addr) (\<lambda>m. Inr (m, [CloseFd rawfd]))"

fun ux_step ::
  "'q dq_api \<Rightarrow> (chan \<Rightarrow> bool) \<Rightarrow> 'q udpx_mgr \<Rightarrow> ux_event \<Rightarrow> ('q udpx_mgr \<times> udpx_effect list) res" where
  "ux_step dq alive m (UxSouth now sas msg src_addr dst_addr) =
     on_udp_proxy_south dq alive now sas m msg src_addr dst_addr"
| "ux_step dq alive m (UxPurge now) =
     (case keepalive_poll dq now (um_cache m) of
        None \<Rightarrow> Inl Diverged
      | Some (c, eff) \<Rightarrow> Inr (m\<lparr>um_cache := c\<rparr>, eff))"
| "ux_step dq alive m (UxStubEnded rawfd target_addr) = stub_future_end dq m rawfd target_addr"
| "ux_step dq alive m UxStop = Inr (udpx_mgr_stop dq m)"

fun ux_run ::
  "'q dq_api \<Rightarrow> (chan \<Rightarrow> bool) \<Rightarrow> 'q udpx_mgr \<Rightarrow> ux_event list \<Rightarrow> ('q udpx_mgr \<times> udpx_effect list list) res" where
  "ux_run dq alive m [] = Inr (m, [])"
| "ux_run dq alive m (e # es) =
     and_then (ux_step dq alive m e) (\<lambda>(m, eff).
     and_then (ux_run dq alive m es) (\<lambda>(m, effs). Inr (m, eff # effs)))"

text \<open>
  The specification: a map from the address a client talks to, to the socket that answers in its name
  and the time it is given up.
\<close>

type_synonym ttl_map = "socket_addr \<Rightarrow> (ustub \<times> nat) option"

definition new_stub :: "sas_result \<Rightarrow> socket_addr \<Rightarrow> ustub option" where
  "new_stub sas a = (case sas of
       SasSocket fd tx \<Rightarrow> Some \<lparr>ub_rawfd = fd, ub_tx = Some tx, ub_trigger = True, ub_src_addr = a\<rparr>
     | _ \<Rightarrow> None)"

definition south_stub :: "ttl_map \<Rightarrow> sas_result \<Rightarrow> socket_addr \<Rightarrow> ustub option" where
  "south_stub T sas a = (case T a of Some (v, _) \<Rightarrow> Some v | None \<Rightarrow> new_stub sas a)"

fun ttl_step :: "ttl_map \<Rightarrow> ux_event \<Rightarrow> ttl_map" where
  "ttl_step T (UxSouth now sas msg a b) =
     (case south_stub T sas a of Some v \<Rightarrow> T(a \<mapsto> (v, now + TTL_SECS)) | None \<Rightarrow> T)"
| "ttl_step T (UxPurge now) = unexpired T now"
| "ttl_step T (UxStubEnded fd a) = T(a := None)"
| "ttl_step T UxStop = Map.empty"

fun is_send :: "udpx_effect \<Rightarrow> bool" where
  "is_send (StubSend c bs a) = True"
| "is_send _ = False"

fun ttl_out :: "(chan \<Rightarrow> bool) \<Rightarrow> ttl_map \<Rightarrow> ux_event \<Rightarrow> udpx_effect list \<Rightarrow> bool" where
  "ttl_out alive T (UxSouth now sas msg a b) eff \<longleftrightarrow>
     filter is_send eff = (case south_stub T sas a of Some v \<Rightarrow> ustub_south alive v msg b | None \<Rightarrow> [])"
| "ttl_out alive T (UxPurge now) eff \<longleftrightarrow> set eff = expired_fds T now"
| "ttl_out alive T (UxStubEnded fd a) eff \<longleftrightarrow> eff = [CloseFd fd]"
| "ttl_out alive T UxStop eff \<longleftrightarrow> set eff = {CloseFd (ub_rawfd v) | a v d. T a = Some (v, d)}"

inductive ttl_runs :: "(chan \<Rightarrow> bool) \<Rightarrow> ttl_map \<Rightarrow> ux_event list \<Rightarrow> udpx_effect list list \<Rightarrow> ttl_map \<Rightarrow> bool"
  for alive where
  idle: "ttl_runs alive T [] [] T"
| event: "ttl_out alive T e eff \<Longrightarrow> ttl_runs alive (ttl_step T e) es effs T' \<Longrightarrow> ttl_runs alive T (e # es) (eff # effs) T'"

inductive_simps ttl_runs_simps [simp]:
  "ttl_runs alive T [] effs T'"
  "ttl_runs alive T (e # es) effs T'"

lemma is_send_south: "filter is_send (ustub_south alive v msg b) = ustub_south alive v msg b"
  by (simp add: ustub_south_def split: option.splits)

lemma on_udp_proxy_south_ok:
  assumes "dq_ok dq pend" "cache_ok pend (um_cache m)"
  shows "\<exists>m' eff. on_udp_proxy_south dq alive now sas m msg a b = Inr (m', eff) \<and> cache_ok pend (um_cache m') \<and>
    cached pend (um_cache m') = ttl_step (cached pend (um_cache m)) (UxSouth now sas msg a b) \<and>
    ttl_out alive (cached pend (um_cache m)) (UxSouth now sas msg a b) eff"
proof -
  let ?T = "cached pend (um_cache m)"
  obtain c where c: "cache_get dq now (um_cache m) a = Inr (c, map_option fst (?T a))" "cache_ok pend c"
    "cached pend c = (case ?T a of None \<Rightarrow> ?T | Some (v, _) \<Rightarrow> ?T(a \<mapsto> (v, now + TTL_SECS)))"
    using cache_get_ok [OF assms] by blast
  show ?thesis
  proof (cases "?T a")
    case (Some e)
    then obtain v d where e: "?T a = Some (v, d)" by (cases e) auto
    then show ?thesis
      using c by (simp add: on_udp_proxy_south_def south_stub_def is_send_south)
  next
    case None
    show ?thesis
    proof (cases sas)
      case (SasSocket fd tx)
      let ?v = "\<lparr>ub_rawfd = fd, ub_tx = Some tx, ub_trigger = True, ub_src_addr = a\<rparr>"
      have N: "cached pend c a = None" using None c(3) by simp
      obtain c1 eff where i: "cache_insert dq now c a ?v = (c1, eff)" "set eff \<subseteq> {SpawnKeepalive}" "cache_ok pend c1"
        "cached pend c1 = (cached pend c)(a \<mapsto> (?v, now + TTL_SECS))"
        using cache_insert_ok [OF assms(1) c(2) N] by blast
      obtain c2 where g: "cache_get dq now c1 a = Inr (c2, Some ?v)" "cache_ok pend c2"
        "cached pend c2 = (cached pend c1)(a \<mapsto> (?v, now + TTL_SECS))"
        using cache_get_ok [OF assms(1) i(3), of now a] i(4) by auto
      have quiet: "filter is_send eff = []" using i(2) by (auto simp: filter_empty_conv)
      show ?thesis
        using None SasSocket c(1,3) i(1,4) g quiet
        by (simp add: on_udp_proxy_south_def build_ustub_def ustub_new_def start_udp_socket_def south_stub_def
            new_stub_def is_send_south)
    next
      case SasFailed
      show ?thesis
        using None SasFailed c cache_get_ok [OF assms(1) c(2), of now a]
        by (auto simp: on_udp_proxy_south_def build_ustub_def ustub_new_def start_udp_socket_def south_stub_def new_stub_def)
    next
      case (FromStdFailed fd)
      show ?thesis
        using None FromStdFailed c cache_get_ok [OF assms(1) c(2), of now a]
        by (auto simp: on_udp_proxy_south_def build_ustub_def ustub_new_def start_udp_socket_def south_stub_def new_stub_def)
    qed
  qed
qed

lemma joined_empty: "joined Map.empty P = Map.empty"
  by (simp add: joined_def fun_eq_iff)

lemma udpx_mgr_stop_ok:
  assumes "dq_ok dq pend" "cache_ok pend (um_cache m)"
  shows "\<exists>m' eff. udpx_mgr_stop dq m = (m', eff) \<and> cache_ok pend (um_cache m') \<and>
    cached pend (um_cache m') = Map.empty \<and> ttl_out alive (cached pend (um_cache m)) UxStop eff"
proof -
  let ?c = "um_cache m"
  have l: "linked (map_of (ca_entries ?c)) (pend (ca_expirations ?c))" and di: "distinct (map fst (ca_entries ?c))"
    using assms(2) by (simp_all add: cache_ok_def)
  have "set (concat (map (\<lambda>(_, v, _). snd (ustub_cleanup v)) (ca_entries ?c)))
      = {CloseFd (ub_rawfd v) | a v k. map_of (ca_entries ?c) a = Some (v, k)}"
    using di by (force simp: ustub_cleanup_def)
  also have "\<dots> = {CloseFd (ub_rawfd v) | a v d. cached pend ?c a = Some (v, d)}"
  proof (intro Collect_cong iffI; elim exE conjE)
    fix x a v k assume "x = CloseFd (ub_rawfd v)" "map_of (ca_entries ?c) a = Some (v, k)"
    then show "\<exists>a v d. x = CloseFd (ub_rawfd v) \<and> cached pend ?c a = Some (v, d)"
      using joined_Some [OF l, of a v k] unfolding cached_def by blast
  next
    fix x a v d assume "x = CloseFd (ub_rawfd v)" "cached pend ?c a = Some (v, d)"
    then show "\<exists>a v k. x = CloseFd (ub_rawfd v) \<and> map_of (ca_entries ?c) a = Some (v, k)"
      by (auto simp: cached_def joined_def split: option.splits)
  qed
  finally show ?thesis
    using dq_okD(5) [OF assms(1)]
    by (simp add: udpx_mgr_stop_def cache_cleanup_def cache_ok_def cached_def linked_def joined_empty)
qed

lemma ux_step_ok:
  assumes "dq_ok dq pend" "cache_ok pend (um_cache m)"
  shows "\<exists>m' eff. ux_step dq alive m e = Inr (m', eff) \<and> cache_ok pend (um_cache m') \<and>
    cached pend (um_cache m') = ttl_step (cached pend (um_cache m)) e \<and> ttl_out alive (cached pend (um_cache m)) e eff"
proof (cases e)
  case (UxSouth now sas msg a b)
  then show ?thesis using on_udp_proxy_south_ok [OF assms, of alive now sas msg a b] by auto
next
  case (UxPurge now)
  then show ?thesis using keepalive_poll_ok [OF assms, of now] by auto
next
  case (UxStubEnded fd a)
  then show ?thesis using cache_remove_ok [OF assms, of a] by (auto simp: stub_future_end_def on_ustub_closed_def)
next
  case UxStop
  then show ?thesis using udpx_mgr_stop_ok [OF assms, of alive] by auto
qed

lemma ux_run_ok:
  assumes "dq_ok dq pend" "cache_ok pend (um_cache m)"
  shows "\<exists>m' effs. ux_run dq alive m es = Inr (m', effs) \<and> cache_ok pend (um_cache m') \<and>
    ttl_runs alive (cached pend (um_cache m)) es effs (cached pend (um_cache m'))"
  using assms(2)
proof (induction es arbitrary: m)
  case (Cons e es)
  obtain m1 eff where s: "ux_step dq alive m e = Inr (m1, eff)" "cache_ok pend (um_cache m1)"
    "cached pend (um_cache m1) = ttl_step (cached pend (um_cache m)) e"
    "ttl_out alive (cached pend (um_cache m)) e eff"
    using ux_step_ok [OF assms(1) Cons.prems] by blast
  from Cons.IH [OF s(2)] show ?case using s by auto
qed simp

text \<open>
  C10: The sockets that answer clients in a remote address's name are a map with a time to live. Whatever
  the sequence of replies, purges, ended sockets and stops, no operation panics or hangs (the delay
  queue's keys held by the cache are always valid), a reply leaves through the socket of its address and
  renews it for 60 seconds, a purge closes exactly the sockets whose time is over, and as long as a
  socket is cached the purging task is running.
\<close>

theorem udp_cache_is_ttl_map:
  assumes "dq_ok dq pend"
  shows "\<exists>m effs. ux_run dq alive (udpx_mgr_new dq tmstubs ctl) es = Inr (m, effs) \<and>
    ttl_runs alive Map.empty es effs (cached pend (um_cache m)) \<and>
    (ca_is_in_keepalive (um_cache m) \<or> cached pend (um_cache m) = Map.empty)"
proof -
  have "um_cache (udpx_mgr_new dq tmstubs ctl) = cache_new dq" by (simp add: udpx_mgr_new_def)
  moreover obtain m effs where m: "ux_run dq alive (udpx_mgr_new dq tmstubs ctl) es = Inr (m, effs)"
    "cache_ok pend (um_cache m)" "ttl_runs alive (cached pend (cache_new dq)) es effs (cached pend (um_cache m))"
    using ux_run_ok [OF assms, of "udpx_mgr_new dq tmstubs ctl" alive es] cache_new_ok [OF assms] calculation by auto
  have "ca_is_in_keepalive (um_cache m) \<or> cached pend (um_cache m) = Map.empty"
    using m(2) by (auto simp: cache_ok_def cached_def joined_def fun_eq_iff)
  then show ?thesis using m cache_new_ok [OF assms] by auto
qed

text \<open>A queue for the examples: a list of keys with their elements and deadlines.\<close>

definition list_dq :: "(nat \<times> socket_addr \<times> nat) list dq_api" where
  "list_dq =
     \<lparr>dq_new = [],
      dq_insert = (\<lambda>q a d. let k = Suc (foldr max (map fst q) 0) in ((k, a, d) # q, k)),
      dq_reset = (\<lambda>q k d. map_option (\<lambda>(a, _). (k, a, d) # q) (map_of q k)),
      dq_remove = (\<lambda>q k. map_option (\<lambda>_. filter (\<lambda>e. fst e \<noteq> k) q) (map_of q k)),
      dq_clear = (\<lambda>q. []),
      dq_poll = (\<lambda>now q. if q = [] then (q, DqFinished)
        else case find (\<lambda>k. case map_of q k of Some (_, d) \<Rightarrow> d \<le> now | None \<Rightarrow> False) (map fst q) of
          Some k \<Rightarrow> (filter (\<lambda>e. fst e \<noteq> k) q, DqExpired (fst (the (map_of q k))))
        | None \<Rightarrow> (q, DqPending))\<rparr>"

lemma fresh_key: "map_of q (Suc (foldr max (map fst q) 0)) = None"
proof -
  have "k \<in> fst ` set q \<Longrightarrow> k \<le> foldr max (map fst q) 0" for k
    by (induction q) (auto simp: le_max_iff_disj)
  then show ?thesis by (force simp: map_of_eq_None_iff)
qed

lemma map_of_without: "map_of (filter (\<lambda>e. fst e \<noteq> k) q) = (map_of q)(k := None)"
  by (induction q) (auto simp: fun_eq_iff)

lemma list_dq_ok: "dq_ok list_dq map_of"
  unfolding dq_ok_def
proof (intro conjI allI impI)
  show "map_of (dq_new list_dq) = Map.empty" "map_of (dq_clear list_dq q) = Map.empty" for q
    by (simp_all add: list_dq_def)
next
  fix q q' :: "(nat \<times> socket_addr \<times> nat) list" and a d k
  assume "dq_insert list_dq q a d = (q', k)"
  then show "map_of q k = None" "map_of q' = (map_of q)(k \<mapsto> (a, d))"
    using fresh_key [of q] by (auto simp: list_dq_def Let_def)
next
  fix q :: "(nat \<times> socket_addr \<times> nat) list" and k a d d'
  assume "map_of q k = Some (a, d)"
  then show "\<exists>q'. dq_reset list_dq q k d' = Some q' \<and> map_of q' = (map_of q)(k \<mapsto> (a, d'))"
    by (simp add: list_dq_def)
next
  fix q :: "(nat \<times> socket_addr \<times> nat) list" and k e
  assume "map_of q k = Some e"
  then show "\<exists>q'. dq_remove list_dq q k = Some q' \<and> map_of q' = (map_of q)(k := None)"
    by (simp add: list_dq_def map_of_without)
next
  fix now q q' r
  assume p: "dq_poll list_dq now q = (q', r)"
  let ?due = "\<lambda>k. case map_of q k of Some (_, d) \<Rightarrow> d \<le> now | None \<Rightarrow> False"
  show "r = DqPending \<and> map_of q' = map_of q \<and> (\<forall>k a d. map_of q k = Some (a, d) \<longrightarrow> now < d)
        \<or> r = DqFinished \<and> map_of q' = map_of q \<and> map_of q = Map.empty
        \<or> (\<exists>a k d. r = DqExpired a \<and> map_of q k = Some (a, d) \<and> d \<le> now \<and> map_of q' = (map_of q)(k := None))"
  proof (cases "find ?due (map fst q)")
    case None
    have "now < d" if "map_of q k = Some (a, d)" for k a d
    proof -
      have "k \<in> set (map fst q)" using that by (force dest: map_of_SomeD)
      then have "\<not> ?due k" using None by (auto simp: find_None_iff)
      then show ?thesis using that by simp
    qed
    then show ?thesis using p None by (cases "q = []") (auto simp: list_dq_def)
  next
    case (Some k)
    then have "?due k" by (auto simp: find_Some_iff)
    then obtain a d where e: "map_of q k = Some (a, d)" "d \<le> now" by (auto split: option.splits)
    then have "r = DqExpired a \<and> map_of q' = (map_of q)(k := None)"
      using p Some by (cases "q = []") (auto simp: list_dq_def map_of_without)
    then show ?thesis using e by blast
  qed
qed

definition sample_remote :: socket_addr where "sample_remote = SocketAddr (V4 (Ipv4Addr 8 8 8 8)) 53"
definition sample_peer :: socket_addr where "sample_peer = SocketAddr (V4 (Ipv4Addr 192 168 1 2)) 4000"

lemma udp_cache_is_ttl_map_witness:
  "\<exists>m effs. ux_run list_dq (\<lambda>_. True) (udpx_mgr_new list_dq [] 0)
      [UxSouth 0 (SasSocket 7 1) [1, 2] sample_remote sample_peer, UxPurge 59, UxPurge 60] = Inr (m, effs) \<and>
    ttl_runs (\<lambda>_. True) Map.empty
      [UxSouth 0 (SasSocket 7 1) [1, 2] sample_remote sample_peer, UxPurge 59, UxPurge 60] effs
      (cached map_of (um_cache m)) \<and>
    (ca_is_in_keepalive (um_cache m) \<or> cached map_of (um_cache m) = Map.empty)"
  by (rule udp_cache_is_ttl_map [OF list_dq_ok])

text \<open>The descriptors of the process, as the effects open and close them: which socket each names.\<close>

fun descriptors :: "udpx_effect list \<Rightarrow> (nat \<Rightarrow> chan option) \<Rightarrow> nat \<Rightarrow> chan option" where
  "descriptors [] fds = fds"
| "descriptors (SpawnStub fd tx a # es) fds = descriptors es (fds(fd \<mapsto> tx))"
| "descriptors (CloseFd fd # es) fds = descriptors es (fds(fd := None))"
| "descriptors (_ # es) fds = descriptors es fds"

lemma descriptors_append: "descriptors (xs @ ys) fds = descriptors ys (descriptors xs fds)"
  by (induction xs fds rule: descriptors.induct) (simp_all add: fun_upd_def)

lemma south_opens:
  assumes "dq_ok dq pend" "cache_ok pend (um_cache m)" "cached pend (um_cache m) b = None"
    "on_udp_proxy_south dq alive now (SasSocket fd tx) m msg b peer = Inr (m', eff)"
  shows "descriptors eff fds = fds(fd \<mapsto> tx)"
proof -
  let ?v = "\<lparr>ub_rawfd = fd, ub_tx = Some tx, ub_trigger = True, ub_src_addr = b\<rparr>"
  obtain c where c: "cache_get dq now (um_cache m) b = Inr (c, None)" "cache_ok pend c" "cached pend c b = None"
    using cache_get_ok [OF assms(1,2), of now b] assms(3) by auto
  obtain c1 e where i: "cache_insert dq now c b ?v = (c1, e)" "set e \<subseteq> {SpawnKeepalive}" "cache_ok pend c1"
    "cached pend c1 b = Some (?v, now + TTL_SECS)"
    using cache_insert_ok [OF assms(1) c(2,3), of now ?v] by auto
  obtain c2 where g: "cache_get dq now c1 b = Inr (c2, Some ?v)"
    using cache_get_ok [OF assms(1) i(3), of now b] i(4) by auto
  have quiet: "descriptors (ustub_south alive ?v msg peer) f = f" for f
    by (simp add: ustub_south_def)
  have idle: "descriptors e f = f" for f
    using i(2) by (induction e) auto
  have "eff = SpawnStub fd tx b # e @ ustub_south alive ?v msg peer"
    using assms(4) c(1) i(1) g
    by (auto simp: on_udp_proxy_south_def build_ustub_def ustub_new_def start_udp_socket_def)
  then show ?thesis by (simp add: descriptors_append quiet idle)
qed

text \<open>
  C36: An expired socket is closed twice, by the cache and when its future ends, and the future tells
  the manager only the address. If another socket was made in between, the system may have given it the
  same descriptor: the future then closes the new socket, which stays in the cache; and if it serves the
  same address, the cache loses the new socket.
\<close>

theorem late_end_hits_successor:
  assumes "dq_ok dq pend" "ux_run dq alive (udpx_mgr_new dq tmstubs ctl) es = Inr (m, effs)"
    "cached pend (um_cache m) a = Some (v, d)" "d \<le> now" "unexpired (cached pend (um_cache m)) now b = None"
  shows "\<exists>m1 e1 e2 m2 e3.
    ux_run dq alive m [UxPurge now, UxSouth later (SasSocket (ub_rawfd v) tx) msg b peer] = Inr (m1, [e1, e2]) \<and>
    ux_step dq alive m1 (UxStubEnded (ub_rawfd v) a) = Inr (m2, e3) \<and>
    descriptors (e1 @ e2) fds (ub_rawfd v) = Some tx \<and> descriptors (e1 @ e2 @ e3) fds (ub_rawfd v) = None \<and>
    cached pend (um_cache m1) b =
      Some (\<lparr>ub_rawfd = ub_rawfd v, ub_tx = Some tx, ub_trigger = True, ub_src_addr = b\<rparr>, later + TTL_SECS) \<and>
    cached pend (um_cache m2) b = (if b = a then None else cached pend (um_cache m1) b)"
proof -
  have "cache_ok pend (um_cache (udpx_mgr_new dq tmstubs ctl))"
    using cache_new_ok [OF assms(1)] by (simp add: udpx_mgr_new_def)
  then have ok: "cache_ok pend (um_cache m)" using ux_run_ok [OF assms(1), of _ alive es] assms(2) by fastforce
  obtain m0 e1 where p: "ux_step dq alive m (UxPurge now) = Inr (m0, e1)" "cache_ok pend (um_cache m0)"
    "cached pend (um_cache m0) b = None"
    using ux_step_ok [OF assms(1) ok, of alive "UxPurge now"] assms(5) by auto
  let ?s = "UxSouth later (SasSocket (ub_rawfd v) tx) msg b peer"
  let ?v = "\<lparr>ub_rawfd = ub_rawfd v, ub_tx = Some tx, ub_trigger = True, ub_src_addr = b\<rparr>"
  obtain m1 e2 where s: "ux_step dq alive m0 ?s = Inr (m1, e2)" "cache_ok pend (um_cache m1)"
    "cached pend (um_cache m1) b = Some (?v, later + TTL_SECS)"
    using ux_step_ok [OF assms(1) p(2), of alive ?s] p(3) by (auto simp: south_stub_def new_stub_def)
  obtain m2 e3 where t: "ux_step dq alive m1 (UxStubEnded (ub_rawfd v) a) = Inr (m2, e3)"
    "cached pend (um_cache m2) = (cached pend (um_cache m1))(a := None)" "e3 = [CloseFd (ub_rawfd v)]"
    using ux_step_ok [OF assms(1) s(2), of alive "UxStubEnded (ub_rawfd v) a"] by auto
  have "descriptors (e1 @ e2) fds = (descriptors e1 fds)(ub_rawfd v \<mapsto> tx)"
    using south_opens [OF assms(1) p(2,3), of alive later "ub_rawfd v" tx msg peer m1 e2] s(1)
    by (simp add: descriptors_append)
  then show ?thesis
    using p(1) s t by (simp add: descriptors_append)
qed

lemma late_end_hits_successor_witness:
  "\<exists>m1 e1 e2 m2 e3.
    ux_run list_dq (\<lambda>_. True)
      (fst (projr (ux_run list_dq (\<lambda>_. True) (udpx_mgr_new list_dq [] 0) [UxSouth 0 (SasSocket 7 1) [1] sample_remote sample_peer])))
      [UxPurge 60, UxSouth 61 (SasSocket 7 2) [2] sample_peer sample_remote] = Inr (m1, [e1, e2]) \<and>
    ux_step list_dq (\<lambda>_. True) m1 (UxStubEnded 7 sample_remote) = Inr (m2, e3) \<and>
    descriptors (e1 @ e2) Map.empty 7 = Some 2 \<and> descriptors (e1 @ e2 @ e3) Map.empty 7 = None \<and>
    cached map_of (um_cache m2) sample_peer \<noteq> None"
proof -
  let ?v = "\<lparr>ub_rawfd = 7, ub_tx = Some 1, ub_trigger = True, ub_src_addr = sample_remote\<rparr>"
  let ?r = "ux_run list_dq (\<lambda>_. True) (udpx_mgr_new list_dq [] 0) [UxSouth 0 (SasSocket 7 1) [1] sample_remote sample_peer]"
  have c0: "um_cache (udpx_mgr_new list_dq [] 0) = cache_new list_dq" by (simp add: udpx_mgr_new_def)
  obtain m effs where m: "?r = Inr (m, effs)" "ttl_runs (\<lambda>_. True) Map.empty
      [UxSouth 0 (SasSocket 7 1) [1] sample_remote sample_peer] effs (cached map_of (um_cache m))"
    using ux_run_ok [OF list_dq_ok, of "udpx_mgr_new list_dq [] 0" "\<lambda>_. True"] cache_new_ok [OF list_dq_ok]
    unfolding c0 by metis
  then have T: "cached map_of (um_cache m) = [sample_remote \<mapsto> (?v, 60)]"
    by (auto simp: south_stub_def new_stub_def TTL_SECS_def)
  have "sample_peer \<noteq> sample_remote" by (simp add: sample_peer_def sample_remote_def)
  with late_end_hits_successor [OF list_dq_ok m(1), where a = sample_remote and v = ?v and d = 60 and now = 60
      and b = sample_peer and later = 61 and tx = 2 and msg = "[2]" and peer = sample_remote and fds = Map.empty] T m(1)
  show ?thesis by (auto simp: unexpired_def)
qed

end
