(* ===== verification/Sockets.thy ===== *)
theory Sockets
  imports Udp_X Netlink
begin

text \<open>
  The system calls of the program: src/src/udpx/mod.rs with the C functions it links (src/src/udpx/recvmsg.c),
  the sockets of src/src/udpx/udpserv.rs, src/src/udpx/udpsock.rs and src/src/udpx/ustub.rs, and the netlink
  socket of src/src/dns/netlink.rs. The kernel is a parameter; its documented behaviour is stated over
  the table of open sockets.
\<close>

section \<open>The kernel\<close>

text \<open>
  A call takes the state of the kernel and gives the next one with the value of the C function, \<open>-1\<close> for an
  error that \<open>sk_errno\<close> then reads. A \<^verbatim>\<open>sockaddr\<close> is unset (zeroed memory), an internet address, or a netlink
  address.
\<close>

datatype os_addr = OsUnspec | OsInet socket_addr | OsNl u32 u32

text \<open>
  A control message of \<^verbatim>\<open>recvmsg\<close>: its level and type, and its data as a \<^verbatim>\<open>sockaddr_in\<close> and as a \<^verbatim>\<open>sockaddr_in6\<close>
  would read it.
\<close>

record cmsg =
  cmsg_level :: int
  cmsg_type :: int
  cmsg_as_in :: "ipv4_addr \<times> u16"
  cmsg_as_in6 :: "ipv6_addr \<times> u16"

record recvmsg_answer =
  mh_nb :: int
  mh_data :: bytes
  mh_name :: os_addr
  mh_control :: "cmsg list"

record 'k sock_api =
  sk_errno :: "'k \<Rightarrow> nat"
  sk_socket :: "int \<Rightarrow> int \<Rightarrow> int \<Rightarrow> 'k \<Rightarrow> 'k \<times> int"
  sk_bind :: "int \<Rightarrow> os_addr \<Rightarrow> 'k \<Rightarrow> 'k \<times> int"
  sk_setsockopt :: "int \<Rightarrow> int \<Rightarrow> int \<Rightarrow> int \<Rightarrow> 'k \<Rightarrow> 'k \<times> int"
  sk_getsockopt :: "int \<Rightarrow> int \<Rightarrow> int \<Rightarrow> 'k \<Rightarrow> 'k \<times> int \<times> int"
  sk_close :: "int \<Rightarrow> 'k \<Rightarrow> 'k"
  sk_recvmsg :: "int \<Rightarrow> nat \<Rightarrow> int \<Rightarrow> 'k \<Rightarrow> 'k \<times> recvmsg_answer"
  sk_sendto :: "int \<Rightarrow> bytes \<Rightarrow> int \<Rightarrow> os_addr \<Rightarrow> 'k \<Rightarrow> 'k \<times> int"

definition SOL_SOCKET :: int where "SOL_SOCKET = 1"
definition SO_REUSEADDR :: int where "SO_REUSEADDR = 2"
definition SO_DOMAIN :: int where "SO_DOMAIN = 39"
definition SOL_IP :: int where "SOL_IP = 0"
definition SOL_IPV6 :: int where "SOL_IPV6 = 41"
definition IP_TRANSPARENT :: int where "IP_TRANSPARENT = 19"
definition IPV6_TRANSPARENT :: int where "IPV6_TRANSPARENT = 75"
definition IP_RECVORIGDSTADDR :: int where "IP_RECVORIGDSTADDR = 20"
definition IPV6_RECVORIGDSTADDR :: int where "IPV6_RECVORIGDSTADDR = 74"
definition PF_INET :: int where "PF_INET = 2"
definition PF_INET6 :: int where "PF_INET6 = 10"
definition PF_NETLINK :: int where "PF_NETLINK = 16"
definition SOCK_DGRAM :: int where "SOCK_DGRAM = 2"
definition NETLINK_NETFILTER :: int where "NETLINK_NETFILTER = 12"
definition EAGAIN :: nat where "EAGAIN = 11"

lemmas sock_consts =
  SOL_SOCKET_def SO_REUSEADDR_def SO_DOMAIN_def SOL_IP_def SOL_IPV6_def IP_TRANSPARENT_def IPV6_TRANSPARENT_def
  IP_RECVORIGDSTADDR_def IPV6_RECVORIGDSTADDR_def PF_INET_def PF_INET6_def PF_NETLINK_def SOCK_DGRAM_def
  NETLINK_NETFILTER_def

definition ip_family :: "ip_addr \<Rightarrow> int" where
  "ip_family ip = (if is_ipv4 ip then PF_INET else PF_INET6)"

text \<open>\<^verbatim>\<open>std::io::Error\<close> is an error of the system or one made with a text.\<close>

datatype io_error = OsError nat | OtherError

type_synonym 'a io = "io_error + 'a"

definition last_os_error :: "'k sock_api \<Rightarrow> 'k \<Rightarrow> io_error" where
  "last_os_error api k = OsError (sk_errno api k)"

text \<open>\<^verbatim>\<open>?\<close> on an \<^verbatim>\<open>io::Result\<close>, passing the kernel on.\<close>

definition io_then :: "'k \<times> 'a io \<Rightarrow> ('k \<Rightarrow> 'a \<Rightarrow> 'k \<times> 'b io) \<Rightarrow> 'k \<times> 'b io" where
  "io_then r f = (case r of (k, Inl e) \<Rightarrow> (k, Inl e) | (k, Inr x) \<Rightarrow> f k x)"

lemma io_then_simps [simp]:
  "io_then (k, Inl e) f = (k, Inl e)"
  "io_then (k, Inr x) f = f k x"
  by (simp_all add: io_then_def)

section \<open>The wrappers of udpx/mod.rs\<close>

text \<open>The macro \<^verbatim>\<open>try_io\<close>: only \<open>-1\<close> is an error.\<close>

definition try_io :: "'k sock_api \<Rightarrow> 'k \<times> int \<Rightarrow> 'k \<times> int io" where
  "try_io api r = (case r of (k, x) \<Rightarrow> if x = -1 then (k, Inl (last_os_error api k)) else (k, Inr x))"

definition getsockopt :: "'k sock_api \<Rightarrow> int \<Rightarrow> int \<Rightarrow> int \<Rightarrow> 'k \<Rightarrow> 'k \<times> int io" where
  "getsockopt api fd level name k =
     (case sk_getsockopt api fd level name k of
        (k, r, v) \<Rightarrow> io_then (try_io api (k, r)) (\<lambda>k _. (k, Inr v)))"

definition setsockopt :: "'k sock_api \<Rightarrow> int \<Rightarrow> int \<Rightarrow> int \<Rightarrow> int \<Rightarrow> 'k \<Rightarrow> 'k \<times> unit io" where
  "setsockopt api fd level name v k =
     io_then (try_io api (sk_setsockopt api fd level name v k)) (\<lambda>k _. (k, Inr ()))"

definition set_ip_recv_origdstaddr :: "'k sock_api \<Rightarrow> int \<Rightarrow> 'k \<Rightarrow> 'k \<times> unit io" where
  "set_ip_recv_origdstaddr api fd k =
     io_then (getsockopt api fd SOL_SOCKET SO_DOMAIN k) (\<lambda>k domain.
     if domain = PF_INET then setsockopt api fd SOL_IP IP_RECVORIGDSTADDR 1 k
     else if domain = PF_INET6 then setsockopt api fd SOL_IPV6 IPV6_RECVORIGDSTADDR 1 k
     else (k, Inl OtherError))"

text \<open>The loop over the control messages: each original destination overwrites the one before.\<close>

fun parse_control :: "nat \<Rightarrow> cmsg list \<Rightarrow> os_addr \<Rightarrow> os_addr" where
  "parse_control dst_len [] dst = dst"
| "parse_control dst_len (c # cs) dst =
     parse_control dst_len cs
       (if cmsg_level c = SOL_IP \<and> cmsg_type c = IP_RECVORIGDSTADDR \<and> 16 \<le> dst_len then
          OsInet (SocketAddr (V4 (fst (cmsg_as_in c))) (snd (cmsg_as_in c)))
        else if cmsg_level c = SOL_IPV6 \<and> cmsg_type c = IPV6_RECVORIGDSTADDR \<and> 28 \<le> dst_len then
          OsInet (SocketAddr (V6 (fst (cmsg_as_in6 c))) (snd (cmsg_as_in6 c)))
        else dst)"

definition udp_sas_recv ::
  "'k sock_api \<Rightarrow> int \<Rightarrow> nat \<Rightarrow> int \<Rightarrow> nat \<Rightarrow> 'k \<Rightarrow> 'k \<times> int \<times> bytes \<times> os_addr \<times> os_addr" where
  "udp_sas_recv api sock buf_len flags dst_len k =
     (case sk_recvmsg api sock buf_len flags k of
        (k, a) \<Rightarrow>
          if 0 \<le> mh_nb a then (k, mh_nb a, mh_data a, mh_name a, parse_control dst_len (mh_control a) OsUnspec)
          else (k, mh_nb a, [], OsUnspec, OsUnspec))"

definition udp_sas_socket :: "'k sock_api \<Rightarrow> socket_addr \<Rightarrow> 'k \<Rightarrow> 'k \<times> int" where
  "udp_sas_socket api bindaddr k =
     (case sk_socket api (ip_family (sa_ip bindaddr)) SOCK_DGRAM 0 k of (k, src_fd) \<Rightarrow>
      if src_fd < 0 then (k, src_fd)
      else
        let sol = if ip_family (sa_ip bindaddr) = PF_INET6 then SOL_IPV6 else SOL_IP;
            flag = if ip_family (sa_ip bindaddr) = PF_INET6 then IPV6_TRANSPARENT else IP_TRANSPARENT in
        case sk_setsockopt api src_fd sol flag 1 k of (k, r) \<Rightarrow>
        if r \<noteq> 0 then (sk_close api src_fd k, -1)
        else
          case sk_setsockopt api src_fd SOL_SOCKET SO_REUSEADDR 1 k of (k, r) \<Rightarrow>
          if r \<noteq> 0 then (sk_close api src_fd k, -1)
          else
            case sk_bind api src_fd (OsInet bindaddr) k of (k, r) \<Rightarrow>
            if r \<noteq> 0 then (sk_close api src_fd k, -1) else (k, src_fd))"

text \<open>
  \<^verbatim>\<open>OsSocketAddr\<close> of the crate \<^verbatim>\<open>os_socketaddr\<close>: the room it has for an address and what it converts to
  are parameters.
\<close>

record os_crate =
  oc_capacity :: nat
  oc_into :: "os_addr \<Rightarrow> socket_addr option"

definition recv_sas ::
  "'k sock_api \<Rightarrow> os_crate \<Rightarrow> int \<Rightarrow> nat \<Rightarrow> 'k \<Rightarrow> 'k \<times> (nat \<times> bytes \<times> socket_addr option \<times> socket_addr option) io" where
  "recv_sas api oc socket buf_len k =
     (case udp_sas_recv api socket buf_len 0 (oc_capacity oc) k of
        (k, nb, bs, src, dst) \<Rightarrow>
          if nb < 0 then (k, Inl (last_os_error api k))
          else (k, Inr (nat nb, bs, oc_into oc src, oc_into oc dst)))"

definition sas_socket :: "'k sock_api \<Rightarrow> socket_addr \<Rightarrow> 'k \<Rightarrow> 'k \<times> int io" where
  "sas_socket api bind_addr k =
     (case udp_sas_socket api bind_addr k of
        (k, rawfd) \<Rightarrow> if rawfd < 0 then (k, Inl (last_os_error api k)) else (k, Inr rawfd))"

section \<open>The netlink socket\<close>

record nl_socket =
  nl_rawfd :: int
  nl_addr :: os_addr

definition netlink_socket :: "'k sock_api \<Rightarrow> 'k \<Rightarrow> 'k \<times> int io" where
  "netlink_socket api k =
     (case sk_socket api PF_NETLINK SOCK_DGRAM NETLINK_NETFILTER k of (k, sock) \<Rightarrow>
      if sock < 0 then (k, Inl (last_os_error api k))
      else
        case sk_bind api sock (OsNl 0 0) k of (k, r) \<Rightarrow>
        if r < 0 then (k, Inl (last_os_error api k)) else (k, Inr sock))"

definition nlsocket_new :: "'k sock_api \<Rightarrow> 'k \<Rightarrow> ('k \<times> nl_socket) res" where
  "nlsocket_new api k =
     (case netlink_socket api k of
        (k, Inl _) \<Rightarrow> Inl Panicked
      | (k, Inr rawfd) \<Rightarrow> Inr (k, \<lparr>nl_rawfd = rawfd, nl_addr = OsNl 0 0\<rparr>))"

definition nlsocket_send_to :: "'k sock_api \<Rightarrow> nl_socket \<Rightarrow> bytes \<Rightarrow> int \<Rightarrow> 'k \<Rightarrow> 'k \<times> nat io" where
  "nlsocket_send_to api s buf flags k =
     (case sk_sendto api (nl_rawfd s) buf flags (nl_addr s) k of
        (k, r) \<Rightarrow> if r < 0 then (k, Inl (last_os_error api k)) else (k, Inr (nat r)))"

definition nlsocket_drop :: "'k sock_api \<Rightarrow> nl_socket \<Rightarrow> 'k \<Rightarrow> 'k" where
  "nlsocket_drop api s k = sk_close api (nl_rawfd s) k"

section \<open>The sockets of the UDP proxy\<close>

text \<open>
  \<^verbatim>\<open>std::net::UdpSocket::bind\<close>, \<^verbatim>\<open>str::parse\<close> and the reactor of the runtime are libraries: \<open>la_bind\<close>
  makes a socket bound to an address, \<open>la_from_socket\<close> and \<open>la_poll_evented\<close> tell whether registering
  succeeds.
\<close>

record 'k sock_lib =
  la_parse :: "str \<Rightarrow> socket_addr option"
  la_bind :: "socket_addr \<Rightarrow> 'k \<Rightarrow> 'k \<times> int io"
  la_from_socket :: "int \<Rightarrow> 'k \<Rightarrow> bool"
  la_poll_evented :: "int \<Rightarrow> 'k \<Rightarrow> bool"

definition udp_socket_ex_new :: "'k sock_api \<Rightarrow> 'k sock_lib \<Rightarrow> int \<Rightarrow> 'k \<Rightarrow> ('k \<times> int) res" where
  "udp_socket_ex_new api lib rawfd k =
     (if \<not> la_from_socket lib rawfd k then Inl Panicked
      else
        case set_ip_recv_origdstaddr api rawfd k of
          (k, Inl _) \<Rightarrow> Inl Panicked
        | (k, Inr _) \<Rightarrow> if la_poll_evented lib rawfd k then Inr (k, rawfd) else Inl Panicked)"

text \<open>
  The part of \<^verbatim>\<open>UdpServer::start\<close> before the stream: an early return drops, and so closes, the socket.
  \<^verbatim>\<open>IpTransparent\<close> is the option of the level \<^verbatim>\<open>SOL_IP\<close>, whatever the family.
\<close>

definition open_listener :: "'k sock_api \<Rightarrow> 'k sock_lib \<Rightarrow> str \<Rightarrow> 'k \<Rightarrow> ('k \<times> int io) res" where
  "open_listener api lib listen_addr k =
     (case la_parse lib listen_addr of
        None \<Rightarrow> Inr (k, Inl OtherError)
      | Some addr \<Rightarrow>
          (case la_bind lib addr k of
             (k, Inl e) \<Rightarrow> Inr (k, Inl e)
           | (k, Inr rawfd) \<Rightarrow>
               (case setsockopt api rawfd SOL_IP IP_TRANSPARENT 1 k of
                  (k, Inl e) \<Rightarrow> Inr (sk_close api rawfd k, Inl e)
                | (k, Inr _) \<Rightarrow>
                    and_then (udp_socket_ex_new api lib rawfd k) (\<lambda>(k, fd). Inr (k, Inr fd)))))"

definition listener_outcome :: "('k \<times> int io) res \<Rightarrow> server_bind" where
  "listener_outcome r = (case r of
       Inl _ \<Rightarrow> RecvOptionFailed
     | Inr (_, Inl _) \<Rightarrow> BindFailed
     | Inr (_, Inr _) \<Rightarrow> BindOk)"

text \<open>
  What \<^verbatim>\<open>poll_recv_from\<close> makes of \<^verbatim>\<open>recv_sas\<close>: the runtime's reactor says whether there is something to
  read, and is told when there was nothing after all (\<open>cleared\<close> is whether that succeeds).
\<close>

datatype reactor_answer = NotReady | ReactorFailed | IsReady

definition sys_recv :: "'k sock_api \<Rightarrow> os_crate \<Rightarrow> reactor_answer \<Rightarrow> bool \<Rightarrow> int \<Rightarrow> 'k \<Rightarrow> nat \<Rightarrow> sas_recv" where
  "sys_recv api oc ready cleared rawfd k len =
     (case ready of
        NotReady \<Rightarrow> RecvWouldBlock
      | ReactorFailed \<Rightarrow> RecvFailed
      | IsReady \<Rightarrow>
          (case snd (recv_sas api oc rawfd len k) of
             Inr (n, bs, src_addr, dst_addr) \<Rightarrow> RecvGot (take n bs) src_addr dst_addr
           | Inl e \<Rightarrow> if e = OsError EAGAIN \<and> cleared then RecvWouldBlock else RecvFailed))"

text \<open>The first two steps of a stub's \<^verbatim>\<open>start_udp_socket\<close>: the socket, and its registration (\<open>ok\<close>).\<close>

definition stub_socket :: "'k sock_api \<Rightarrow> bool \<Rightarrow> chan \<Rightarrow> socket_addr \<Rightarrow> 'k \<Rightarrow> 'k \<times> sas_result" where
  "stub_socket api ok tx src_addr k =
     (case sas_socket api src_addr k of
        (k, Inl _) \<Rightarrow> (k, SasFailed)
      | (k, Inr rawfd) \<Rightarrow> (k, if ok then SasSocket (nat rawfd) tx else FromStdFailed (nat rawfd)))"

definition x_server_new :: "str \<Rightarrow> x_server" where
  "x_server_new addr = \<lparr>xs_listen_addr = addr, xs_tx = False\<rparr>"

text \<open>An error of \<^verbatim>\<open>close\<close> is only logged.\<close>

definition ustub_close_rawfd :: "'k sock_api \<Rightarrow> ustub \<Rightarrow> 'k \<Rightarrow> 'k" where
  "ustub_close_rawfd api stub k = sk_close api (int (ub_rawfd stub)) k"

text \<open>The descriptors that the effects of the proxy close.\<close>

fun close_effects :: "'k sock_api \<Rightarrow> udpx_effect list \<Rightarrow> 'k \<Rightarrow> 'k" where
  "close_effects api [] k = k"
| "close_effects api (CloseFd fd # eff) k = close_effects api eff (sk_close api (int fd) k)"
| "close_effects api (_ # eff) k = close_effects api eff k"

lemma cleanup_closes: "close_effects api (snd (ustub_cleanup stub)) k = ustub_close_rawfd api stub k"
  by (simp add: ustub_cleanup_def ustub_close_rawfd_def)

lemma proxy_listeners:
  "um_server (udpx_mgr_new dq tms ctl) = x_server_new (LOCAL_SERVER @ lit '':'' @ dec_digits (unat LOCAL_TPROXY_SERVER_PORT))"
  "um_server6 (udpx_mgr_new dq tms ctl) = x_server_new (lit ''[::1]:'' @ dec_digits (unat LOCAL_TPROXY_SERVER_PORT))"
  by (simp_all add: udpx_mgr_new_def x_server_new_def)

section \<open>What the kernel promises\<close>

record ksock =
  so_domain :: int
  so_kind :: int
  so_options :: "int \<times> int \<Rightarrow> int option"
  so_name :: "os_addr option"

type_synonym 'k fd_table = "'k \<Rightarrow> int \<Rightarrow> ksock option"

text \<open>
  The manual pages: a call that fails leaves the table of open sockets as it was, a new socket has a
  number that was not in use, an option set stays set, \<^verbatim>\<open>close\<close> frees the number.
\<close>

definition fresh_sock :: "int \<Rightarrow> int \<Rightarrow> ksock" where
  "fresh_sock d t = \<lparr>so_domain = d, so_kind = t, so_options = Map.empty, so_name = None\<rparr>"

definition socket_law :: "'k sock_api \<Rightarrow> 'k fd_table \<Rightarrow> bool" where
  "socket_law api fds \<longleftrightarrow> (\<forall>d t p k k' r. sk_socket api d t p k = (k', r) \<longrightarrow>
     r < 0 \<and> fds k' = fds k \<or> 0 \<le> r \<and> fds k r = None \<and> fds k' = (fds k)(r \<mapsto> fresh_sock d t))"

definition bind_law :: "'k sock_api \<Rightarrow> 'k fd_table \<Rightarrow> bool" where
  "bind_law api fds \<longleftrightarrow> (\<forall>fd a k k' r s. fds k fd = Some s \<longrightarrow> sk_bind api fd a k = (k', r) \<longrightarrow>
     r = -1 \<and> fds k' = fds k \<or> r = 0 \<and> fds k' = (fds k)(fd \<mapsto> s\<lparr>so_name := Some a\<rparr>))"

definition setsockopt_law :: "'k sock_api \<Rightarrow> 'k fd_table \<Rightarrow> bool" where
  "setsockopt_law api fds \<longleftrightarrow> (\<forall>fd l n v k k' r s. fds k fd = Some s \<longrightarrow> sk_setsockopt api fd l n v k = (k', r) \<longrightarrow>
     r = -1 \<and> fds k' = fds k \<or> r = 0 \<and> fds k' = (fds k)(fd \<mapsto> s\<lparr>so_options := (so_options s)((l, n) \<mapsto> v)\<rparr>))"

definition getsockopt_law :: "'k sock_api \<Rightarrow> 'k fd_table \<Rightarrow> bool" where
  "getsockopt_law api fds \<longleftrightarrow> (\<forall>fd k k' r v s. fds k fd = Some s \<longrightarrow>
     sk_getsockopt api fd SOL_SOCKET SO_DOMAIN k = (k', r, v) \<longrightarrow>
     fds k' = fds k \<and> (r = -1 \<or> r = 0 \<and> v = so_domain s))"

definition close_law :: "'k sock_api \<Rightarrow> 'k fd_table \<Rightarrow> bool" where
  "close_law api fds \<longleftrightarrow> (\<forall>fd k. fds (sk_close api fd k) = (fds k)(fd := None))"

definition kernel_ok :: "'k sock_api \<Rightarrow> 'k fd_table \<Rightarrow> bool" where
  "kernel_ok api fds \<longleftrightarrow>
     socket_law api fds \<and> bind_law api fds \<and> setsockopt_law api fds \<and> getsockopt_law api fds \<and> close_law api fds"

lemmas kernel_laws = kernel_ok_def socket_law_def bind_law_def setsockopt_law_def getsockopt_law_def close_law_def

definition lib_ok :: "'k sock_lib \<Rightarrow> 'k fd_table \<Rightarrow> bool" where
  "lib_ok lib fds \<longleftrightarrow>
     (\<forall>a k k' r. la_bind lib a k = (k', r) \<longrightarrow>
        (\<exists>e. r = Inl e) \<and> fds k' = fds k
        \<or> (\<exists>fd. r = Inr fd \<and> 0 \<le> fd \<and> fds k fd = None \<and> fds k' = (fds k)(fd \<mapsto>
             \<lparr>so_domain = ip_family (sa_ip a), so_kind = SOCK_DGRAM, so_options = Map.empty, so_name = Some (OsInet a)\<rparr>)))"

lemma kernelD:
  assumes "kernel_ok api fds"
  shows socketD: "sk_socket api d t p k = (k', r) \<Longrightarrow>
      r < 0 \<and> fds k' = fds k \<or> 0 \<le> r \<and> fds k r = None \<and> fds k' = (fds k)(r \<mapsto> fresh_sock d t)"
    and bindD: "fds k fd = Some s \<Longrightarrow> sk_bind api fd a k = (k', r) \<Longrightarrow>
      r = -1 \<and> fds k' = fds k \<or> r = 0 \<and> fds k' = (fds k)(fd \<mapsto> s\<lparr>so_name := Some a\<rparr>)"
    and setsockoptD: "fds k fd = Some s \<Longrightarrow> sk_setsockopt api fd l n v k = (k', r) \<Longrightarrow>
      r = -1 \<and> fds k' = fds k \<or> r = 0 \<and> fds k' = (fds k)(fd \<mapsto> s\<lparr>so_options := (so_options s)((l, n) \<mapsto> v)\<rparr>)"
    and getsockoptD: "fds k fd = Some s \<Longrightarrow> sk_getsockopt api fd SOL_SOCKET SO_DOMAIN k = (k', r, v) \<Longrightarrow>
      fds k' = fds k \<and> (r = -1 \<or> r = 0 \<and> v = so_domain s)"
    and closeD: "fds (sk_close api fd k) = (fds k)(fd := None)"
  subgoal using assms by (simp add: kernel_ok_def socket_law_def)
  subgoal using assms by (simp add: kernel_ok_def bind_law_def)
  subgoal using assms by (simp add: kernel_ok_def setsockopt_law_def)
  subgoal using assms unfolding kernel_ok_def getsockopt_law_def by blast
  subgoal using assms by (simp add: kernel_ok_def close_law_def)
  done

section \<open>The socket of a reply\<close>

definition reply_sock :: "socket_addr \<Rightarrow> ksock" where
  "reply_sock a = \<lparr>so_domain = ip_family (sa_ip a), so_kind = SOCK_DGRAM,
     so_options = (if is_ipv4 (sa_ip a) then [(SOL_IP, IP_TRANSPARENT) \<mapsto> 1, (SOL_SOCKET, SO_REUSEADDR) \<mapsto> 1]
       else [(SOL_IPV6, IPV6_TRANSPARENT) \<mapsto> 1, (SOL_SOCKET, SO_REUSEADDR) \<mapsto> 1]),
     so_name = Some (OsInet a)\<rparr>"

lemma closed_again: "fds k r = None \<Longrightarrow> fds k' = (fds k)(r \<mapsto> s) \<Longrightarrow> (fds k')(r := None) = fds k" for fds :: "'k fd_table"
  by (auto simp: fun_eq_iff)

lemma udp_sas_socket_ok:
  assumes K: "kernel_ok api fds" and run: "udp_sas_socket api a k = (k', fd)"
  shows "fd < 0 \<and> fds k' = fds k \<or> 0 \<le> fd \<and> fds k fd = None \<and> fds k' = (fds k)(fd \<mapsto> reply_sock a)"
proof -
  let ?f = "ip_family (sa_ip a)"
  let ?sol = "if ?f = PF_INET6 then SOL_IPV6 else SOL_IP" let ?flag = "if ?f = PF_INET6 then IPV6_TRANSPARENT else IP_TRANSPARENT"
  obtain k1 r1 where s1: "sk_socket api ?f SOCK_DGRAM 0 k = (k1, r1)" by fastforce
  obtain k2 r2 where s2: "sk_setsockopt api r1 ?sol ?flag 1 k1 = (k2, r2)" by fastforce
  obtain k3 r3 where s3: "sk_setsockopt api r1 SOL_SOCKET SO_REUSEADDR 1 k2 = (k3, r3)" by fastforce
  obtain k4 r4 where s4: "sk_bind api r1 (OsInet a) k3 = (k4, r4)" by fastforce
  note run' = run [unfolded udp_sas_socket_def Let_def s1 s2 s3 s4 prod.case]
  consider "r1 < 0" "fds k1 = fds k" | t1 where "0 \<le> r1" "fds k r1 = None" "fds k1 = (fds k)(r1 \<mapsto> t1)" "t1 = fresh_sock ?f SOCK_DGRAM"
    using socketD [OF K s1] by blast
  then show ?thesis
  proof cases
    case 1
    then show ?thesis using run' by simp
  next
    case (2 t1)
    show ?thesis
    proof (cases "r2 = 0 \<and> r3 = 0 \<and> r4 = 0")
      case False
      have "\<exists>t. fds k2 = (fds k)(r1 \<mapsto> t)" using setsockoptD [OF K _ s2] 2(3) by auto
      moreover have "\<exists>t. fds k3 = (fds k)(r1 \<mapsto> t)" using setsockoptD [OF K _ s3] calculation by force
      moreover have "\<exists>t. fds k4 = (fds k)(r1 \<mapsto> t)" using bindD [OF K _ s4] calculation by force
      ultimately show ?thesis using run' False 2(1,2) closeD [OF K] closed_again [of fds k r1] by (auto split: if_splits)
    next
      case True
      then have "fds k4 = (fds k)(r1 \<mapsto> reply_sock a)"
        using setsockoptD [OF K _ s2] setsockoptD [OF K _ s3] bindD [OF K _ s4] 2(3,4)
        by (auto simp: reply_sock_def fresh_sock_def ip_family_def PF_INET_def PF_INET6_def)
      then show ?thesis using run' True 2(1,2) by simp
    qed
  qed
qed

text \<open>
  The socket of a stub is transparent, reusable and bound to the remote address; when it cannot be had, or
  when the stub is cleaned up, no descriptor stays open.
\<close>

theorem reply_socket_names_the_remote:
  assumes "kernel_ok api fds" "stub_socket api ok tx a k = (k', sas)" "ustub_new sas a = (stub, eff)"
  shows "case stub of
      None \<Rightarrow> fds (close_effects api eff k') = fds k
    | Some s \<Rightarrow> fds k (int (ub_rawfd s)) = None \<and> fds k' = (fds k)(int (ub_rawfd s) \<mapsto> reply_sock a) \<and>
        eff = [SpawnStub (ub_rawfd s) tx a] \<and> fds (close_effects api (snd (ustub_cleanup s)) k') = fds k"
proof -
  obtain k1 fd where s: "udp_sas_socket api a k = (k1, fd)" by fastforce
  show ?thesis
  proof (cases "fd < 0")
    case True
    then show ?thesis
      using udp_sas_socket_ok [OF assms(1) s] s assms(2,3)
      by (auto simp: stub_socket_def sas_socket_def ustub_new_def start_udp_socket_def)
  next
    case False
    then have o: "fds k fd = None" "fds k1 = (fds k)(fd \<mapsto> reply_sock a)" "int (nat fd) = fd"
      using udp_sas_socket_ok [OF assms(1) s] by auto
    then have "fds (sk_close api fd k1) = fds k" using closeD [OF assms(1)] closed_again by metis
    then show ?thesis
      using False s o assms(2,3)
      by (auto simp: stub_socket_def sas_socket_def ustub_new_def start_udp_socket_def ustub_cleanup_def split: if_splits)
  qed
qed

section \<open>The listener\<close>

definition listener_sock :: "socket_addr \<Rightarrow> ksock" where
  "listener_sock a = \<lparr>so_domain = ip_family (sa_ip a), so_kind = SOCK_DGRAM,
     so_options = (if is_ipv4 (sa_ip a) then [(SOL_IP, IP_TRANSPARENT) \<mapsto> 1, (SOL_IP, IP_RECVORIGDSTADDR) \<mapsto> 1]
       else [(SOL_IP, IP_TRANSPARENT) \<mapsto> 1, (SOL_IPV6, IPV6_RECVORIGDSTADDR) \<mapsto> 1]),
     so_name = Some (OsInet a)\<rparr>"

lemma setsockopt_ok:
  assumes "kernel_ok api fds" "fds k fd = Some s" "setsockopt api fd l n v k = (k', r)"
  shows "(\<exists>e. r = Inl e) \<and> fds k' = fds k \<or> r = Inr () \<and> fds k' = (fds k)(fd \<mapsto> s\<lparr>so_options := (so_options s)((l, n) \<mapsto> v)\<rparr>)"
proof -
  obtain k1 x where x: "sk_setsockopt api fd l n v k = (k1, x)" by fastforce
  show ?thesis using setsockoptD [OF assms(1,2) x] assms(3) x by (auto simp: setsockopt_def try_io_def split: if_splits)
qed

lemma lib_bindD:
  assumes "lib_ok lib fds" "la_bind lib a k = (k', r)"
  shows "r = Inl e \<Longrightarrow> fds k' = fds k" and "r = Inr fd \<Longrightarrow> 0 \<le> fd \<and> fds k fd = None \<and> fds k' = (fds k)(fd \<mapsto>
      \<lparr>so_domain = ip_family (sa_ip a), so_kind = SOCK_DGRAM, so_options = Map.empty, so_name = Some (OsInet a)\<rparr>)"
  using assms unfolding lib_ok_def by blast+

lemma origdstaddr_ok:
  assumes "kernel_ok api fds" "fds k fd = Some s" "so_domain s = ip_family ip" "set_ip_recv_origdstaddr api fd k = (k', r)"
  shows "(\<exists>e. r = Inl e) \<or> fds k' = (fds k)(fd \<mapsto> s\<lparr>so_options := (so_options s)
    ((if is_ipv4 ip then (SOL_IP, IP_RECVORIGDSTADDR) else (SOL_IPV6, IPV6_RECVORIGDSTADDR)) \<mapsto> 1)\<rparr>)"
proof -
  obtain k1 x v where x: "sk_getsockopt api fd SOL_SOCKET SO_DOMAIN k = (k1, x, v)" by (metis prod_cases3)
  show ?thesis
  proof (cases "x = -1")
    case True
    then show ?thesis using x assms(4) by (auto simp: set_ip_recv_origdstaddr_def getsockopt_def try_io_def)
  next
    case False
    then have v: "fds k1 = fds k" "v = ip_family ip" using getsockoptD [OF assms(1,2) x] assms(3) by auto
    define l where "l = (if is_ipv4 ip then (SOL_IP, IP_RECVORIGDSTADDR) else (SOL_IPV6, IPV6_RECVORIGDSTADDR))"
    have "setsockopt api fd (fst l) (snd l) 1 k1 = (k', r)"
      using False x v assms(4)
      by (simp add: set_ip_recv_origdstaddr_def getsockopt_def try_io_def ip_family_def PF_INET_def PF_INET6_def l_def split: if_splits)
    from setsockopt_ok [OF assms(1) _ this] show ?thesis using v assms(2) by (auto simp: l_def)
  qed
qed

text \<open>
  C12: When a UDP listener is started, its socket is bound to the parsed address, transparent, and set to report
  the original destinations of its own address family, and no other socket is touched; when starting fails
  with an error, no socket is left open.
\<close>

theorem listener_asks_for_destinations:
  assumes K: "kernel_ok api fds" and L: "lib_ok lib fds" and run: "open_listener api lib listen_addr k = Inr (k', r)"
  shows "case r of
      Inl e \<Rightarrow> fds k' = fds k
    | Inr fd \<Rightarrow> \<exists>a. la_parse lib listen_addr = Some a \<and> fds k fd = None \<and> fds k' = (fds k)(fd \<mapsto> listener_sock a)"
proof (cases "la_parse lib listen_addr")
  case None
  then show ?thesis using run by (auto simp: open_listener_def)
next
  case (Some a)
  obtain k1 b where b: "la_bind lib a k = (k1, b)" by fastforce
  show ?thesis
  proof (cases b)
    case (Inl e)
    then show ?thesis using Some b run lib_bindD(1) [OF L b] by (auto simp: open_listener_def)
  next
    case (Inr fd)
    let ?s = "\<lparr>so_domain = ip_family (sa_ip a), so_kind = SOCK_DGRAM, so_options = Map.empty, so_name = Some (OsInet a)\<rparr>"
    have o: "fds k fd = None" "fds k1 = (fds k)(fd \<mapsto> ?s)" using lib_bindD(2) [OF L b Inr] by simp_all
    obtain k2 t where t: "setsockopt api fd SOL_IP IP_TRANSPARENT 1 k1 = (k2, t)" by fastforce
    obtain k3 u where u: "set_ip_recv_origdstaddr api fd k2 = (k3, u)" by fastforce
    have t': "(\<exists>e. t = Inl e) \<and> fds k2 = fds k1 \<or> t = Inr () \<and> fds k2 = (fds k)(fd \<mapsto> ?s\<lparr>so_options := [(SOL_IP, IP_TRANSPARENT) \<mapsto> 1]\<rparr>)"
      using setsockopt_ok [OF K _ t] o by auto
    show ?thesis
    proof (cases t)
      case (Inl e)
      then show ?thesis
        using Some b \<open>b = Inr fd\<close> t t' run closeD [OF K, of fd k2] o by (auto simp: open_listener_def fun_upd_idem)
    next
      case (Inr x)
      then have k2: "fds k2 = (fds k)(fd \<mapsto> ?s\<lparr>so_options := [(SOL_IP, IP_TRANSPARENT) \<mapsto> 1]\<rparr>)" using t' by simp
      have fin: "k' = k3" "r = Inr fd" "\<nexists>e. u = Inl e"
        using Some b \<open>b = Inr fd\<close> t Inr u run
        by (auto simp: open_listener_def udp_socket_ex_new_def split: sum.splits if_splits)
      then show ?thesis
        using origdstaddr_ok [OF K _ _ u, of _ "sa_ip a"] k2 Some o(1) by (auto simp: listener_sock_def)
    qed
  qed
qed

section \<open>Reading an intercepted datagram\<close>

definition in_dst :: "cmsg \<Rightarrow> bool" where
  "in_dst c \<longleftrightarrow> cmsg_level c = SOL_IP \<and> cmsg_type c = IP_RECVORIGDSTADDR"

definition in6_dst :: "cmsg \<Rightarrow> bool" where
  "in6_dst c \<longleftrightarrow> cmsg_level c = SOL_IPV6 \<and> cmsg_type c = IPV6_RECVORIGDSTADDR"

text \<open>The original destination that the control messages name, the last one if there are several.\<close>

definition original_destination :: "cmsg list \<Rightarrow> socket_addr option" where
  "original_destination cs =
     (case rev (filter (\<lambda>c. in_dst c \<or> in6_dst c) cs) of
        [] \<Rightarrow> None
      | c # _ \<Rightarrow> Some (if in_dst c then SocketAddr (V4 (fst (cmsg_as_in c))) (snd (cmsg_as_in c))
                  else SocketAddr (V6 (fst (cmsg_as_in6 c))) (snd (cmsg_as_in6 c))))"

lemma parse_control_last:
  assumes "28 \<le> n"
  shows "parse_control n cs dst = (case original_destination cs of None \<Rightarrow> dst | Some a \<Rightarrow> OsInet a)"
proof (induction cs arbitrary: dst)
  case (Cons c cs)
  then show ?case using assms
    by (auto simp: original_destination_def in_dst_def in6_dst_def split: list.splits option.splits)
qed (simp add: original_destination_def)

text \<open>The kernel cuts a datagram off at the end of the buffer.\<close>

definition delivers :: "'k sock_api \<Rightarrow> int \<Rightarrow> 'k \<Rightarrow> bytes \<Rightarrow> socket_addr \<Rightarrow> cmsg list \<Rightarrow> bool" where
  "delivers api fd k d src cs \<longleftrightarrow> (\<forall>n. \<exists>k'. sk_recvmsg api fd n 0 k =
     (k', \<lparr>mh_nb = int (length (take n d)), mh_data = take n d, mh_name = OsInet src, mh_control = cs\<rparr>))"

definition crate_ok :: "os_crate \<Rightarrow> bool" where
  "crate_ok oc \<longleftrightarrow> 28 \<le> oc_capacity oc \<and> oc_into oc OsUnspec = None \<and> (\<forall>a. oc_into oc (OsInet a) = Some a)"

text \<open>
  A datagram is read together with the last original destination its control messages name, and cut off at
  the end of the buffer; when they name none, \<^verbatim>\<open>unwrap\<close> panics.
\<close>

theorem datagram_with_destination:
  assumes "crate_ok oc" "delivers api fd k d src cs"
  shows "udp_poll_next (sys_recv api oc IsReady cleared fd k) spare [] =
    (case original_destination cs of
       Some dst \<Rightarrow> Inr ([], UdpReady (take spare d) src dst)
     | None \<Rightarrow> Inl Panicked)"
proof -
  define bs where "bs = take spare d"
  obtain k' where r: "sk_recvmsg api fd spare 0 k =
     (k', \<lparr>mh_nb = int (length bs), mh_data = bs, mh_name = OsInet src, mh_control = cs\<rparr>)"
    using assms(2) unfolding delivers_def bs_def by blast
  have "parse_control (oc_capacity oc) cs OsUnspec = (case original_destination cs of None \<Rightarrow> OsUnspec | Some a \<Rightarrow> OsInet a)"
    using assms(1) by (intro parse_control_last) (simp add: crate_ok_def)
  then have "sys_recv api oc IsReady cleared fd k spare = RecvGot bs (Some src) (original_destination cs)"
    using assms(1) by (auto simp: sys_recv_def recv_sas_def udp_sas_recv_def r crate_ok_def split: option.splits)
  then show ?thesis
    by (auto simp: udp_poll_next_def poll_recv_from_def unwrap_def Let_def bs_def split: option.splits)
qed

section \<open>The netlink socket's life\<close>

definition nl_sock :: ksock where
  "nl_sock = \<lparr>so_domain = PF_NETLINK, so_kind = SOCK_DGRAM, so_options = Map.empty, so_name = Some (OsNl 0 0)\<rparr>"

lemma nlsocket_opened:
  assumes "kernel_ok api fds" "nlsocket_new api k = Inr (k', s)"
  shows "fds k (nl_rawfd s) = None" "fds k' = (fds k)(nl_rawfd s \<mapsto> nl_sock)"
    "fds k'' = fds k' \<Longrightarrow> fds (nlsocket_drop api s k'') = fds k"
proof -
  obtain k1 x where x: "sk_socket api PF_NETLINK SOCK_DGRAM NETLINK_NETFILTER k = (k1, x)" by fastforce
  obtain k2 y where y: "sk_bind api x (OsNl 0 0) k1 = (k2, y)" by fastforce
  have r: "0 \<le> x" "0 \<le> y" "k' = k2" "nl_rawfd s = x"
    using assms(2) by (auto simp: nlsocket_new_def netlink_socket_def x y split: if_splits)
  then have "fds k x = None" "fds k1 = (fds k)(x \<mapsto> fresh_sock PF_NETLINK SOCK_DGRAM)" using socketD [OF assms(1) x] by auto
  moreover from this have "fds k2 = (fds k)(x \<mapsto> nl_sock)"
    using bindD [OF assms(1) _ y] r(2) by (auto simp: fresh_sock_def nl_sock_def)
  ultimately show "fds k (nl_rawfd s) = None" "fds k' = (fds k)(nl_rawfd s \<mapsto> nl_sock)"
    "fds k'' = fds k' \<Longrightarrow> fds (nlsocket_drop api s k'') = fds k"
    using r closeD [OF assms(1)] closed_again [of fds k x] by (auto simp: nlsocket_drop_def)
qed

text \<open>When the bind fails the error is returned, and the socket stays open.\<close>

lemma netlink_socket_leaks:
  assumes "kernel_ok api fds" "sk_socket api PF_NETLINK SOCK_DGRAM NETLINK_NETFILTER k = (k1, x)" "0 \<le> x"
    and "sk_bind api x (OsNl 0 0) k1 = (k2, -1)"
  shows "netlink_socket api k = (k2, Inl (last_os_error api k2)) \<and> fds k x = None \<and> fds k2 x \<noteq> None"
  using socketD [OF assms(1,2)] bindD [OF assms(1) _ assms(4)] assms(2-4) by (auto simp: netlink_socket_def)

section \<open>A kernel to run the model on\<close>

text \<open>
  The sockets are a list; \<open>refuses\<close> says which level and name of an option are refused, \<open>Some\<close> of a
  bound address.
\<close>

definition list_fds :: "ksock option list fd_table" where
  "list_fds k fd = (if 0 \<le> fd \<and> nat fd < length k then k ! nat fd else None)"

definition on_sock :: "ksock option list \<Rightarrow> int \<Rightarrow> (ksock \<Rightarrow> ksock) \<Rightarrow> ksock option list \<times> int" where
  "on_sock k fd f =
     (case list_fds k fd of Some s \<Rightarrow> (k[nat fd := Some (f s)], 0) | None \<Rightarrow> (k, -1))"

definition list_kernel :: "(int \<times> int \<Rightarrow> bool) \<Rightarrow> bytes \<Rightarrow> socket_addr \<Rightarrow> cmsg list \<Rightarrow> ksock option list sock_api" where
  "list_kernel refuses d src cs =
     \<lparr>sk_errno = (\<lambda>_. 22),
      sk_socket = (\<lambda>dom t p k. (k @ [Some (fresh_sock dom t)], int (length k))),
      sk_bind = (\<lambda>fd a k. on_sock k fd (\<lambda>s. s\<lparr>so_name := Some a\<rparr>)),
      sk_setsockopt = (\<lambda>fd l n v k. if refuses (l, n) then (k, -1)
         else on_sock k fd (\<lambda>s. s\<lparr>so_options := (so_options s)((l, n) \<mapsto> v)\<rparr>)),
      sk_getsockopt = (\<lambda>fd l n k. case list_fds k fd of Some s \<Rightarrow> (k, 0, so_domain s) | None \<Rightarrow> (k, -1, 0)),
      sk_close = (\<lambda>fd k. if 0 \<le> fd then k[nat fd := None] else k),
      sk_recvmsg = (\<lambda>fd n flags k.
         (k, \<lparr>mh_nb = int (length (take n d)), mh_data = take n d, mh_name = OsInet src, mh_control = cs\<rparr>)),
      sk_sendto = (\<lambda>fd bs flags a k. (k, int (length bs)))\<rparr>"

lemma list_fds_update: "list_fds k fd = Some s \<Longrightarrow> list_fds (k[nat fd := x]) = (list_fds k)(fd := x)"
  by (auto simp: list_fds_def fun_eq_iff nth_list_update split: if_splits)

lemma list_fds_close: "list_fds (if 0 \<le> fd then k[nat fd := None] else k) = (list_fds k)(fd := None)"
  by (auto simp: list_fds_def fun_eq_iff nth_list_update)

lemma list_fds_open: "list_fds (k @ [Some s]) = (list_fds k)(int (length k) \<mapsto> s)"
  by (auto simp: list_fds_def fun_eq_iff nth_append)

lemma list_kernel_ok: "kernel_ok (list_kernel refuses d src cs) list_fds"
  by (auto simp: kernel_laws list_kernel_def list_fds_open on_sock_def list_fds_update list_fds_close split: option.splits if_splits)
    (simp add: list_fds_def)

definition list_lib :: "(str \<Rightarrow> socket_addr option) \<Rightarrow> ksock option list sock_lib" where
  "list_lib parse =
     \<lparr>la_parse = parse,
      la_bind = (\<lambda>a k. (k @ [Some \<lparr>so_domain = ip_family (sa_ip a), so_kind = SOCK_DGRAM, so_options = Map.empty,
         so_name = Some (OsInet a)\<rparr>], Inr (int (length k)))),
      la_from_socket = (\<lambda>_ _. True), la_poll_evented = (\<lambda>_ _. True)\<rparr>"

lemma list_lib_ok: "lib_ok (list_lib parse) list_fds"
  by (auto simp: lib_ok_def list_lib_def list_fds_open) (simp add: list_fds_def)

lemma reply_socket_names_the_remote_witness:
  "\<exists>s. ustub_new (snd (stub_socket (list_kernel (\<lambda>_. False) [] sample_peer []) True 1 sample_remote [])) sample_remote
      = (Some s, [SpawnStub 0 1 sample_remote]) \<and>
    list_fds (fst (stub_socket (list_kernel (\<lambda>_. False) [] sample_peer []) True 1 sample_remote [])) 0 = Some (reply_sock sample_remote)"
proof -
  let ?K = "list_kernel (\<lambda>_. False) [] sample_peer []"
  obtain k sas where s: "stub_socket ?K True 1 sample_remote [] = (k, sas)" "sas = SasSocket 0 1"
    by (auto simp: stub_socket_def sas_socket_def udp_sas_socket_def list_kernel_def on_sock_def list_fds_def sample_remote_def ip_family_def sock_consts)
  obtain st eff where u: "ustub_new sas sample_remote = (Some st, eff)" "ub_rawfd st = 0"
    using s(2) by (auto simp: ustub_new_def start_udp_socket_def)
  from reply_socket_names_the_remote [OF list_kernel_ok s(1) u(1)] show ?thesis using s(1) u by auto
qed

lemma listener_asks_for_destinations_witness:
  "list_fds (fst (projr (open_listener (list_kernel (\<lambda>_. False) [] sample_peer []) (list_lib (\<lambda>_. Some sample_remote)) (lit ''x'') []))) 0
      = Some (listener_sock sample_remote)"
proof -
  let ?K = "list_kernel (\<lambda>_. False) [] sample_peer []" let ?L = "list_lib (\<lambda>_. Some sample_remote)"
  obtain k where r: "open_listener ?K ?L (lit ''x'') [] = Inr (k, Inr 0)"
    by (auto simp: open_listener_def list_lib_def list_kernel_def on_sock_def list_fds_def sample_remote_def ip_family_def sock_consts
        setsockopt_def try_io_def udp_socket_ex_new_def set_ip_recv_origdstaddr_def getsockopt_def)
  from listener_asks_for_destinations [OF list_kernel_ok list_lib_ok r] show ?thesis using r by (simp add: list_lib_def)
qed

definition sample_crate :: os_crate where
  "sample_crate = \<lparr>oc_capacity = 28, oc_into = (\<lambda>a. case a of OsInet a \<Rightarrow> Some a | _ \<Rightarrow> None)\<rparr>"

definition sample_cmsg :: cmsg where
  "sample_cmsg = \<lparr>cmsg_level = SOL_IP, cmsg_type = IP_RECVORIGDSTADDR, cmsg_as_in = (Ipv4Addr 8 8 8 8, 53),
     cmsg_as_in6 = (Ipv6Addr 0 0 0 0 0 0 0 0, 0)\<rparr>"

lemma datagram_with_destination_witness:
  "udp_poll_next (sys_recv (list_kernel (\<lambda>_. False) [1, 2, 3] sample_peer [sample_cmsg]) sample_crate IsReady True 0 []) 2 []
      = Inr ([], UdpReady [1, 2] sample_peer (SocketAddr (V4 (Ipv4Addr 8 8 8 8)) 53)) \<and>
   udp_poll_next (sys_recv (list_kernel (\<lambda>_. False) [1, 2, 3] sample_peer []) sample_crate IsReady True 0 []) 2 [] = Inl Panicked"
proof -
  have c: "crate_ok sample_crate" by (simp add: crate_ok_def sample_crate_def)
  have d: "delivers (list_kernel (\<lambda>_. False) [1, 2, 3] sample_peer cs) 0 [] [1, 2, 3] sample_peer cs" for cs
    by (simp add: delivers_def list_kernel_def)
  show ?thesis
    using datagram_with_destination [OF c d, where spare = 2 and cs = "[sample_cmsg]"] datagram_with_destination [OF c d, where spare = 2 and cs = "[]"]
    by (simp add: original_destination_def in_dst_def sample_cmsg_def numeral_2_eq_2)
qed

end
