(* ===== verification/Req_Mgr.thy ===== *)
theory Req_Mgr imports Tun_Mgr begin

text \<open>
  \<^verbatim>\<open>src/requests\<close>: the listener for intercepted TCP connections, which hands them to the tunnel managers
  in turn; and \<^verbatim>\<open>serve_sock\<close> of \<^verbatim>\<open>src/tunnels/reqserv.rs\<close>, with which a manager takes one over.
\<close>

section \<open>A connection\<close>

text \<open>
  An accepted socket: whether its options can be set, its own address (the original destination of the
  intercepted connection), and its peer, which the system no longer knows once the peer has reset it.
\<close>

datatype sock_name = NameFailed | NameInet ip_addr u16 | NameOther

record tcp_sock =
  so_id :: nat
  so_options_ok :: bool
  so_name :: sock_name
  so_peer :: "socket_addr option"

definition serve_sock ::
  "(chan \<Rightarrow> bool) \<Rightarrow> chan \<Rightarrow> nat \<Rightarrow> tun_mgr \<Rightarrow> tcp_sock \<Rightarrow> (tun_mgr \<times> effect list \<times> tun_stub option) res" where
  "serve_sock alive tx trigger m socket =
     (if \<not> so_options_ok socket then Inl Panicked
      else
        case so_name socket of
          NameFailed \<Rightarrow> Inl Panicked
        | NameOther \<Rightarrow> Inr (m, [], None)
        | NameInet ip port \<Rightarrow>
            and_then (unwrap (so_peer socket)) (\<lambda>peer_addr.
            let m = log_access m (sa_ip peer_addr) ip; req = request_with tx trigger in
            mgr_request_created alive m req ip port))"

section \<open>The listener\<close>

datatype req_effect = TcpTunnel chan nat

record req_server =
  rs_listen_addr :: str
  rs_listen_port :: u16
  rs_listener_trigger :: bool

definition req_server_new :: "str \<Rightarrow> u16 \<Rightarrow> req_server" where
  "req_server_new addr port = \<lparr>rs_listen_addr = addr, rs_listen_port = port, rs_listener_trigger = False\<rparr>"

text \<open>\<open>bind\<close>: the address parses, the socket binds and becomes transparent.\<close>

definition req_server_start :: "(str \<Rightarrow> u16 \<Rightarrow> bool) \<Rightarrow> req_server \<Rightarrow> req_server \<times> bool" where
  "req_server_start bind s =
     (if bind (rs_listen_addr s) (rs_listen_port s) then (s\<lparr>rs_listener_trigger := True\<rparr>, True) else (s, False))"

definition req_server_stop :: "req_server \<Rightarrow> req_server" where
  "req_server_stop s = s\<lparr>rs_listener_trigger := False\<rparr>"

record req_mgr =
  qm_server :: req_server
  qm_server6 :: req_server
  qm_tmstubs :: "chan list"
  qm_tmindex :: nat
  qm_accepted :: nat

definition req_mgr_new :: "chan list \<Rightarrow> req_mgr" where
  "req_mgr_new tmstubs =
     \<lparr>qm_server = req_server_new LOCAL_SERVER LOCAL_TPROXY_SERVER_PORT,
      qm_server6 = req_server_new (lit ''::1'') LOCAL_TPROXY_SERVER_PORT,
      qm_tmstubs = tmstubs, qm_tmindex = 0, qm_accepted = 0\<rparr>"

definition req_mgr_init :: "(str \<Rightarrow> u16 \<Rightarrow> bool) \<Rightarrow> req_mgr \<Rightarrow> req_mgr \<times> bool" where
  "req_mgr_init bind m =
     (case req_server_start bind (qm_server m) of
        (s, False) \<Rightarrow> (m\<lparr>qm_server := s\<rparr>, False)
      | (s, True) \<Rightarrow>
          (case req_server_start bind (qm_server6 m) of
             (s6, ok) \<Rightarrow> (m\<lparr>qm_server := s, qm_server6 := s6\<rparr>, ok)))"

definition req_mgr_stop :: "req_mgr \<Rightarrow> req_mgr" where
  "req_mgr_stop m =
     m\<lparr>qm_tmstubs := [], qm_server := req_server_stop (qm_server m), qm_server6 := req_server_stop (qm_server6 m)\<rparr>"

definition on_accept_tcpstream :: "(chan \<Rightarrow> bool) \<Rightarrow> req_mgr \<Rightarrow> nat \<Rightarrow> (req_mgr \<times> req_effect list) res" where
  "on_accept_tcpstream alive m tcpstream =
     (let index = qm_tmindex m in
      if length (qm_tmstubs m) \<le> index then Inr (m, [])
      else
        and_then (vec_get (qm_tmstubs m) index) (\<lambda>tx.
        Inr (m\<lparr>qm_tmindex := (index + 1) mod length (qm_tmstubs m), qm_accepted := qm_accepted m + 1\<rparr>,
             if alive tx then [TcpTunnel tx tcpstream] else [])))"

text \<open>
  The accept loop: a failure ends it unless the system is out of descriptors (24). The second value is
  whether the listener still runs.
\<close>

datatype accept_item = Accepted nat | AcceptFailed "nat option"

fun accept_loop ::
  "(chan \<Rightarrow> bool) \<Rightarrow> req_mgr \<Rightarrow> accept_item list \<Rightarrow> (req_mgr \<times> req_effect list \<times> bool) res" where
  "accept_loop alive m [] = Inr (m, [], True)"
| "accept_loop alive m (Accepted s # items) =
     and_then (on_accept_tcpstream alive m s) (\<lambda>(m, eff).
     and_then (accept_loop alive m items) (\<lambda>(m, eff2, runs). Inr (m, eff @ eff2, runs)))"
| "accept_loop alive m (AcceptFailed code # items) =
     (if code = Some 24 then accept_loop alive m items else Inr (m, [], False))"

section \<open>Connections are dealt out in turn\<close>

fun until_broken :: "accept_item list \<Rightarrow> nat list" where
  "until_broken [] = []"
| "until_broken (Accepted s # items) = s # until_broken items"
| "until_broken (AcceptFailed code # items) = (if code = Some 24 then until_broken items else [])"

definition dealt :: "(chan \<Rightarrow> bool) \<Rightarrow> chan list \<Rightarrow> nat \<Rightarrow> nat list \<Rightarrow> req_effect list" where
  "dealt alive tms first socks =
     concat (map (\<lambda>i. let tx = tms ! ((first + i) mod length tms) in if alive tx then [TcpTunnel tx (socks ! i)] else [])
       [0..<length socks])"

lemma dealt_Cons:
  "dealt alive tms first (s # socks) =
    (let tx = tms ! (first mod length tms) in if alive tx then [TcpTunnel tx s] else [])
    @ dealt alive tms (first + 1) socks"
proof -
  have "[0..<length (s # socks)] = 0 # map Suc [0..<length socks]" by (simp only: length_Cons upt_conv_Cons) (simp add: map_Suc_upt)
  then show ?thesis unfolding dealt_def by (simp del: upt_Suc add: comp_def Let_def cong: if_cong)
qed

lemma accept_loop_deals:
  assumes "n = length (qm_tmstubs m)" "0 < n" "qm_tmindex m = k mod n"
  shows "\<exists>m' runs. accept_loop alive m items = Inr (m', dealt alive (qm_tmstubs m) k (until_broken items), runs) \<and>
    qm_tmstubs m' = qm_tmstubs m \<and> qm_accepted m' = qm_accepted m + length (until_broken items)"
  using assms
proof (induction alive m items arbitrary: k rule: accept_loop.induct)
  case (1 alive m)
  then show ?case by (auto simp: dealt_def)
next
  case (2 alive m s items)
  have lt: "k mod n < n" using "2.prems"(2) by simp
  let ?m = "m\<lparr>qm_tmindex := (k mod n + 1) mod n, qm_accepted := qm_accepted m + 1\<rparr>"
  let ?e = "if alive (qm_tmstubs m ! (k mod n)) then [TcpTunnel (qm_tmstubs m ! (k mod n)) s] else []"
  have a: "on_accept_tcpstream alive m s = Inr (?m, ?e)"
  proof -
    have "(length (qm_tmstubs m) \<le> k mod length (qm_tmstubs m)) = False" using lt "2.prems"(1) by simp
    then show ?thesis using "2.prems" lt by (simp add: on_accept_tcpstream_def Let_def)
  qed
  have "(k mod n + 1) mod n = (k + 1) mod n" by (simp add: mod_simps)
  then obtain m' runs where IH: "accept_loop alive ?m items = Inr (m', dealt alive (qm_tmstubs m) (k + 1) (until_broken items), runs)"
    "qm_tmstubs m' = qm_tmstubs m" "qm_accepted m' = qm_accepted m + 1 + length (until_broken items)"
    using "2.IH" [OF a refl, of "k + 1"] "2.prems"(1,2) by auto
  have "dealt alive (qm_tmstubs m) k (s # until_broken items) = ?e @ dealt alive (qm_tmstubs m) (k + 1) (until_broken items)"
    using "2.prems"(1) by (simp only: dealt_Cons Let_def)
  then show ?case using a IH by simp
next
  case (3 alive m code items)
  then show ?case by (auto simp: dealt_def)
qed

text \<open>
  As long as the listener runs, the \<open>i\<close>-th accepted connection goes to manager \<open>i mod n\<close> (it is lost
  when that manager's thread is gone); running out of descriptors does not stop the listener.
\<close>

theorem connections_dealt_in_turn:
  assumes "tmstubs \<noteq> []"
  shows "\<exists>m runs. accept_loop alive (fst (req_mgr_init bind (req_mgr_new tmstubs))) items
      = Inr (m, concat (map (\<lambda>i. let tx = tmstubs ! (i mod length tmstubs) in
            if alive tx then [TcpTunnel tx (until_broken items ! i)] else []) [0..<length (until_broken items)]), runs) \<and>
    qm_accepted m = length (until_broken items)"
proof -
  let ?m = "fst (req_mgr_init bind (req_mgr_new tmstubs))"
  have "qm_tmstubs ?m = tmstubs" "qm_tmindex ?m = 0" "qm_accepted ?m = 0"
    by (simp_all add: req_mgr_init_def req_mgr_new_def req_server_start_def split: prod.splits bool.splits)
  then show ?thesis
    using accept_loop_deals [of "length tmstubs" ?m 0 alive items] assms by (auto simp: dealt_def)
qed

lemma connections_dealt_in_turn_witness:
  "\<exists>m runs. accept_loop (\<lambda>_. True) (fst (req_mgr_init (\<lambda>_ _. True) (req_mgr_new [5, 6]))) [Accepted 1, AcceptFailed (Some 24), Accepted 2, Accepted 3]
     = Inr (m, [TcpTunnel 5 1, TcpTunnel 6 2, TcpTunnel 5 3], runs) \<and> qm_accepted m = 3"
  using connections_dealt_in_turn [of "[5, 6]" "\<lambda>_. True" "\<lambda>_ _. True" "[Accepted 1, AcceptFailed (Some 24), Accepted 2, Accepted 3]"]
  by (simp add: Let_def upt_rec numeral_eq_Suc)

end
