(* ===== verification/Sub_Service.thy ===== *)
theory Sub_Service imports Req_Mgr Udp_X X_Port Forwarder begin

text \<open>
  \<^verbatim>\<open>src/service/subservice.rs\<close>: the threads of the program, the commands each understands, and how they are
  started together and stopped together.
\<close>

section \<open>Commands\<close>

datatype sub_cmd =
    CmdStop
  | CmdTcpTunnel tcp_sock
  | CmdDomainsUpdate "str list"
  | CmdTunCfgUpdate tun_cfg
  | CmdUdpProxy bytes socket_addr socket_addr nat
  | CmdUdpRecv bytes socket_addr socket_addr
  | CmdSetUdpTx chan

datatype sub_type = SsForwarder | SsRegMgr | SsTunMgr | SsXTunnel | SsUdpX

record sub_ctl =
  sc_handler :: "nat option"
  sc_ctl_tx :: "chan option"
  sc_sstype :: sub_type

text \<open>What a thread does with one command: its new state, what it sends, and whether it goes on.\<close>

type_synonym ('s, 'e) cmd_handler = "'s \<Rightarrow> sub_cmd \<Rightarrow> ('s \<times> 'e list \<times> bool) res"

definition forwarder_cmd :: "dns_env \<Rightarrow> (forwarder, dns_effect) cmd_handler" where
  "forwarder_cmd env fw cmd =
     (case cmd of
        CmdStop \<Rightarrow> (case fw_stop fw of (fw, eff) \<Rightarrow> Inr (fw, map DEff eff, False))
      | CmdDomainsUpdate domains \<Rightarrow> and_then (update_domains env fw domains) (\<lambda>(fw, eff). Inr (fw, eff, True))
      | _ \<Rightarrow> Inr (fw, [], True))"

definition xtunnel_cmd :: "(xtunnel, x_effect) cmd_handler" where
  "xtunnel_cmd x cmd =
     (case cmd of
        CmdStop \<Rightarrow> (case xt_stop x of (x, eff) \<Rightarrow> Inr (x, eff, False))
      | _ \<Rightarrow> Inr (x, [], False))"

definition reqmgr_cmd :: "(req_mgr, req_effect) cmd_handler" where
  "reqmgr_cmd m cmd =
     (case cmd of
        CmdStop \<Rightarrow> Inr (req_mgr_stop m, [], False)
      | _ \<Rightarrow> Inr (m, [], True))"

definition udpx_cmd ::
  "'q dq_api \<Rightarrow> (chan \<Rightarrow> bool) \<Rightarrow> nat \<Rightarrow> sas_result \<Rightarrow> ('q udpx_mgr, udpx_effect) cmd_handler" where
  "udpx_cmd dq alive now sas m cmd =
     (case cmd of
        CmdStop \<Rightarrow> (case udpx_mgr_stop dq m of (m, eff) \<Rightarrow> Inr (m, eff, False))
      | CmdUdpRecv msg src_addr dst_addr \<Rightarrow>
          and_then (on_udp_proxy_south dq alive now sas m msg src_addr dst_addr) (\<lambda>(m, eff). Inr (m, eff, True))
      | _ \<Rightarrow> Inr (m, [], True))"

text \<open>\<open>tx\<close> and \<open>trigger\<close> are the channel and trigger made for a new connection.\<close>

definition tunmgr_cmd :: "(chan \<Rightarrow> bool) \<Rightarrow> chan \<Rightarrow> nat \<Rightarrow> (tun_mgr, effect) cmd_handler" where
  "tunmgr_cmd alive tx trigger m cmd =
     (case cmd of
        CmdStop \<Rightarrow> (case mgr_stop m of (m, eff) \<Rightarrow> Inr (m, eff, False))
      | CmdTcpTunnel t \<Rightarrow> and_then (serve_sock alive tx trigger m t) (\<lambda>(m, eff, _). Inr (m, eff, True))
      | CmdTunCfgUpdate tuncfg \<Rightarrow> Inr (update_tuncfg m tuncfg, [], True)
      | CmdUdpProxy msg src_addr dst_addr hash_code \<Rightarrow>
          and_then (mgr_udp_proxy_north alive m msg src_addr dst_addr hash_code) (\<lambda>(m, eff). Inr (m, eff, True))
      | CmdSetUdpTx tx \<Rightarrow> Inr (mgr_set_udpx_tx m tx, [], True)
      | _ \<Rightarrow> Inr (m, [], True))"

fun thread_loop :: "('s, 'e) cmd_handler \<Rightarrow> 's \<Rightarrow> sub_cmd list \<Rightarrow> ('s \<times> 'e list \<times> bool) res" where
  "thread_loop h s [] = Inr (s, [], True)"
| "thread_loop h s (cmd # cmds) =
     and_then (h s cmd) (\<lambda>(s, eff, runs).
     if runs then and_then (thread_loop h s cmds) (\<lambda>(s, eff2, runs). Inr (s, eff @ eff2, runs))
     else Inr (s, eff, False))"

section \<open>Starting\<close>

text \<open>
  What the threads find when they start. Thread \<open>k\<close> owns channel \<open>k\<close>; \<open>se_dead\<close> says which threads have
  panicked by the time they are joined.
\<close>

record 'q sub_env =
  se_cpus :: nat
  se_dns :: dns_env
  se_url_ok :: "str \<Rightarrow> bool"
  se_bind_tcp :: "str \<Rightarrow> u16 \<Rightarrow> bool"
  se_bind_udp :: "str \<Rightarrow> server_bind"
  se_alive :: "chan \<Rightarrow> bool"
  se_dq :: "'q dq_api"
  se_now :: nat
  se_dead :: "nat \<Rightarrow> bool"

text \<open>
  Each \<^verbatim>\<open>start_\<close> function gives the control record and what the thread reports on its one-shot channel:
  \<open>None\<close> when it panics first.
\<close>

definition start_forwarder :: "'q sub_env \<Rightarrow> chan \<Rightarrow> tun_cfg \<Rightarrow> str list \<Rightarrow> nat \<Rightarrow> sub_ctl \<times> bool option" where
  "start_forwarder env service_tx cfg domains k =
     (\<lparr>sc_handler = Some k, sc_ctl_tx = Some k, sc_sstype = SsForwarder\<rparr>,
      case forwarder_new (se_dns env) service_tx cfg domains of
        Inl e \<Rightarrow> None
      | Inr (fw, _) \<Rightarrow>
          (case forwarder_init (se_dns env) fw of
             Inl e \<Rightarrow> None
           | Inr (_, _, ok) \<Rightarrow> Some ok))"

definition start_xtunnel :: "'q sub_env \<Rightarrow> tun_cfg \<Rightarrow> nat \<Rightarrow> sub_ctl \<times> bool option" where
  "start_xtunnel env cfg k =
     (\<lparr>sc_handler = Some k, sc_ctl_tx = Some k, sc_sstype = SsXTunnel\<rparr>,
      case xt_start (se_url_ok env) (xtunnel_new (se_now env) (tc_xport_url cfg) (tc_token cfg) (tc_default_dns_server cfg)) of
        Inl e \<Rightarrow> if fatal e then None else Some False
      | Inr _ \<Rightarrow> Some True)"

definition start_reqmgr :: "'q sub_env \<Rightarrow> chan list \<Rightarrow> nat \<Rightarrow> sub_ctl \<times> bool option" where
  "start_reqmgr env tmstubs k =
     (\<lparr>sc_handler = Some k, sc_ctl_tx = Some k, sc_sstype = SsRegMgr\<rparr>,
      Some (snd (req_mgr_init (se_bind_tcp env) (req_mgr_new tmstubs))))"

definition start_udpx :: "'q sub_env \<Rightarrow> chan list \<Rightarrow> nat \<Rightarrow> sub_ctl \<times> bool option" where
  "start_udpx env tmstubs k =
     (\<lparr>sc_handler = Some k, sc_ctl_tx = Some k, sc_sstype = SsUdpX\<rparr>,
      case udpx_mgr_init (se_alive env) (se_bind_udp env) (udpx_mgr_new (se_dq env) tmstubs k) of
        Inl e \<Rightarrow> None
      | Inr (_, _, ok) \<Rightarrow> Some ok)"

text \<open>A manager that fails to start reports \<open>true\<close> like one that starts.\<close>

definition start_one_tunmgr :: "'q sub_env \<Rightarrow> chan \<Rightarrow> tun_cfg \<Rightarrow> nat \<Rightarrow> nat \<Rightarrow> sub_ctl \<times> bool option" where
  "start_one_tunmgr env service_tx cfg tunnels_count k =
     (\<lparr>sc_handler = Some k, sc_ctl_tx = Some k, sc_sstype = SsTunMgr\<rparr>,
      case mgr_init (se_url_ok env) (tun_mgr_new service_tx tunnels_count cfg) of
        Inl e \<Rightarrow> if fatal e then None else Some True
      | Inr _ \<Rightarrow> Some True)"

definition to_future :: "sub_ctl \<times> bool option \<Rightarrow> sub_ctl option" where
  "to_future r = (case r of (ctrl, Some v) \<Rightarrow> if v then Some ctrl else None | (ctrl, None) \<Rightarrow> None)"

text \<open>The threads started are part of what happens; a failed start leaves the others to be cleaned up.\<close>

datatype sub_effect =
    Spawned sub_type nat "bool option"
  | SentStop nat
  | Joined nat

definition spawned :: "sub_ctl \<times> bool option \<Rightarrow> sub_effect" where
  "spawned r = Spawned (sc_sstype (fst r)) (the (sc_handler (fst r))) (snd r)"

fun start_tunmgrs ::
  "'q sub_env \<Rightarrow> chan \<Rightarrow> tun_cfg \<Rightarrow> nat \<Rightarrow> nat list \<Rightarrow> sub_ctl list \<times> bool \<Rightarrow> (sub_ctl list \<times> bool) \<times> sub_effect list" where
  "start_tunmgrs env service_tx cfg n [] acc = (acc, [])"
| "start_tunmgrs env service_tx cfg n (k # ks) (subservices, failed) =
     (let r = start_one_tunmgr env service_tx cfg n k in
      case start_tunmgrs env service_tx cfg n ks
             (case to_future r of Some c \<Rightarrow> (subservices @ [c], failed) | None \<Rightarrow> (subservices, True)) of
        (acc, eff) \<Rightarrow> (acc, spawned r # eff))"

text \<open>\<open>Inl\<close> and \<open>Inr\<close> are the \<^verbatim>\<open>Err\<close> and \<^verbatim>\<open>Ok\<close> of \<^verbatim>\<open>start_tunmgr\<close>.\<close>

definition tunnels_per_mgr :: "'q sub_env \<Rightarrow> tun_cfg \<Rightarrow> nat" where
  "tunnels_per_mgr env cfg =
     (let tunnels_per_mgr = tc_tunnel_number cfg div se_cpus env in
      if tunnels_per_mgr < 1 then 1 else tunnels_per_mgr)"

definition start_tunmgr ::
  "'q sub_env \<Rightarrow> chan \<Rightarrow> tun_cfg \<Rightarrow> nat \<Rightarrow> (sub_ctl list + sub_ctl list) \<times> sub_effect list" where
  "start_tunmgr env service_tx cfg first =
     (case start_tunmgrs env service_tx cfg (tunnels_per_mgr env cfg) [first..<first + se_cpus env] ([], False) of
        ((subservices, failed), eff) \<Rightarrow> (if failed then Inl subservices else Inr subservices, eff))"

fun send_stops :: "(chan \<Rightarrow> bool) \<Rightarrow> sub_ctl list \<Rightarrow> (sub_ctl list \<times> sub_effect list) res" where
  "send_stops alive [] = Inr ([], [])"
| "send_stops alive (s # ss) =
     and_then (unwrap (sc_ctl_tx s)) (\<lambda>tx.
     and_then (send_stops alive ss) (\<lambda>(ss, eff).
     Inr (s\<lparr>sc_ctl_tx := None\<rparr> # ss, (if alive tx then [SentStop tx] else []) @ eff)))"

fun join_all :: "(nat \<Rightarrow> bool) \<Rightarrow> sub_ctl list \<Rightarrow> (sub_ctl list \<times> sub_effect list) res" where
  "join_all dead [] = Inr ([], [])"
| "join_all dead (s # ss) =
     and_then (unwrap (sc_handler s)) (\<lambda>h.
     if dead h then Inl Panicked
     else and_then (join_all dead ss) (\<lambda>(ss, eff). Inr (s\<lparr>sc_handler := None\<rparr> # ss, Joined h # eff)))"

definition cleanup_subservices :: "'q sub_env \<Rightarrow> sub_ctl list \<Rightarrow> (sub_ctl list \<times> sub_effect list) res" where
  "cleanup_subservices env subservices =
     and_then (send_stops (se_alive env) subservices) (\<lambda>(subservices, eff).
     and_then (join_all (se_dead env) subservices) (\<lambda>(subservices, eff2).
     Inr (subservices, eff @ eff2)))"

text \<open>
  \<^verbatim>\<open>ff\<close> of \<^verbatim>\<open>start_subservice\<close>: managers first, then the rest one by one, each awaited before the next;
  \<open>Inl\<close> carries the threads to be cleaned up.
\<close>

fun start_each ::
  "(nat \<times> (nat \<Rightarrow> sub_ctl \<times> bool option)) list \<Rightarrow> sub_ctl list \<Rightarrow> (sub_ctl list + sub_ctl list) \<times> sub_effect list" where
  "start_each [] subservices = (Inr subservices, [])"
| "start_each ((k, start) # rest) subservices =
     (case to_future (start k) of
        None \<Rightarrow> (Inl subservices, [spawned (start k)])
      | Some ctl \<Rightarrow>
          (case start_each rest (subservices @ [ctl]) of
             (r, eff) \<Rightarrow> (r, spawned (start k) # eff)))"

fun tm_channels :: "sub_ctl list \<Rightarrow> chan list res" where
  "tm_channels [] = Inr []"
| "tm_channels (s # ss) =
     and_then (unwrap (sc_ctl_tx s)) (\<lambda>tx. and_then (tm_channels ss) (\<lambda>txs. Inr (tx # txs)))"

definition start_parts ::
  "'q sub_env \<Rightarrow> chan \<Rightarrow> tun_cfg \<Rightarrow> str list \<Rightarrow> nat \<Rightarrow> ((sub_ctl list + sub_ctl list) \<times> sub_effect list) res" where
  "start_parts env service_tx cfg domains first =
     (case start_tunmgr env service_tx cfg first of
        (Inl subservices, eff) \<Rightarrow> Inr (Inl subservices, eff)
      | (Inr subservices, eff) \<Rightarrow>
          and_then (tm_channels subservices) (\<lambda>tmstubs.
          let k = first + se_cpus env in
          case start_each
             ([(k, start_reqmgr env tmstubs),
               (k + 1, start_forwarder env service_tx cfg domains),
               (k + 2, start_udpx env tmstubs)]
              @ (if 0 < length (tc_xport_url cfg) then [(k + 3, start_xtunnel env cfg)] else []))
             subservices of
            (r, eff2) \<Rightarrow> Inr (r, eff @ eff2)))"

definition start_subservice ::
  "'q sub_env \<Rightarrow> chan \<Rightarrow> tun_cfg \<Rightarrow> str list \<Rightarrow> nat \<Rightarrow> (sub_ctl list option \<times> sub_effect list) res" where
  "start_subservice env service_tx cfg domains first =
     and_then (start_parts env service_tx cfg domains first) (\<lambda>(r, eff).
     case r of
       Inr v \<Rightarrow> Inr (Some v, eff)
     | Inl v \<Rightarrow> and_then (cleanup_subservices env v) (\<lambda>(_, eff2). Inr (None, eff @ eff2)))"

section \<open>All or nothing\<close>

text \<open>A thread's control record, and what a start has left running: the threads that reported success.\<close>

definition ctl_of :: "sub_type \<Rightarrow> nat \<Rightarrow> sub_ctl" where
  "ctl_of t k = \<lparr>sc_handler = Some k, sc_ctl_tx = Some k, sc_sstype = t\<rparr>"

lemma starts:
  "fst (start_forwarder env tx cfg domains k) = ctl_of SsForwarder k"
  "fst (start_xtunnel env cfg k) = ctl_of SsXTunnel k"
  "fst (start_reqmgr env stubs k) = ctl_of SsRegMgr k"
  "fst (start_udpx env stubs k) = ctl_of SsUdpX k"
  "fst (start_one_tunmgr env tx cfg n k) = ctl_of SsTunMgr k"
  by (simp_all add: start_forwarder_def start_xtunnel_def start_reqmgr_def start_udpx_def start_one_tunmgr_def ctl_of_def)

definition running :: "sub_effect list \<Rightarrow> sub_ctl list" where
  "running eff = concat (map (\<lambda>e. case e of Spawned t k (Some True) \<Rightarrow> [ctl_of t k] | _ \<Rightarrow> []) eff)"

lemma running_append [simp]: "running (xs @ ys) = running xs @ running ys"
  by (simp add: running_def)

lemma running_Nil [simp]: "running [] = []"
  by (simp add: running_def)

lemma running_spawned:
  assumes "fst r = ctl_of t k"
  shows "running [spawned r] = (case to_future r of Some c \<Rightarrow> [c] | None \<Rightarrow> [])"
    "to_future r = Some c \<Longrightarrow> c = ctl_of t k"
proof -
  obtain b where b: "r = (ctl_of t k, b)" using assms by (cases r) auto
  have f: "sc_sstype (ctl_of t k) = t" "sc_handler (ctl_of t k) = Some k" by (simp_all add: ctl_of_def)
  show "running [spawned r] = (case to_future r of Some c \<Rightarrow> [c] | None \<Rightarrow> [])"
    by (cases b) (auto simp: b f running_def spawned_def to_future_def)
  show "to_future r = Some c \<Longrightarrow> c = ctl_of t k"
    by (cases b) (auto simp: b to_future_def split: if_splits)
qed

definition someone_failed :: "sub_effect list \<Rightarrow> bool" where
  "someone_failed eff \<longleftrightarrow> (\<exists>t k x. Spawned t k x \<in> set eff \<and> x \<noteq> Some True)"

lemma someone_failed_simps [simp]:
  "\<not> someone_failed []"
  "someone_failed (spawned r # es) \<longleftrightarrow> to_future r = None \<or> someone_failed es"
  "someone_failed (xs @ ys) \<longleftrightarrow> someone_failed xs \<or> someone_failed ys"
  by (cases r; cases "snd r"; auto simp: someone_failed_def spawned_def to_future_def split: if_splits)+

lemma running_Cons: "running (e # es) = running [e] @ running es"
  by (simp add: running_def)

lemma start_tunmgrs_running:
  "start_tunmgrs env tx cfg n ks (subs, failed) = ((subs', failed'), eff) \<Longrightarrow>
    subs' = subs @ running eff \<and> (failed' \<longleftrightarrow> failed \<or> someone_failed eff) \<and>
    (\<not> failed' \<longrightarrow> \<not> failed \<and> running eff = map (ctl_of SsTunMgr) ks)"
proof (induction ks arbitrary: subs failed eff)
  case Nil
  then show ?case by simp
next
  case (Cons k ks)
  let ?r = "start_one_tunmgr env tx cfg n k"
  note r = running_spawned [OF starts(5), of env tx cfg n k]
  obtain eff2 where e: "start_tunmgrs env tx cfg n ks
      (case to_future ?r of Some c \<Rightarrow> (subs @ [c], failed) | None \<Rightarrow> (subs, True)) = ((subs', failed'), eff2)"
    "eff = spawned ?r # eff2"
    using Cons.prems by (auto simp: Let_def split: prod.splits)
  have run: "running eff = (case to_future ?r of Some c \<Rightarrow> [c] | None \<Rightarrow> []) @ running eff2"
    using r(1) by (subst e(2), subst running_Cons) simp
  show ?case
  proof (cases "to_future ?r")
    case None
    then show ?thesis using Cons.IH [of subs True eff2] None e run by auto
  next
    case (Some c)
    then show ?thesis
      using Cons.IH [of "subs @ [c]" failed eff2] e run r(2) by auto
  qed
qed

lemma start_each_running:
  assumes "list_all (\<lambda>(k, f). \<exists>t. fst (f k) = ctl_of t k) fs"
  shows "start_each fs subs = (r, eff) \<Longrightarrow>
    (case r of Inr v \<Rightarrow> v = subs @ running eff \<and> running eff = map (\<lambda>(k, f). fst (f k)) fs \<and> \<not> someone_failed eff
     | Inl v \<Rightarrow> v = subs @ running eff \<and> someone_failed eff)"
  using assms
proof (induction fs arbitrary: subs r eff)
  case Nil
  then show ?case by auto
next
  case (Cons x fs)
  obtain k f where x: "x = (k, f)" by (cases x)
  obtain t where t: "fst (f k) = ctl_of t k" using Cons.prems(2) x by auto
  note run = running_spawned [OF t]
  show ?case
  proof (cases "to_future (f k)")
    case None
    then show ?thesis using Cons.prems(1) None run(1) x by auto
  next
    case (Some c)
    then obtain r2 eff2 where e: "start_each fs (subs @ [c]) = (r2, eff2)" "r = r2" "eff = spawned (f k) # eff2"
      using Cons.prems(1) x by (auto split: prod.splits)
    have run2: "running eff = c # running eff2"
      using run(1) Some by (subst e(3), subst running_Cons) simp
    have c: "c = fst (f k)" using run(2) [OF Some] t by simp
    have "list_all (\<lambda>(k, f). \<exists>t. fst (f k) = ctl_of t k) fs" using Cons.prems(2) by simp
    from Cons.IH [OF e(1) this] show ?thesis
      using run2 c x e Some by (auto split: sum.splits)
  qed
qed

lemma tm_channels_ctl: "tm_channels (map (ctl_of t) ks) = Inr ks"
  by (induction ks) (simp_all add: ctl_of_def)

definition part_types :: "'q sub_env \<Rightarrow> tun_cfg \<Rightarrow> sub_type list" where
  "part_types env cfg = replicate (se_cpus env) SsTunMgr @ [SsRegMgr, SsForwarder, SsUdpX]
     @ (if tc_xport_url cfg \<noteq> [] then [SsXTunnel] else [])"

definition all_parts :: "'q sub_env \<Rightarrow> tun_cfg \<Rightarrow> nat \<Rightarrow> sub_ctl list" where
  "all_parts env cfg first = map2 ctl_of (part_types env cfg) [first..<first + length (part_types env cfg)]"

lemma map2_replicate: "map2 f (replicate (length ks) t) ks = map (f t) ks"
  by (induction ks) auto

lemma upt_3_4: "[a..<a + 3] = [a, a + 1, a + 2]" "[a..<a + 4] = [a, a + 1, a + 2, a + 3]"
  by (simp_all add: upt_rec)

lemma all_parts_eq:
  "all_parts env cfg first = map (ctl_of SsTunMgr) [first..<first + se_cpus env] @
     (let k = first + se_cpus env in
      [ctl_of SsRegMgr k, ctl_of SsForwarder (k + 1), ctl_of SsUdpX (k + 2)]
      @ (if tc_xport_url cfg \<noteq> [] then [ctl_of SsXTunnel (k + 3)] else []))"
proof -
  let ?n = "se_cpus env" and ?x = "if tc_xport_url cfg \<noteq> [] then [SsXTunnel] else []"
  have up: "[first..<first + length (part_types env cfg)] =
      [first..<first + ?n] @ [first + ?n..<first + ?n + (3 + length ?x)]"
  proof -
    have len: "first + length (part_types env cfg) = first + ?n + (3 + length ?x)" by (simp add: part_types_def)
    show ?thesis unfolding len by (rule upt_add_eq_append) simp
  qed
  have rest: "[first + ?n..<first + ?n + (3 + length ?x)] =
      [first + ?n, first + ?n + 1, first + ?n + 2] @ (if tc_xport_url cfg \<noteq> [] then [first + ?n + 3] else [])"
  proof (cases "tc_xport_url cfg = []")
    case True
    then have "3 + length ?x = 3" by simp
    then show ?thesis using True by (simp only: upt_3_4(1)) simp
  next
    case False
    then have "3 + length ?x = 4" by simp
    then show ?thesis using False by (simp only: upt_3_4(2)) simp
  qed
  have t: "map2 ctl_of (replicate ?n SsTunMgr) [first..<first + ?n] = map (ctl_of SsTunMgr) [first..<first + ?n]"
    using map2_replicate [of ctl_of "[first..<first + ?n]" SsTunMgr] by simp
  show ?thesis
    unfolding all_parts_def up unfolding part_types_def rest by (subst zip_append) (simp_all add: rest t Let_def)
qed

lemma start_parts_running:
  "\<exists>r eff. start_parts env tx cfg domains first = Inr (r, eff) \<and>
    (case r of Inr v \<Rightarrow> v = running eff \<and> v = all_parts env cfg first \<and> \<not> someone_failed eff
     | Inl v \<Rightarrow> v = running eff \<and> someone_failed eff)"
proof -
  let ?ks = "[first..<first + se_cpus env]"
  obtain subs failed eff where t: "start_tunmgrs env tx cfg (tunnels_per_mgr env cfg) ?ks ([], False) = ((subs, failed), eff)"
    by (metis surj_pair)
  note run = start_tunmgrs_running [OF t]
  show ?thesis
  proof (cases failed)
    case True
    then show ?thesis using t run by (simp add: start_parts_def start_tunmgr_def)
  next
    case False
    then have subs: "subs = map (ctl_of SsTunMgr) ?ks" "running eff = subs" "\<not> someone_failed eff" using run by auto
    let ?k = "first + se_cpus env"
    let ?fs = "[(?k, start_reqmgr env ?ks), (?k + 1, start_forwarder env tx cfg domains), (?k + 2, start_udpx env ?ks)]
         @ (if 0 < length (tc_xport_url cfg) then [(?k + 3, start_xtunnel env cfg)] else [])"
    obtain r eff2 where e: "start_each ?fs subs = (r, eff2)" by fastforce
    have "list_all (\<lambda>(k, f). \<exists>t. fst (f k) = ctl_of t k) ?fs" by (auto simp: starts)
    note each = start_each_running [OF this e]
    have parts: "subs @ map (\<lambda>(k, f). fst (f k)) ?fs = all_parts env cfg first"
      unfolding all_parts_eq subs(1) by (simp add: starts Let_def)
    have "start_parts env tx cfg domains first = Inr (r, eff @ eff2)"
      using t False e subs(1) by (simp add: start_parts_def start_tunmgr_def tm_channels_ctl Let_def)
    then show ?thesis using each parts subs by (cases r) (simp_all)
  qed
qed

lemma cleanup_ctls:
  assumes "\<And>k. \<not> se_dead env k" "\<And>c. c \<in> set cs \<Longrightarrow> sc_ctl_tx c \<noteq> None \<and> sc_handler c \<noteq> None"
  shows "\<exists>ss. cleanup_subservices env cs = Inr (ss,
    concat (map (\<lambda>c. if se_alive env (the (sc_ctl_tx c)) then [SentStop (the (sc_ctl_tx c))] else []) cs)
    @ map (\<lambda>c. Joined (the (sc_handler c))) cs)"
proof -
  have s: "(\<And>c. c \<in> set cs \<Longrightarrow> sc_ctl_tx c \<noteq> None) \<Longrightarrow>
      send_stops (se_alive env) cs = Inr (map (sc_ctl_tx_update (\<lambda>_. None)) cs,
        concat (map (\<lambda>c. if se_alive env (the (sc_ctl_tx c)) then [SentStop (the (sc_ctl_tx c))] else []) cs))" for cs
  proof (induction cs)
    case (Cons x cs)
    have "unwrap (sc_ctl_tx x) = Inr (the (sc_ctl_tx x))" using Cons.prems [of x] by auto
    then show ?case using Cons by simp
  qed simp
  have j: "(\<And>c. c \<in> set cs \<Longrightarrow> sc_handler c \<noteq> None) \<Longrightarrow>
      join_all (se_dead env) (map (sc_ctl_tx_update (\<lambda>_. None)) cs) =
        Inr (map (\<lambda>c. sc_handler_update (\<lambda>_. None) (sc_ctl_tx_update (\<lambda>_. None) c)) cs, map (\<lambda>c. Joined (the (sc_handler c))) cs)" for cs
  proof (induction cs)
    case (Cons x cs)
    have "unwrap (sc_handler x) = Inr (the (sc_handler x))" using Cons.prems [of x] by auto
    then show ?case using Cons assms(1) by simp
  qed simp
  show ?thesis using s [of cs] j [of cs] assms(2) by (simp add: cleanup_subservices_def)
qed

lemma cleanup_running:
  assumes "\<And>k. \<not> se_dead env k"
  shows "\<exists>ss. cleanup_subservices env (running eff) = Inr (ss,
    concat (map (\<lambda>c. if se_alive env (the (sc_ctl_tx c)) then [SentStop (the (sc_ctl_tx c))] else []) (running eff))
    @ map (\<lambda>c. Joined (the (sc_handler c))) (running eff))"
proof (rule cleanup_ctls [OF assms])
  show "c \<in> set (running eff) \<Longrightarrow> sc_ctl_tx c \<noteq> None \<and> sc_handler c \<noteq> None" for c
    by (auto simp: running_def ctl_of_def split: sub_effect.splits option.splits bool.splits)
qed

text \<open>
  C14: Starting the parts is all or nothing. Either every part reports success and the service gets, in
  order, one control record per tunnel manager, then the listener, the forwarder, the UDP proxy and, when
  configured, the reverse tunnel; or some part failed, and then every part that had reported success is
  told to stop and its thread is joined. (A thread that has panicked makes the join panic: excluded.)
\<close>

theorem subservices_all_or_nothing:
  assumes "\<And>k. \<not> se_dead env k"
  shows "\<exists>r eff. start_subservice env tx cfg domains first = Inr (r, eff) \<and>
    (case r of
       Some v \<Rightarrow> v = all_parts env cfg first \<and> \<not> someone_failed eff
     | None \<Rightarrow> someone_failed eff \<and> (\<forall>t k. Spawned t k (Some True) \<in> set eff \<longrightarrow>
         Joined k \<in> set eff \<and> (se_alive env k \<longrightarrow> SentStop k \<in> set eff)))"
proof -
  obtain r eff where p: "start_parts env tx cfg domains first = Inr (r, eff)"
    "case r of Inr v \<Rightarrow> v = running eff \<and> v = all_parts env cfg first \<and> \<not> someone_failed eff
     | Inl v \<Rightarrow> v = running eff \<and> someone_failed eff"
    using start_parts_running by blast
  show ?thesis
  proof (cases r)
    case (Inr v)
    then show ?thesis using p by (auto simp: start_subservice_def)
  next
    case (Inl v)
    let ?stops = "concat (map (\<lambda>c. if se_alive env (the (sc_ctl_tx c)) then [SentStop (the (sc_ctl_tx c))] else []) (running eff))"
      and ?joins = "map (\<lambda>c. Joined (the (sc_handler c))) (running eff)"
    obtain ss where "cleanup_subservices env (running eff) = Inr (ss, ?stops @ ?joins)"
      using cleanup_running [OF assms] by blast
    then have s: "start_subservice env tx cfg domains first = Inr (None, eff @ ?stops @ ?joins)"
      using p Inl by (simp add: start_subservice_def)
    have "Joined k \<in> set ?joins \<and> (se_alive env k \<longrightarrow> SentStop k \<in> set ?stops)"
      if "Spawned t k (Some True) \<in> set (eff @ ?stops @ ?joins)" for t k
    proof -
      have "Spawned t k (Some True) \<in> set eff" using that by (auto split: if_splits)
      then have "ctl_of t k \<in> set (running eff)" by (force simp: running_def)
      then show ?thesis by (force simp: ctl_of_def)
    qed
    then show ?thesis using s p(2) Inl by auto
  qed
qed

lemma tunmgr_starts:
  assumes "se_url_ok env = (\<lambda>_. True)"
  shows "to_future (start_one_tunmgr env tx cfg n k) = Some (ctl_of SsTunMgr k)"
    "spawned (start_one_tunmgr env tx cfg n k) = Spawned SsTunMgr k (Some True)"
proof -
  have "mgr_init (\<lambda>_. True) m \<noteq> Inl e" for m e
  proof -
    have "\<exists>es. connect_all (\<lambda>_. True) m ns = Inr es" for ns
      by (induction ns) (auto simp: connect_def Let_def)
    then obtain es where "connect_all (\<lambda>_. True) m [0..<mg_capacity m] = Inr es" by blast
    then show ?thesis by (simp add: mgr_init_def)
  qed
  then have "snd (start_one_tunmgr env tx cfg n k) = Some True"
    using assms by (auto simp: start_one_tunmgr_def split: sum.splits)
  then show "to_future (start_one_tunmgr env tx cfg n k) = Some (ctl_of SsTunMgr k)"
    "spawned (start_one_tunmgr env tx cfg n k) = Spawned SsTunMgr k (Some True)"
    using starts(5) [of env tx cfg n k]
    by (cases "start_one_tunmgr env tx cfg n k"; simp add: to_future_def spawned_def ctl_of_def)+
qed

definition sample_sub_env :: "(nat \<times> socket_addr \<times> nat) list sub_env" where
  "sample_sub_env = \<lparr>se_cpus = 2, se_dns = sample_env, se_url_ok = (\<lambda>_. True), se_bind_tcp = (\<lambda>_ _. False),
     se_bind_udp = (\<lambda>_. BindOk), se_alive = (\<lambda>_. True), se_dq = list_dq, se_now = 0, se_dead = (\<lambda>_. False)\<rparr>"

text \<open>The listener's port is taken: the two tunnel managers, already started, are stopped and joined.\<close>

lemma subservices_all_or_nothing_witness:
  "\<exists>eff. start_subservice sample_sub_env 9 sample_cfg [] 0 = Inr (None, eff) \<and>
     {Joined 0, SentStop 0, Joined 1, SentStop 1} \<subseteq> set eff"
proof -
  have dead: "\<And>k. \<not> se_dead sample_sub_env k" by (simp add: sample_sub_env_def)
  have "se_url_ok sample_sub_env = (\<lambda>_. True)" by (simp add: sample_sub_env_def)
  note f = tunmgr_starts(1) [OF this] and sp = tunmgr_starts(2) [OF this]
  have c: "se_cpus sample_sub_env = 2" by (simp add: sample_sub_env_def)
  have r: "to_future (start_reqmgr sample_sub_env stubs k) = None" for stubs k
    by (simp add: start_reqmgr_def to_future_def req_mgr_init_def req_server_start_def sample_sub_env_def)
  obtain w e0 where p: "start_parts sample_sub_env 9 sample_cfg [] 0 = Inr (Inl w, e0)"
    "{Spawned SsTunMgr 0 (Some True), Spawned SsTunMgr 1 (Some True)} \<subseteq> set e0"
    using f sp r by (simp add: start_parts_def start_tunmgr_def c upt_rec numeral_eq_Suc Let_def ctl_of_def)
  then have w: "w = running e0" using start_parts_running [of sample_sub_env 9 sample_cfg "[]" 0] by auto
  obtain ss eff where "cleanup_subservices sample_sub_env (running e0) = Inr (ss, eff)"
    using cleanup_running [OF dead] by blast
  then have s: "start_subservice sample_sub_env 9 sample_cfg [] 0 = Inr (None, e0 @ eff)"
    using p(1) w by (simp add: start_subservice_def)
  have "se_alive sample_sub_env k" for k by (simp add: sample_sub_env_def)
  then show ?thesis
    using subservices_all_or_nothing [where env = sample_sub_env and tx = 9 and cfg = sample_cfg and domains = "[]" and first = 0,
        OF dead] s p(2) by fastforce
qed

section \<open>The way of a UDP datagram\<close>

definition udp_sent :: "(chan \<Rightarrow> bool) \<Rightarrow> tunnel option \<Rightarrow> bytes \<Rightarrow> socket_addr \<Rightarrow> socket_addr \<Rightarrow> effect list" where
  "udp_sent alive tun msg s d = (case tun of
       Some tun \<Rightarrow> fst (tx_send alive (tn_tx tun) (wmessage_new (tun_msg UdpX (enc_socketaddr s @ enc_socketaddr d @ msg)) 0))
     | None \<Rightarrow> [])"

lemma tunmgr_udp:
  "mg_tunnels tm \<noteq> [] \<Longrightarrow> \<exists>tm'. tunmgr_cmd alive tx0 trigger tm (CmdUdpProxy msg s d h) =
    Inr (tm', udp_sent alive (mg_tunnels tm ! (h mod length (mg_tunnels tm))) msg s d, True)"
  by (auto simp: tunmgr_cmd_def mgr_udp_proxy_north_def udp_sent_def north_message Let_def split: option.splits)

text \<open>
  The datagrams of a flow all go to one tunnel manager and there into one tunnel, if it is open, as
  a message with both addresses. Both are chosen by the same hash: when the number \<open>n\<close> of managers
  divides the number of tunnels each has, manager \<open>i\<close> sends datagrams only through the tunnels congruent
  to \<open>i\<close> modulo \<open>n\<close>, and the others carry none.
\<close>

theorem udp_flow_pinned:
  assumes "on_udp_msg_forward alive fnv m msg s d = Inr eff" "UdpProxy tx bs s' d' h \<in> set eff"
    "mg_tunnels tm \<noteq> []" "length (um_tmstubs m) dvd length (mg_tunnels tm)"
  shows "h = calc_hash_code fnv s d \<and> tx = um_tmstubs m ! (h mod length (um_tmstubs m)) \<and>
    (\<exists>j tm'. j = h mod length (mg_tunnels tm) \<and> j mod length (um_tmstubs m) = h mod length (um_tmstubs m) \<and>
       tunmgr_cmd alive2 tx0 trigger tm (CmdUdpProxy bs s' d' h)
         = Inr (tm', udp_sent alive2 (mg_tunnels tm ! j) msg s d, True))"
proof -
  have f: "bs = msg" "s' = s" "d' = d" "h = calc_hash_code fnv s d" "tx = um_tmstubs m ! (h mod length (um_tmstubs m))"
    using assms(1,2)
    by (auto simp: on_udp_msg_forward_def and_then_Inr_iff vec_get_Inr_iff Let_def split: if_splits)
  have "h mod length (mg_tunnels tm) mod length (um_tmstubs m) = h mod length (um_tmstubs m)"
    using assms(4) by (rule mod_mod_cancel)
  then show ?thesis using f tunmgr_udp [OF assms(3), of alive2 tx0 trigger msg s d h] by blast
qed

definition sample_udp_tm :: tun_mgr where
  "sample_udp_tm = (tun_mgr_new 9 2 sample_cfg)\<lparr>mg_tunnels := [None, Some (tunnel_new 0 4 7 1 4 10)]\<rparr>"

lemma udp_flow_pinned_witness:
  "on_udp_msg_forward (\<lambda>_. True) (\<lambda>_ _. 7) (udpx_mgr_new list_dq [5, 6] 0) [1] sample_peer sample_remote
     = Inr [UdpProxy 6 [1] sample_peer sample_remote 7] \<and>
   (\<exists>tm'. tunmgr_cmd (\<lambda>_. True) 0 0 sample_udp_tm (CmdUdpProxy [1] sample_peer sample_remote 7) =
     Inr (tm', [Sent 4 (wmessage_new (tun_msg UdpX (enc_socketaddr sample_peer @ enc_socketaddr sample_remote @ [1])) 0)], True))"
proof -
  have m: "(7 :: nat) mod Suc (Suc 0) = Suc 0" by code_simp
  have f: "on_udp_msg_forward (\<lambda>_. True) (\<lambda>_ _. 7) (udpx_mgr_new list_dq [5, 6] 0) [1] sample_peer sample_remote
     = Inr [UdpProxy 6 [1] sample_peer sample_remote 7]"
    by (simp add: m on_udp_msg_forward_def udpx_mgr_new_def calc_hash_code_def vec_get_def)
  have out: "udp_sent (\<lambda>_. True) (mg_tunnels sample_udp_tm ! (7 mod length (mg_tunnels sample_udp_tm))) [1] sample_peer sample_remote
      = [Sent 4 (wmessage_new (tun_msg UdpX (enc_socketaddr sample_peer @ enc_socketaddr sample_remote @ [1])) 0)]"
    by (simp add: m sample_udp_tm_def udp_sent_def tx_send_def tunnel_new_def)
  have "mg_tunnels sample_udp_tm \<noteq> []" "length (um_tmstubs (udpx_mgr_new list_dq [5, 6] 0)) dvd length (mg_tunnels sample_udp_tm)"
    by (simp_all add: sample_udp_tm_def udpx_mgr_new_def)
  from udp_flow_pinned [OF f _ this, of 6 "[1]" sample_peer sample_remote 7 "\<lambda>_. True" 0 0] f out
  show ?thesis by auto
qed

end
