(* ===== verification/Udp_Path.thy ===== *)
theory Udp_Path
  imports Sockets Sub_Service
begin

text \<open>
  The way of an intercepted UDP datagram through the components of src/src/udpx, src/src/service/subservice.rs and
  src/src/tunnels, from the system call that reads it to the message in a tunnel, and the way of the reply
  back to the client.
\<close>

section \<open>Out\<close>

definition udp_message :: "socket_addr \<Rightarrow> socket_addr \<Rightarrow> bytes \<Rightarrow> bytes" where
  "udp_message src dst bs = tun_msg UdpX (enc_socketaddr src @ enc_socketaddr dst @ bs)"

lemma datagram_out:
  assumes read: "crate_ok oc" "delivers api fd k d src cs" "original_destination cs = Some dst"
    and mgr: "um_tmstubs m \<noteq> []" "alive (um_tmstubs m ! (calc_hash_code fnv src dst mod length (um_tmstubs m)))"
    and tun: "mg_tunnels tm \<noteq> []" "mg_tunnels tm ! (calc_hash_code fnv src dst mod length (mg_tunnels tm)) = Some tun" "alive2 (tn_tx tun)"
  shows "udp_poll_next (sys_recv api oc IsReady cleared fd k) spare [] = Inr ([], UdpReady (take spare d) src dst)"
    and "on_udp_msg_forward alive fnv m (take spare d) src dst =
      Inr [UdpProxy (um_tmstubs m ! (calc_hash_code fnv src dst mod length (um_tmstubs m))) (take spare d) src dst (calc_hash_code fnv src dst)]"
    and "\<exists>tm'. tunmgr_cmd alive2 tx0 trigger tm (CmdUdpProxy (take spare d) src dst (calc_hash_code fnv src dst)) =
      Inr (tm', [Sent (tn_tx tun) (wmessage_new (udp_message src dst (take spare d)) 0)], True)"
proof -
  show "udp_poll_next (sys_recv api oc IsReady cleared fd k) spare [] = Inr ([], UdpReady (take spare d) src dst)"
    using datagram_with_destination [OF read(1,2)] read(3) by simp
  have "length (um_tmstubs m) \<noteq> 0" using mgr(1) by simp
  then show "on_udp_msg_forward alive fnv m (take spare d) src dst =
      Inr [UdpProxy (um_tmstubs m ! (calc_hash_code fnv src dst mod length (um_tmstubs m))) (take spare d) src dst (calc_hash_code fnv src dst)]"
    using mgr by (simp add: on_udp_msg_forward_def Let_def vec_get_def)
  show "\<exists>tm'. tunmgr_cmd alive2 tx0 trigger tm (CmdUdpProxy (take spare d) src dst (calc_hash_code fnv src dst)) =
      Inr (tm', [Sent (tn_tx tun) (wmessage_new (udp_message src dst (take spare d)) 0)], True)"
    using tunmgr_udp [OF tun(1), of alive2 tx0 trigger "take spare d" src dst "calc_hash_code fnv src dst"] tun(2,3)
    by (simp add: udp_sent_def tx_send_def udp_message_def)
qed

section \<open>Back\<close>

lemma stub_socket_opened:
  assumes "kernel_ok api fds" "stub_socket api ok tx a k = (k', sas)" "ustub_new sas a = (Some s, eff)"
  shows "fds k' (int (ub_rawfd s)) = Some (reply_sock a)"
  using reply_socket_names_the_remote [OF assms] by simp

lemma reply_back:
  assumes dq: "dq_ok dq pend" "cache_ok pend (um_cache m)" "cached pend (um_cache m) dst = None"
    and K: "kernel_ok api fds" and s: "stub_socket api ok tx dst k = (k', SasSocket rawfd tx)" and live: "alive tx"
  shows "\<exists>m' eff. udpx_cmd dq alive now (SasSocket rawfd tx) m (CmdUdpRecv reply dst src) = Inr (m', eff, True) \<and>
      filter is_send eff = [StubSend tx reply src] \<and> fds k' (int rawfd) = Some (reply_sock dst)"
proof -
  obtain m' eff where e: "on_udp_proxy_south dq alive now (SasSocket rawfd tx) m reply dst src = Inr (m', eff)"
    "ttl_out alive (cached pend (um_cache m)) (UxSouth now (SasSocket rawfd tx) reply dst src) eff"
    using on_udp_proxy_south_ok [OF dq(1,2)] by blast
  obtain st eff0 where st: "ustub_new (SasSocket rawfd tx) dst = (Some st, eff0)" "ub_rawfd st = rawfd"
    by (simp add: ustub_new_def start_udp_socket_def)
  have "fds k' (int rawfd) = Some (reply_sock dst)" using stub_socket_opened [OF K s st(1)] st(2) by simp
  then show ?thesis
    using e dq(3) live by (auto simp: udpx_cmd_def south_stub_def new_stub_def ustub_south_def)
qed


definition sample_dns :: socket_addr where
  "sample_dns = SocketAddr (V4 (Ipv4Addr 8 8 8 8)) 53"


end
