(* ===== verification/Acc_Log.thy ===== *)
theory Acc_Log imports Net_Addr "HOL-Library.AList" begin

text \<open>
  \<^verbatim>\<open>src/service/acclog.rs\<close>: which client accessed which name, and the report of it. Hash maps are
  association lists and hash sets lists without duplicates; their order is nobody's business.
\<close>

section \<open>State and operations\<close>

record dns_add_record =
  da_dns_records :: "(str \<times> ip_addr) list"

definition dns_add_record_new :: dns_add_record where
  "dns_add_record_new = \<lparr>da_dns_records = []\<rparr>"

definition dns_add :: "dns_add_record \<Rightarrow> ip_addr \<Rightarrow> str \<Rightarrow> dns_add_record" where
  "dns_add r ip name = r\<lparr>da_dns_records := da_dns_records r @ [(name, ip)]\<rparr>"

record acc_domain_record =
  adr_src_addrs :: "ip_addr list"

definition acc_domain_new :: acc_domain_record where
  "acc_domain_new = \<lparr>adr_src_addrs = []\<rparr>"

definition acc_domain_log :: "acc_domain_record \<Rightarrow> ip_addr \<Rightarrow> acc_domain_record" where
  "acc_domain_log r ip = r\<lparr>adr_src_addrs := List.insert ip (adr_src_addrs r)\<rparr>"

record acc_log =
  al_domains :: "(ip_addr \<times> str) list"
  al_acc_domains :: "(str \<times> acc_domain_record) list"

definition acc_log_new :: acc_log where
  "acc_log_new = \<lparr>al_domains = [], al_acc_domains = []\<rparr>"

text \<open>\<open>show_ip\<close> is the standard library's \<^verbatim>\<open>to_string\<close> of an address.\<close>

definition log_one :: "(ip_addr \<Rightarrow> str) \<Rightarrow> acc_log \<Rightarrow> ip_addr \<times> ip_addr \<Rightarrow> acc_log" where
  "log_one show_ip al = (\<lambda>(src_ip, dst_ip).
     let domain = (case map_of (al_domains al) dst_ip of Some domain1 \<Rightarrow> domain1 | None \<Rightarrow> show_ip dst_ip) in
     case map_of (al_acc_domains al) domain of
       Some acc_domain1 \<Rightarrow>
         al\<lparr>al_acc_domains := AList.update domain (acc_domain_log acc_domain1 src_ip) (al_acc_domains al)\<rparr>
     | None \<Rightarrow>
         let acc_domain1 = acc_domain_log acc_domain_new src_ip in
         al\<lparr>al_acc_domains := AList.update domain acc_domain1 (al_acc_domains al)\<rparr>)"

definition acc_log_log :: "(ip_addr \<Rightarrow> str) \<Rightarrow> acc_log \<Rightarrow> (ip_addr \<times> ip_addr) list \<Rightarrow> acc_log" where
  "acc_log_log show_ip al v = foldl (log_one show_ip) al v"

definition domain_add :: "acc_log \<Rightarrow> dns_add_record \<Rightarrow> acc_log" where
  "domain_add al domain =
     foldl (\<lambda>al dd. al\<lparr>al_domains := AList.update (snd dd) (fst dd) (al_domains al)\<rparr>) al (da_dns_records domain)"

definition clear_log :: "acc_log \<Rightarrow> acc_log" where
  "clear_log al = al\<lparr>al_acc_domains := []\<rparr>"

text \<open>The protobuf messages \<^verbatim>\<open>AccDomain\<close> and \<^verbatim>\<open>AccReport\<close>; a report carries version 4 addresses only.\<close>

record acc_domain =
  ad_domain :: str
  ad_srcIP :: "u32 list"

fun v4_number :: "ip_addr \<Rightarrow> u32 option" where
  "v4_number (V4 v4) = Some (ipv4_to_u32 v4)"
| "v4_number (V6 v6) = None"

definition dump_to_pb :: "acc_log \<Rightarrow> acc_domain list" where
  "dump_to_pb al =
     map (\<lambda>(k, ad). \<lparr>ad_domain = k, ad_srcIP = List.map_filter v4_number (adr_src_addrs ad)\<rparr>) (al_acc_domains al)"

definition acc_log_is_empty :: "acc_log \<Rightarrow> bool" where
  "acc_log_is_empty al \<longleftrightarrow> al_acc_domains al = []"

section \<open>What a report says\<close>

text \<open>
  The specification: the name last learnt for each address, and the accesses since the last report as a
  relation between names and clients.
\<close>

datatype acc_op =
    AccLog "(ip_addr \<times> ip_addr) list"
  | AccNames dns_add_record
  | AccReported

fun acc_step :: "(ip_addr \<Rightarrow> str) \<Rightarrow> acc_log \<Rightarrow> acc_op \<Rightarrow> acc_log" where
  "acc_step show_ip al (AccLog v) = acc_log_log show_ip al v"
| "acc_step show_ip al (AccNames r) = domain_add al r"
| "acc_step show_ip al AccReported = clear_log al"

type_synonym acc_view = "(ip_addr \<Rightarrow> str) \<times> (str \<times> ip_addr) set"

fun acc_spec :: "acc_view \<Rightarrow> acc_op \<Rightarrow> acc_view" where
  "acc_spec (name, seen) (AccLog v) = (name, seen \<union> {(name dst, src) | src dst. (src, dst) \<in> set v})"
| "acc_spec (name, seen) (AccNames r) = (foldl (\<lambda>f (n, ip). f(ip := n)) name (da_dns_records r), seen)"
| "acc_spec (name, seen) AccReported = (name, {})"

definition name_of :: "(ip_addr \<Rightarrow> str) \<Rightarrow> acc_log \<Rightarrow> ip_addr \<Rightarrow> str" where
  "name_of show_ip al ip = (case map_of (al_domains al) ip of Some n \<Rightarrow> n | None \<Rightarrow> show_ip ip)"

definition seen_of :: "acc_log \<Rightarrow> (str \<times> ip_addr) set" where
  "seen_of al = {(k, ip). \<exists>r. map_of (al_acc_domains al) k = Some r \<and> ip \<in> set (adr_src_addrs r)}"

definition acc_ok :: "acc_log \<Rightarrow> bool" where
  "acc_ok al \<longleftrightarrow> distinct (map fst (al_acc_domains al)) \<and> (\<forall>(k, r) \<in> set (al_acc_domains al). adr_src_addrs r \<noteq> [])"

definition acc_view_of :: "(ip_addr \<Rightarrow> str) \<Rightarrow> acc_log \<Rightarrow> acc_view" where
  "acc_view_of show_ip al = (name_of show_ip al, seen_of al)"

lemma log_one_spec:
  assumes "acc_ok al"
  shows "acc_ok (log_one show_ip al (src, dst)) \<and>
    name_of show_ip (log_one show_ip al (src, dst)) = name_of show_ip al \<and>
    seen_of (log_one show_ip al (src, dst)) = insert (name_of show_ip al dst, src) (seen_of al)"
proof -
  let ?d = "name_of show_ip al dst"
  let ?r = "case map_of (al_acc_domains al) ?d of Some r \<Rightarrow> acc_domain_log r src | None \<Rightarrow> acc_domain_log acc_domain_new src"
  have eq: "log_one show_ip al (src, dst) = al\<lparr>al_acc_domains := AList.update ?d ?r (al_acc_domains al)\<rparr>"
    by (simp add: log_one_def name_of_def Let_def split: option.splits)
  have r: "set (adr_src_addrs ?r) = insert src {ip. (?d, ip) \<in> seen_of al}"
    by (auto simp: acc_domain_log_def acc_domain_new_def seen_of_def split: option.splits)
  have ne: "adr_src_addrs ?r \<noteq> []" using r by auto
  have "acc_ok (al\<lparr>al_acc_domains := AList.update ?d ?r (al_acc_domains al)\<rparr>)"
  proof -
    have d: "distinct (map fst (AList.update ?d ?r (al_acc_domains al)))"
      using assms by (simp add: acc_ok_def distinct_update)
    have "adr_src_addrs x \<noteq> []" if "(k, x) \<in> set (AList.update ?d ?r (al_acc_domains al))" for k x
    proof -
      have "map_of (AList.update ?d ?r (al_acc_domains al)) k = Some x" using d that by simp
      then show ?thesis using assms ne unfolding update_conv' acc_ok_def
        by (auto split: if_splits dest!: map_of_SomeD)
    qed
    then show ?thesis using d by (auto simp: acc_ok_def)
  qed
  moreover have "seen_of (al\<lparr>al_acc_domains := AList.update ?d ?r (al_acc_domains al)\<rparr>) = insert (?d, src) (seen_of al)"
    using r by (auto simp: seen_of_def update_conv' split: if_splits)
  moreover have "name_of show_ip (al\<lparr>al_acc_domains := xs\<rparr>) = name_of show_ip al" for xs
    by (rule ext) (simp add: name_of_def)
  ultimately show ?thesis by (simp only: eq simp_thms)
qed

lemma acc_log_log_spec:
  "acc_ok al \<Longrightarrow> acc_ok (acc_log_log show_ip al v) \<and>
    acc_view_of show_ip (acc_log_log show_ip al v) = acc_spec (acc_view_of show_ip al) (AccLog v)"
proof (induction v arbitrary: al)
  case Nil
  then show ?case by (simp add: acc_log_log_def acc_view_of_def)
next
  case (Cons x v)
  obtain src dst where x: "x = (src, dst)" by (cases x)
  note l = log_one_spec [OF Cons.prems, of show_ip src dst]
  have "acc_log_log show_ip al (x # v) = acc_log_log show_ip (log_one show_ip al (src, dst)) v"
    by (simp add: acc_log_log_def x)
  then show ?case using Cons.IH [of "log_one show_ip al (src, dst)"] l
    by (auto simp: acc_view_of_def x)
qed

lemma domain_add_spec:
  "acc_ok al \<Longrightarrow> acc_ok (domain_add al r) \<and>
    acc_view_of show_ip (domain_add al r) = acc_spec (acc_view_of show_ip al) (AccNames r)"
proof -
  have "acc_ok al \<Longrightarrow>
    (let al' = foldl (\<lambda>al dd. al\<lparr>al_domains := AList.update (snd dd) (fst dd) (al_domains al)\<rparr>) al xs in
     acc_ok al' \<and> seen_of al' = seen_of al \<and>
     name_of show_ip al' = foldl (\<lambda>f (n, ip). f(ip := n)) (name_of show_ip al) xs)" for xs
  proof (induction xs arbitrary: al)
    case (Cons x xs)
    obtain n ip where x: "x = (n, ip)" by (cases x)
    let ?al = "al\<lparr>al_domains := AList.update ip n (al_domains al)\<rparr>"
    have "acc_ok ?al" "seen_of ?al = seen_of al" "name_of show_ip ?al = (name_of show_ip al)(ip := n)"
      using Cons.prems by (auto simp: acc_ok_def seen_of_def name_of_def update_conv' fun_eq_iff)
    then show ?case using Cons.IH [of ?al] by (simp add: x Let_def)
  qed simp
  from this [of "da_dns_records r"] show "acc_ok al \<Longrightarrow> ?thesis"
    by (simp add: domain_add_def acc_view_of_def Let_def)
qed

text \<open>
  C35: After any history of accesses, learnt names and reports, the report has one entry for each name
  accessed since the last report, an access counting under the name its address had at that time, and
  the entry lists exactly the version 4 clients that accessed it.
\<close>

theorem access_report_exact:
  assumes "foldl acc_spec (show_ip, {}) ops = (name, seen)"
  shows "distinct (map ad_domain (dump_to_pb (foldl (acc_step show_ip) acc_log_new ops))) \<and>
    (\<lambda>p. (ad_domain p, set (ad_srcIP p))) ` set (dump_to_pb (foldl (acc_step show_ip) acc_log_new ops)) =
      (\<lambda>k. (k, {n. \<exists>ip. (k, ip) \<in> seen \<and> v4_number ip = Some n})) ` fst ` seen"
proof -
  have run: "acc_ok al \<Longrightarrow> acc_ok (foldl (acc_step show_ip) al ops) \<and>
      acc_view_of show_ip (foldl (acc_step show_ip) al ops) = foldl acc_spec (acc_view_of show_ip al) ops" for al
  proof (induction ops arbitrary: al)
    case (Cons x ops)
    have "acc_ok (acc_step show_ip al x) \<and>
        acc_view_of show_ip (acc_step show_ip al x) = acc_spec (acc_view_of show_ip al) x"
    proof (cases x)
      case (AccLog v)
      then show ?thesis using acc_log_log_spec [OF Cons.prems] by simp
    next
      case (AccNames r)
      then show ?thesis using domain_add_spec [OF Cons.prems] by simp
    next
      case AccReported
      have "acc_ok (clear_log al)" "seen_of (clear_log al) = {}" "name_of show_ip (clear_log al) = name_of show_ip al"
        by (simp_all add: acc_ok_def clear_log_def seen_of_def name_of_def fun_eq_iff)
      then show ?thesis using AccReported by (simp add: acc_view_of_def)
    qed
    then show ?case using Cons.IH by simp
  qed simp
  let ?al = "foldl (acc_step show_ip) acc_log_new ops"
  have "acc_view_of show_ip acc_log_new = (show_ip, {})"
    by (simp add: acc_view_of_def acc_log_new_def name_of_def seen_of_def fun_eq_iff)
  then have ok: "acc_ok ?al" "seen_of ?al = seen"
    using run [of acc_log_new] assms by (auto simp: acc_ok_def acc_log_new_def acc_view_of_def)
  have d: "distinct (map fst (al_acc_domains ?al))" using ok(1) by (simp add: acc_ok_def)
  have keys: "map ad_domain (dump_to_pb ?al) = map fst (al_acc_domains ?al)"
    by (simp add: dump_to_pb_def comp_def case_prod_unfold)
  have one: "(ad_domain p, set (ad_srcIP p)) = (k, {n. \<exists>ip. (k, ip) \<in> seen \<and> v4_number ip = Some n})"
    if "(k, r) \<in> set (al_acc_domains ?al)" "p = \<lparr>ad_domain = k, ad_srcIP = List.map_filter v4_number (adr_src_addrs r)\<rparr>" for k r p
  proof -
    have "map_of (al_acc_domains ?al) k = Some r" using d that(1) by simp
    then have "(k, ip) \<in> seen \<longleftrightarrow> ip \<in> set (adr_src_addrs r)" for ip
      unfolding ok(2) [symmetric] by (simp add: seen_of_def)
    then show ?thesis using that(2) by (force simp: List.map_filter_def)
  qed
  have dom: "fst ` seen = fst ` set (al_acc_domains ?al)"
  proof (rule set_eqI)
    fix k
    have "k \<in> fst ` seen \<longleftrightarrow> (\<exists>ip r. map_of (al_acc_domains ?al) k = Some r \<and> ip \<in> set (adr_src_addrs r))"
      unfolding ok(2) [symmetric] by (force simp: seen_of_def)
    also have "\<dots> \<longleftrightarrow> (\<exists>r. (k, r) \<in> set (al_acc_domains ?al) \<and> adr_src_addrs r \<noteq> [])"
      using d unfolding set_empty [symmetric] ex_in_conv [symmetric] by auto
    also have "\<dots> \<longleftrightarrow> k \<in> fst ` set (al_acc_domains ?al)" using ok(1) by (force simp: acc_ok_def)
    finally show "k \<in> fst ` seen \<longleftrightarrow> k \<in> fst ` set (al_acc_domains ?al)" .
  qed
  have "(\<lambda>p. (ad_domain p, set (ad_srcIP p))) ` set (dump_to_pb ?al) =
      (\<lambda>k. (k, {n. \<exists>ip. (k, ip) \<in> seen \<and> v4_number ip = Some n})) ` fst ` set (al_acc_domains ?al)"
    unfolding dump_to_pb_def set_map image_image
    using one by (intro image_cong [OF refl]) (auto simp: case_prod_unfold)
  then show ?thesis using d keys dom by simp
qed

definition sample_names :: "acc_op list" where
  "sample_names =
     [AccNames (dns_add dns_add_record_new (V4 (Ipv4Addr 8 8 8 8)) (lit ''dns'')),
      AccLog [(V4 (Ipv4Addr 192 168 1 2), V4 (Ipv4Addr 8 8 8 8)), (V6 (Ipv6Addr 0 0 0 0 0 0 0 1), V4 (Ipv4Addr 8 8 8 8))]]"

lemma access_report_exact_witness:
  "(\<lambda>p. (ad_domain p, set (ad_srcIP p))) ` set (dump_to_pb (foldl (acc_step (\<lambda>_. lit ''?'')) acc_log_new sample_names)) =
     {(lit ''dns'', {ipv4_to_u32 (Ipv4Addr 192 168 1 2)})}"
proof -
  let ?a = "V4 (Ipv4Addr 192 168 1 2)" and ?b = "V6 (Ipv6Addr 0 0 0 0 0 0 0 1)"
  have s: "foldl acc_spec (\<lambda>_. lit ''?'', {}) sample_names =
      ((\<lambda>_. lit ''?'')(V4 (Ipv4Addr 8 8 8 8) := lit ''dns''), {(lit ''dns'', ?a), (lit ''dns'', ?b)})"
    by (auto simp: sample_names_def dns_add_def dns_add_record_new_def)
  show ?thesis using access_report_exact [OF s] by auto
qed

end
