(* ===== verification/Service.thy ===== *)
theory Service imports Sub_Service Acc_Log Http begin

text \<open>
  \<^verbatim>\<open>src/service/service.rs\<close>: the service that authenticates, starts the threads with the configuration it
  gets, watches for a new configuration, reports accesses, upgrades and restarts. It is driven by
  instructions it sends to itself and by the replies of HTTP requests.
\<close>

section \<open>State\<close>

definition STATE_STOPPED :: u8 where "STATE_STOPPED = 0"
definition STATE_STARTING :: u8 where "STATE_STARTING = 1"
definition STATE_RUNNING :: u8 where "STATE_RUNNING = 2"
definition STATE_STOPPING :: u8 where "STATE_STOPPING = 3"

lemmas state_defs = STATE_STOPPED_def STATE_STARTING_def STATE_RUNNING_def STATE_STOPPING_def

datatype instruction =
    InAuth
  | InStartSubServices
  | InServerCfgMonitor
  | InRestart
  | InAccessLog "(ip_addr \<times> ip_addr) list"
  | InDNSAdd dns_add_record

record service =
  sv_state :: u8
  sv_subservices :: "sub_ctl list"
  sv_ins_tx :: "chan option"
  sv_tuncfg :: "tun_cfg option"
  sv_monitor_trigger :: bool
  sv_instruction_trigger :: bool
  sv_domains :: "str list option"
  sv_is_upgrading :: bool
  sv_uuid :: str
  sv_default_dns_server :: str
  sv_user_specify_dns_server :: bool
  sv_acc_log :: acc_log

definition service_new :: "str \<Rightarrow> str \<Rightarrow> service res" where
  "service_new uuid hardcore_dns =
     and_then
       (if 0 < length hardcore_dns then
          and_then (if colon \<in> set hardcore_dns then vec_get (split_on colon hardcore_dns) 0 else Inr hardcore_dns)
            (\<lambda>d. Inr (True, d))
        else Inr (False, DEFAULT_DNS_SERVER)) (\<lambda>(user_specify_dns_server, default_dns_server).
     Inr \<lparr>sv_state = 0, sv_subservices = [], sv_ins_tx = None, sv_tuncfg = None, sv_monitor_trigger = False,
          sv_instruction_trigger = False, sv_domains = None, sv_is_upgrading = False, sv_uuid = uuid,
          sv_default_dns_server = default_dns_server, sv_user_specify_dns_server = user_specify_dns_server,
          sv_acc_log = acc_log_new\<rparr>)"

text \<open>
  What an operation does besides changing the state: instructions sent at once or after some seconds,
  tasks spawned, HTTP requests made (with what is to become of the reply), commands run on the system
  and sent to the threads. A path is the list of its components.
\<close>

type_synonym path = "str list"

datatype sys_cmd =
    UciToDefault str
  | UciToMe
  | SetIpset
  | UnsetIpset
  | SetIptables
  | SetIptablesGlobal
  | UnsetIptables
  | UnsetIptablesGlobal
  | SetIpRules
  | UnsetIpRules
  | CreateDir path
  | WriteFile path bytes
  | MakeExecutable path
  | RestartScript path

datatype http_purpose = ForAuth | ForMonitor | ForReport | ForDownload path path

datatype sv_effect =
    Fire chan instruction
  | Delay nat instruction
  | SpawnLoop chan
  | SpawnTimer
  | SpawnStart chan tun_cfg "str list"
  | HttpCall http_purpose str nat "bytes option" str
  | Sys sys_cmd
  | SubSend chan sub_cmd
  | SubEff sub_effect

text \<open>
  The surroundings: constants of the build, the network cards' addresses (\<open>None\<close>: they cannot be listed),
  the path of the running program, which directories exist or can be made, which URLs parse, the crates
  for JSON and protobuf, and the threads.
\<close>

record ('v, 'q) sv_env =
  ve_version :: str
  ve_arch :: str
  ve_macs :: "u8 list list option"
  ve_show_mac :: "u8 list \<Rightarrow> str"
  ve_exe :: path
  ve_exists :: "path \<Rightarrow> bool"
  ve_can_create :: "path \<Rightarrow> bool"
  ve_url_ok :: "str \<Rightarrow> bool"
  ve_lossy :: "bytes \<Rightarrow> str"
  ve_json :: "'v json_api"
  ve_pb :: "acc_domain list \<Rightarrow> bytes"
  ve_show_ip :: "ip_addr \<Rightarrow> str"
  ve_alive :: "chan \<Rightarrow> bool"
  ve_sub :: "'q sub_env"

definition server_url :: str where "server_url = lit ''https://abc.com/xyz''"

section \<open>Instructions and the system\<close>

definition fire_instruction :: "service \<Rightarrow> instruction \<Rightarrow> sv_effect list" where
  "fire_instruction s what = (case sv_ins_tx s of Some tx \<Rightarrow> [Fire tx what] | None \<Rightarrow> [])"

definition config_sys :: "service \<Rightarrow> sv_effect list res" where
  "config_sys s =
     and_then (unwrap (sv_tuncfg s)) (\<lambda>tuncfg.
     Inr [Sys (if tc_work_as_global tuncfg then SetIptablesGlobal else SetIptables), Sys SetIpRules])"

definition restore_sys :: "service \<Rightarrow> sv_effect list" where
  "restore_sys s =
     [Sys UnsetIptables, Sys UnsetIptablesGlobal, Sys UnsetIpRules, Sys UnsetIpset,
      Sys (UciToDefault (sv_default_dns_server s))]"

text \<open>\<open>tx\<close> is the channel made by \<^verbatim>\<open>start\<close>.\<close>

definition sv_start :: "chan \<Rightarrow> service \<Rightarrow> (service \<times> sv_effect list) res" where
  "sv_start tx s =
     (if sv_state s = STATE_STOPPED then
        let s = s\<lparr>sv_state := STATE_STARTING\<rparr>;
            eff = [Sys (UciToDefault (sv_default_dns_server s))];
            s = s\<lparr>sv_instruction_trigger := True\<rparr>;
            s = s\<lparr>sv_ins_tx := Some tx\<rparr>
        in Inr (s, eff @ fire_instruction s InAuth @ [SpawnLoop tx])
      else Inl Panicked)"

definition sv_stop :: "('v, 'q) sv_env \<Rightarrow> service \<Rightarrow> (service \<times> sv_effect list) res" where
  "sv_stop env s =
     (let s = s\<lparr>sv_state := STATE_STOPPING, sv_monitor_trigger := False, sv_instruction_trigger := False\<rparr> in
      and_then (cleanup_subservices (ve_sub env) (sv_subservices s)) (\<lambda>(_, eff).
      let s = s\<lparr>sv_subservices := []\<rparr> in
      Inr (s\<lparr>sv_state := STATE_STOPPED\<rparr>, map SubEff eff @ restore_sys s)))"

definition delay_post_instruction :: "nat \<Rightarrow> instruction \<Rightarrow> sv_effect list" where
  "delay_post_instruction seconds what = [Delay seconds what]"

definition do_restart :: "('v, 'q) sv_env \<Rightarrow> chan \<Rightarrow> service \<Rightarrow> (service \<times> sv_effect list) res" where
  "do_restart env tx s =
     and_then (sv_stop env s) (\<lambda>(s, eff). and_then (sv_start tx s) (\<lambda>(s, eff2). Inr (s, eff @ eff2)))"

definition do_access_log :: "('v, 'q) sv_env \<Rightarrow> service \<Rightarrow> (ip_addr \<times> ip_addr) list \<Rightarrow> service" where
  "do_access_log env s v = s\<lparr>sv_acc_log := acc_log_log (ve_show_ip env) (sv_acc_log s) v\<rparr>"

definition do_dns_add :: "service \<Rightarrow> dns_add_record \<Rightarrow> service" where
  "do_dns_add s da = s\<lparr>sv_acc_log := domain_add (sv_acc_log s) da\<rparr>"

section \<open>Authentication\<close>

definition parse_auth_reply :: "('v, 'q) sv_env \<Rightarrow> http_response \<Rightarrow> auth_resp option res" where
  "parse_auth_reply env resp =
     (if hr_status resp \<noteq> 200 then Inr None
      else
        case hr_body resp of
          Some body \<Rightarrow> auth_resp_from_json_str (ve_json env) (ve_lossy env body)
        | None \<Rightarrow> Inr None)"

definition fetch_all_macs :: "('v, 'q) sv_env \<Rightarrow> str list" where
  "fetch_all_macs env =
     (case ve_macs env of
        Some iterator \<Rightarrow> map (ve_show_mac env) (filter (\<lambda>mac. take 6 mac \<noteq> [0, 0, 0, 0, 0, 0]) iterator)
      | None \<Rightarrow> [])"

definition do_auth :: "('v, 'q) sv_env \<Rightarrow> service \<Rightarrow> sv_effect list res" where
  "do_auth env s =
     (if sv_is_upgrading s then Inr (delay_post_instruction 30 InAuth)
      else
        let dns_server = (if 0 < length (sv_default_dns_server s) then sv_default_dns_server s else DEFAULT_DNS_SERVER) in
        if \<not> ve_url_ok env server_url then Inl Panicked
        else
          let ar = \<lparr>aq_uuid = sv_uuid s, aq_current_version = ve_version env, aq_arch = ve_arch env,
                    aq_macs = fetch_all_macs env\<rparr>
          in Inr [HttpCall ForAuth server_url 10 (Some (auth_req_to_json_str ar)) dns_server])"

definition replace_user_default_dns_server :: "service \<Rightarrow> tun_cfg \<Rightarrow> tun_cfg" where
  "replace_user_default_dns_server s cfg =
     (if sv_user_specify_dns_server s then cfg\<lparr>tc_default_dns_server := sv_default_dns_server s\<rparr> else cfg)"

definition save_cfg :: "service \<Rightarrow> tun_cfg \<Rightarrow> service" where
  "save_cfg s cfg = s\<lparr>sv_tuncfg := Some cfg\<rparr>"

definition LPROXY_SCRIPT :: str where "LPROXY_SCRIPT = lit ''lps.sh''"

text \<open>An upgrade goes into directory \<open>a\<close> when the program runs from \<open>b\<close>, and the other way round.\<close>

definition get_upgrade_target_filepath :: "('v, 'q) sv_env \<Rightarrow> (path \<times> path) option \<times> sv_effect list" where
  "get_upgrade_target_filepath env =
     (let parent = butlast (ve_exe env); parent1 = butlast parent;
          other = (if parent \<noteq> [] \<and> last parent = lit ''b'' then Some (lit ''a'')
                   else if parent \<noteq> [] \<and> last parent = lit ''a'' then Some (lit ''b'') else None)
      in case other of
           None \<Rightarrow> (None, [])
         | Some d \<Rightarrow>
             let dir3 = parent1 @ [d]; dir1 = parent1 @ [d, lit ''lproxy-cv'']; dir2 = parent1 @ [LPROXY_SCRIPT] in
             if ve_exists env dir3 then (Some (dir1, dir2), [])
             else if ve_can_create env dir3 then (Some (dir1, dir2), [Sys (CreateDir dir3)])
             else (None, []))"

text \<open>The configuration's DNS server is unwrapped: without a configuration a download panics.\<close>

definition do_download :: "('v, 'q) sv_env \<Rightarrow> service \<Rightarrow> path \<Rightarrow> path \<Rightarrow> str \<Rightarrow> (service \<times> sv_effect list) res" where
  "do_download env s filepath scriptpath url =
     (if sv_is_upgrading s then Inr (s, [])
      else
        let s = s\<lparr>sv_is_upgrading := True\<rparr> in
        if \<not> ve_url_ok env url then Inr (s\<lparr>sv_is_upgrading := False\<rparr>, [])
        else
          and_then (unwrap (sv_tuncfg s)) (\<lambda>cfg.
          Inr (s, [HttpCall (ForDownload filepath scriptpath) url 60 None (tc_default_dns_server cfg)])))"

definition start_upgrade :: "('v, 'q) sv_env \<Rightarrow> service \<Rightarrow> str \<Rightarrow> (service \<times> sv_effect list) res" where
  "start_upgrade env s url =
     (case get_upgrade_target_filepath env of
        (None, eff) \<Rightarrow> Inr (s, eff)
      | (Some dir, eff) \<Rightarrow> and_then (do_download env s (fst dir) (snd dir) url) (\<lambda>(s, eff2). Inr (s, eff @ eff2)))"

text \<open>The reply to the authentication; an HTTP error that is no panic is \<open>Inl\<close> of a fault that is not fatal.\<close>

definition auth_accepted :: "('v, 'q) sv_env \<Rightarrow> service \<Rightarrow> auth_resp \<Rightarrow> (service \<times> sv_effect list \<times> bool) res" where
  "auth_accepted env s rsp =
     (if ar_error rsp = 0 then
        if ar_need_upgrade rsp \<and> 0 < length (ar_upgrade_url rsp) then
          and_then (start_upgrade env s (ar_upgrade_url rsp)) (\<lambda>(s, eff). Inr (s, eff, True))
        else
          case ar_tuncfg rsp of
            Some cfg \<Rightarrow>
              and_then (unwrap (tc_domain_array cfg)) (\<lambda>domains.
              let cfg = cfg\<lparr>tc_domain_array := None\<rparr>;
                  s = s\<lparr>sv_domains := Some domains\<rparr>;
                  s = save_cfg s (replace_user_default_dns_server s cfg)
              in Inr (s, fire_instruction s InStartSubServices, False))
          | None \<Rightarrow> Inr (s, [], True)
      else Inr (s, [], True))"

definition do_auth_reply :: "('v, 'q) sv_env \<Rightarrow> service \<Rightarrow> http_response res \<Rightarrow> (service \<times> sv_effect list) res" where
  "do_auth_reply env s reply =
     match_result reply
       (\<lambda>resp.
         and_then (parse_auth_reply env resp) (\<lambda>rsp.
         and_then (case rsp of Some rsp \<Rightarrow> auth_accepted env s rsp | None \<Rightarrow> Inr (s, [], True)) (\<lambda>(s, eff, retry).
         Inr (s, eff @ (if retry then delay_post_instruction 30 InAuth else [])))))
       (Inr (s, delay_post_instruction 15 InAuth))"

section \<open>Monitoring\<close>

fun notify_forwarder_update_domains :: "('v, 'q) sv_env \<Rightarrow> sub_ctl list \<Rightarrow> str list \<Rightarrow> sv_effect list" where
  "notify_forwarder_update_domains env [] domains = []"
| "notify_forwarder_update_domains env (ss # rest) domains =
     (case (sc_sstype ss, sc_ctl_tx ss) of
        (SsForwarder, Some tx) \<Rightarrow> if ve_alive env tx then [SubSend tx (CmdDomainsUpdate domains)] else []
      | _ \<Rightarrow> notify_forwarder_update_domains env rest domains)"

definition notify_subservice_update_cfg :: "('v, 'q) sv_env \<Rightarrow> service \<Rightarrow> sv_effect list res" where
  "notify_subservice_update_cfg env s =
     and_then (unwrap (sv_tuncfg s)) (\<lambda>tuncfg.
     Inr (concat (map (\<lambda>ss. case (sc_sstype ss, sc_ctl_tx ss) of
         (SsTunMgr, Some tx) \<Rightarrow> if ve_alive env tx then [SubSend tx (CmdTunCfgUpdate tuncfg)] else []
       | _ \<Rightarrow> []) (sv_subservices s))))"

definition do_access_report :: "('v, 'q) sv_env \<Rightarrow> service \<Rightarrow> (service \<times> sv_effect list) res" where
  "do_access_report env s =
     and_then (unwrap (sv_tuncfg s)) (\<lambda>cfg.
     let token = tc_token cfg; access_report_url = tc_cfg_access_report_url cfg @ lit ''?tok='' @ token in
     if length access_report_url < 1 \<or> length token < 1 then
       Inr (s\<lparr>sv_acc_log := clear_log (sv_acc_log s)\<rparr>, [])
     else if acc_log_is_empty (sv_acc_log s) then Inr (s, [])
     else
       let pb = dump_to_pb (sv_acc_log s);
           s = s\<lparr>sv_acc_log := clear_log (sv_acc_log s)\<rparr>
       in if \<not> ve_url_ok env access_report_url then Inr (s, [])
          else Inr (s, [HttpCall ForReport access_report_url 10 (Some (ve_pb env pb)) (tc_default_dns_server cfg)]))"

definition do_cfg_monitor :: "('v, 'q) sv_env \<Rightarrow> service \<Rightarrow> (service \<times> sv_effect list) res" where
  "do_cfg_monitor env s =
     and_then (unwrap (sv_tuncfg s)) (\<lambda>cfg.
     let token = tc_token cfg; monitor_url = tc_cfg_monitor_url cfg @ lit ''?tok='' @ token in
     if length monitor_url < 1 \<or> length token < 1 then Inr (s, [])
     else
       let ar = \<lparr>cq_current_version = ve_version env, cq_domains_ver = tc_domains_ver cfg, cq_arch = ve_arch env\<rparr> in
       if \<not> ve_url_ok env monitor_url then Inr (s, [])
       else
         and_then (do_access_report env s) (\<lambda>(s, eff).
         Inr (s, HttpCall ForMonitor monitor_url 10 (Some (cfg_monitor_req_to_json_str ar)) (tc_default_dns_server cfg)
                 # eff)))"

definition monitor_cfg :: "('v, 'q) sv_env \<Rightarrow> service \<Rightarrow> tun_cfg option \<Rightarrow> (service \<times> sv_effect list) res" where
  "monitor_cfg env s tuncfg =
     (case tuncfg of
        None \<Rightarrow> Inr (s, [])
      | Some cfg \<Rightarrow>
          let eff = (case tc_domain_array cfg of
                Some domains \<Rightarrow>
                  if 0 < length domains then notify_forwarder_update_domains env (sv_subservices s) domains else []
              | None \<Rightarrow> []);
              cfg = cfg\<lparr>tc_domain_array := None\<rparr>;
              s = save_cfg s (replace_user_default_dns_server s cfg)
          in and_then (notify_subservice_update_cfg env s) (\<lambda>eff2. Inr (s, eff @ eff2)))"

definition monitor_accepted :: "('v, 'q) sv_env \<Rightarrow> service \<Rightarrow> auth_resp \<Rightarrow> (service \<times> sv_effect list) res" where
  "monitor_accepted env s rsp =
     (if ar_error rsp = 0 then
        and_then (monitor_cfg env s (ar_tuncfg rsp)) (\<lambda>(s, eff).
        if ar_need_upgrade rsp \<and> 0 < length (ar_upgrade_url rsp) then
          and_then (start_upgrade env s (ar_upgrade_url rsp)) (\<lambda>(s, eff2). Inr (s, eff @ eff2))
        else if ar_restart rsp then Inr (s, eff @ fire_instruction s InRestart)
        else Inr (s, eff))
      else Inr (s, []))"

definition do_cfg_monitor_reply :: "('v, 'q) sv_env \<Rightarrow> service \<Rightarrow> http_response res \<Rightarrow> (service \<times> sv_effect list) res" where
  "do_cfg_monitor_reply env s reply =
     match_result reply
       (\<lambda>resp.
         and_then (parse_auth_reply env resp) (\<lambda>rsp.
         case rsp of Some rsp \<Rightarrow> monitor_accepted env s rsp | None \<Rightarrow> Inr (s, [])))
       (Inr (s, []))"

text \<open>The download's reply: \<open>created\<close> and \<open>written\<close> are whether the file can be created and written.\<close>

definition do_download_reply ::
  "service \<Rightarrow> path \<Rightarrow> path \<Rightarrow> bool \<Rightarrow> bool \<Rightarrow> http_response res \<Rightarrow> (service \<times> sv_effect list) res" where
  "do_download_reply s filepath scriptpath created written reply =
     match_result reply
       (\<lambda>resp.
         Inr (s\<lparr>sv_is_upgrading := False\<rparr>,
              if hr_status resp = 200 then
                case hr_body resp of
                  Some body \<Rightarrow>
                    if created \<and> written then
                      [Sys (WriteFile filepath body), Sys (MakeExecutable filepath), Sys (RestartScript scriptpath)]
                    else []
                | None \<Rightarrow> []
              else []))
       (Inr (s\<lparr>sv_is_upgrading := False\<rparr>, []))"

section \<open>Starting the threads\<close>

definition do_start_subservices :: "service \<Rightarrow> (service \<times> sv_effect list) res" where
  "do_start_subservices s =
     and_then (unwrap (sv_tuncfg s)) (\<lambda>cfg.
     let domains = (case sv_domains s of Some d \<Rightarrow> d | None \<Rightarrow> []);
         s = s\<lparr>sv_domains := None\<rparr>
     in and_then (unwrap (sv_ins_tx s)) (\<lambda>service_tx.
        Inr (s, [Sys SetIpset, SpawnStart service_tx cfg domains, Sys UciToMe])))"

definition start_monitor_timer :: "service \<Rightarrow> service \<times> sv_effect list" where
  "start_monitor_timer s = (s\<lparr>sv_monitor_trigger := True\<rparr>, [SpawnTimer])"

definition monitor_tick :: "service \<Rightarrow> sv_effect list res" where
  "monitor_tick s =
     and_then (unwrap (sv_tuncfg s)) (\<lambda>cfg.
     Inr (if 0 < length (tc_cfg_monitor_url cfg) then fire_instruction s InServerCfgMonitor else []))"

text \<open>The spawned start: \<open>first\<close> is the number of the first thread.\<close>

definition do_start_finish ::
  "('v, 'q) sv_env \<Rightarrow> service \<Rightarrow> chan \<Rightarrow> tun_cfg \<Rightarrow> str list \<Rightarrow> nat \<Rightarrow> (service \<times> sv_effect list) res" where
  "do_start_finish env s service_tx cfg domains first =
     and_then (start_subservice (ve_sub env) service_tx cfg domains first) (\<lambda>(r, eff).
     case r of
       Some vec_subservices \<Rightarrow>
         let s = s\<lparr>sv_subservices := sv_subservices s @ rev vec_subservices, sv_state := STATE_RUNNING\<rparr> in
         and_then (config_sys s) (\<lambda>eff2.
         case start_monitor_timer s of
           (s, eff3) \<Rightarrow> Inr (s, map SubEff eff @ eff2 @ eff3))
     | None \<Rightarrow> Inr (s, map SubEff eff @ delay_post_instruction 5 InAuth))"

definition process_instruction ::
  "('v, 'q) sv_env \<Rightarrow> chan \<Rightarrow> service \<Rightarrow> instruction \<Rightarrow> (service \<times> sv_effect list) res" where
  "process_instruction env new_tx s what =
     (case what of
        InAuth \<Rightarrow> and_then (do_auth env s) (\<lambda>eff. Inr (s, eff))
      | InStartSubServices \<Rightarrow> do_start_subservices s
      | InServerCfgMonitor \<Rightarrow> do_cfg_monitor env s
      | InRestart \<Rightarrow> do_restart env new_tx s
      | InAccessLog v \<Rightarrow> Inr (do_access_log env s v, [])
      | InDNSAdd da \<Rightarrow> Inr (do_dns_add s da, []))"

end
