(* ===== verification/Service_Run.thy ===== *)
theory Service_Run imports Service begin

text \<open>
  The service as a machine: the queue of its instructions, the tasks it has spawned and the system rules it
  has set. The theorems say that it always has exactly one life, and where it panics.
\<close>

section \<open>The machine\<close>

datatype sv_task =
    THttp http_purpose
  | TDelay instruction
  | TStart chan tun_cfg "str list"

text \<open>What is set on the system.\<close>

datatype sys_mark = MkIptables | MkGlobal | MkIpRules | MkIpset | MkDns

record world =
  w_service :: service
  w_queue :: "instruction list"
  w_tasks :: "sv_task list"
  w_sys :: "sys_mark set"

fun fired_by :: "sv_effect \<Rightarrow> instruction list" where
  "fired_by (Fire tx i) = [i]"
| "fired_by _ = []"

fun tasks_by :: "sv_effect \<Rightarrow> sv_task list" where
  "tasks_by (Delay n i) = [TDelay i]"
| "tasks_by (SpawnStart tx cfg domains) = [TStart tx cfg domains]"
| "tasks_by (HttpCall p url t body dns) = [THttp p]"
| "tasks_by _ = []"

fun sys_by :: "sv_effect \<Rightarrow> sys_mark set \<Rightarrow> sys_mark set" where
  "sys_by (Sys SetIptables) m = insert MkIptables m"
| "sys_by (Sys SetIptablesGlobal) m = insert MkGlobal m"
| "sys_by (Sys SetIpRules) m = insert MkIpRules m"
| "sys_by (Sys SetIpset) m = insert MkIpset m"
| "sys_by (Sys UciToMe) m = insert MkDns m"
| "sys_by (Sys UnsetIptables) m = m - {MkIptables}"
| "sys_by (Sys UnsetIptablesGlobal) m = m - {MkGlobal}"
| "sys_by (Sys UnsetIpRules) m = m - {MkIpRules}"
| "sys_by (Sys UnsetIpset) m = m - {MkIpset}"
| "sys_by (Sys (UciToDefault d)) m = m - {MkDns}"
| "sys_by _ m = m"

definition fired :: "sv_effect list \<Rightarrow> instruction list" where
  "fired eff = concat (map fired_by eff)"

definition new_tasks :: "sv_effect list \<Rightarrow> sv_task list" where
  "new_tasks eff = concat (map tasks_by eff)"

definition sys_after :: "sv_effect list \<Rightarrow> sys_mark set \<Rightarrow> sys_mark set" where
  "sys_after eff m = fold sys_by eff m"

text \<open>A service sends instructions through its current channel only; a restart drops the old queue.\<close>

definition settle :: "world \<Rightarrow> instruction list \<Rightarrow> sv_task list \<Rightarrow> service \<times> sv_effect list \<Rightarrow> world" where
  "settle w q ts r = w\<lparr>w_service := fst r, w_queue := q @ fired (snd r), w_tasks := ts @ new_tasks (snd r),
     w_sys := sys_after (snd r) (w_sys w)\<rparr>"

record outcome =
  oc_reply :: "http_response res"
  oc_created :: bool
  oc_written :: bool
  oc_first :: nat

fun run_task :: "('v, 'q) sv_env \<Rightarrow> service \<Rightarrow> sv_task \<Rightarrow> outcome \<Rightarrow> (service \<times> sv_effect list) res" where
  "run_task env s (THttp ForAuth) oc = do_auth_reply env s (oc_reply oc)"
| "run_task env s (THttp ForMonitor) oc = do_cfg_monitor_reply env s (oc_reply oc)"
| "run_task env s (THttp ForReport) oc = match_result (oc_reply oc) (\<lambda>_. Inr (s, [])) (Inr (s, []))"
| "run_task env s (THttp (ForDownload f p)) oc = do_download_reply s f p (oc_created oc) (oc_written oc) (oc_reply oc)"
| "run_task env s (TDelay i) oc = Inr (s, fire_instruction s i)"
| "run_task env s (TStart tx cfg domains) oc = do_start_finish env s tx cfg domains (oc_first oc)"

text \<open>An instruction is processed (with a channel for a restart), a task finishes, the timer fires.\<close>

datatype sv_event = EvInstr chan | EvTask nat outcome | EvTick | EvLog instruction

definition without :: "nat \<Rightarrow> 'a list \<Rightarrow> 'a list" where
  "without n xs = take n xs @ drop (Suc n) xs"

fun sv_step :: "('v, 'q) sv_env \<Rightarrow> world \<Rightarrow> sv_event \<Rightarrow> world res" where
  "sv_step env w (EvInstr tx) =
     (case w_queue w of
        [] \<Rightarrow> Inr w
      | i # q \<Rightarrow>
          and_then (process_instruction env tx (w_service w) i) (\<lambda>r.
          Inr (settle w (if i = InRestart then [] else q) (w_tasks w) r)))"
| "sv_step env w (EvTask n oc) =
     and_then (vec_get (w_tasks w) n) (\<lambda>t.
     and_then (run_task env (w_service w) t oc) (\<lambda>r. Inr (settle w (w_queue w) (without n (w_tasks w)) r)))"
| "sv_step env w EvTick =
     and_then (monitor_tick (w_service w)) (\<lambda>eff. Inr (settle w (w_queue w) (w_tasks w) (w_service w, eff)))"
| "sv_step env w (EvLog i) = Inr (w\<lparr>w_queue := w_queue w @ [i]\<rparr>)"

definition boot :: "chan \<Rightarrow> str \<Rightarrow> str \<Rightarrow> world res" where
  "boot tx uuid hardcore_dns =
     and_then (service_new uuid hardcore_dns) (\<lambda>s.
     and_then (sv_start tx s) (\<lambda>r.
     Inr (settle \<lparr>w_service = s, w_queue = [], w_tasks = [], w_sys = {}\<rparr> [] [] r)))"

section \<open>One life\<close>

text \<open>
  What can happen: an HTTP request fails with an error or gets a reply, and demands an upgrade only of a
  service that has a configuration; the timer fires when the previous request to the monitor is over (it
  is given ten seconds, the timer five minutes); the threads report accesses and names.
\<close>

fun demands_upgrade :: "('v, 'q) sv_env \<Rightarrow> http_response res \<Rightarrow> bool" where
  "demands_upgrade env (Inr r) =
     (case parse_auth_reply env r of
        Inr (Some rsp) \<Rightarrow> ar_need_upgrade rsp \<and> 0 < length (ar_upgrade_url rsp)
      | _ \<Rightarrow> False)"
| "demands_upgrade env (Inl e) = False"

definition harmless :: "http_response res \<Rightarrow> bool" where
  "harmless reply = (case reply of Inl e \<Rightarrow> \<not> fatal e | Inr r \<Rightarrow> True)"

fun is_log :: "instruction \<Rightarrow> bool" where
  "is_log (InAccessLog v) = True"
| "is_log (InDNSAdd da) = True"
| "is_log _ = False"

fun monitor_ins :: "instruction \<Rightarrow> bool" where
  "monitor_ins InServerCfgMonitor = True"
| "monitor_ins InRestart = True"
| "monitor_ins _ = False"

fun monitor_task :: "sv_task \<Rightarrow> bool" where
  "monitor_task (THttp ForMonitor) = True"
| "monitor_task _ = False"

definition monitors :: "instruction list \<Rightarrow> sv_task list \<Rightarrow> nat" where
  "monitors q ts = length (filter monitor_ins q) + length (filter monitor_task ts)"

fun sv_enabled :: "('v, 'q) sv_env \<Rightarrow> world \<Rightarrow> sv_event \<Rightarrow> bool" where
  "sv_enabled env w (EvInstr tx) = (w_queue w \<noteq> [])"
| "sv_enabled env w (EvTask n oc) =
     (n < length (w_tasks w) \<and> harmless (oc_reply oc) \<and>
      (w_tasks w ! n = THttp ForAuth \<and> sv_tuncfg (w_service w) = None \<longrightarrow> \<not> demands_upgrade env (oc_reply oc)))"
| "sv_enabled env w EvTick = (sv_monitor_trigger (w_service w) \<and> monitors (w_queue w) (w_tasks w) = 0)"
| "sv_enabled env w (EvLog i) = is_log i"

inductive sv_reaches :: "('v, 'q) sv_env \<Rightarrow> world \<Rightarrow> world \<Rightarrow> bool" for env w0 where
  started: "sv_reaches env w0 w0"
| event: "sv_reaches env w0 w \<Longrightarrow> sv_enabled env w e \<Longrightarrow> sv_step env w e = Inr w' \<Longrightarrow> sv_reaches env w0 w'"

text \<open>
  A life is a pending authentication or start, or the running threads.
\<close>

fun life_ins :: "instruction \<Rightarrow> bool" where
  "life_ins InAuth = True"
| "life_ins InStartSubServices = True"
| "life_ins _ = False"

fun life_task :: "sv_task \<Rightarrow> bool" where
  "life_task (THttp ForAuth) = True"
| "life_task (TDelay i) = True"
| "life_task (TStart tx cfg domains) = True"
| "life_task _ = False"

definition lives :: "service \<Rightarrow> instruction list \<Rightarrow> sv_task list \<Rightarrow> nat" where
  "lives s q ts = length (filter life_ins q) + length (filter life_task ts)
     + (if sv_state s = STATE_RUNNING then 1 else 0)"

definition redirects :: "sys_mark set \<Rightarrow> bool" where
  "redirects m \<longleftrightarrow> m \<inter> {MkIptables, MkGlobal, MkIpRules} \<noteq> {}"

definition all_started :: "('v, 'q) sv_env \<Rightarrow> sub_ctl list \<Rightarrow> bool" where
  "all_started env subs \<longleftrightarrow> (\<exists>cfg first. subs = rev (all_parts (ve_sub env) cfg first))"

definition sv_ok :: "('v, 'q) sv_env \<Rightarrow> service \<Rightarrow> instruction list \<Rightarrow> sv_task list \<Rightarrow> sys_mark set \<Rightarrow> bool" where
  "sv_ok env s q ts m \<longleftrightarrow>
     sv_ins_tx s \<noteq> None \<and> sv_instruction_trigger s \<and> sv_state s \<in> {STATE_STARTING, STATE_RUNNING} \<and>
     lives s q ts = 1 \<and> monitors q ts \<le> 1 \<and>
     (\<forall>i. TDelay i \<in> set ts \<longrightarrow> i = InAuth) \<and>
     (InStartSubServices \<in> set q \<or> (\<exists>tx cfg d. TStart tx cfg d \<in> set ts) \<or> sv_state s = STATE_RUNNING \<longrightarrow> sv_tuncfg s \<noteq> None) \<and>
     (sv_state s = STATE_RUNNING \<longrightarrow> all_started env (sv_subservices s) \<and> redirects m) \<and>
     (sv_state s \<noteq> STATE_RUNNING \<longrightarrow>
        sv_subservices s = [] \<and> \<not> sv_monitor_trigger s \<and> monitors q ts = 0 \<and> \<not> redirects m)"


section \<open>Every operation keeps the one life\<close>

lemma effects_simps [simp]:
  "fired [] = []" "fired (e # es) = fired_by e @ fired es" "fired (xs @ ys) = fired xs @ fired ys"
  "new_tasks [] = []" "new_tasks (e # es) = tasks_by e @ new_tasks es" "new_tasks (xs @ ys) = new_tasks xs @ new_tasks ys"
  "sys_after [] m = m" "sys_after (e # es) m = sys_after es (sys_by e m)" "sys_after (xs @ ys) m = sys_after ys (sys_after xs m)"
  by (simp_all add: fired_def new_tasks_def sys_after_def)

lemma sub_effects_simps [simp]:
  "fired (map SubEff es) = []" "new_tasks (map SubEff es) = []" "sys_after (map SubEff es) m = m"
  by (induction es arbitrary: m) simp_all

lemma states_differ [simp]:
  "STATE_STOPPED \<noteq> STATE_STARTING" "STATE_STOPPED \<noteq> STATE_RUNNING" "STATE_STARTING \<noteq> STATE_RUNNING"
  "STATE_STOPPING \<noteq> STATE_STOPPED" "STATE_RUNNING \<noteq> STATE_STARTING" "STATE_RUNNING \<noteq> STATE_STOPPED"
  by (simp_all add: state_defs)

lemma all_parts_ctl: "c \<in> set (all_parts env cfg first) \<Longrightarrow> sc_ctl_tx c \<noteq> None \<and> sc_handler c \<noteq> None"
  by (auto simp: all_parts_def ctl_of_def dest!: set_zip_rightD)

lemma without_filter:
  assumes "n < length xs"
  shows "length (filter P xs) = length (filter P (without n xs)) + (if P (xs ! n) then 1 else 0)"
proof -
  have "filter P xs = filter P (take n xs @ xs ! n # drop (Suc n) xs)" using id_take_nth_drop [OF assms] by simp
  then show ?thesis by (simp add: without_def)
qed

lemma set_without: "set (without n xs) \<subseteq> set xs"
  by (auto simp: without_def dest: in_set_takeD in_set_dropD)

lemma fire_simps:
  assumes "sv_ins_tx s \<noteq> None"
  shows "fired (fire_instruction s i) = [i]" "new_tasks (fire_instruction s i) = []" "sys_after (fire_instruction s i) m = m"
  using assms by (auto simp: fire_instruction_def)

lemma notify_quiet:
  "fired (notify_forwarder_update_domains env subs d) = [] \<and> new_tasks (notify_forwarder_update_domains env subs d) = []
    \<and> sys_after (notify_forwarder_update_domains env subs d) m = m"
  by (induction env subs d rule: notify_forwarder_update_domains.induct) (auto split: sub_type.split option.split)

definition cfg_notices :: "('v, 'q) sv_env \<Rightarrow> tun_cfg \<Rightarrow> sub_ctl list \<Rightarrow> sv_effect list" where
  "cfg_notices env c subs = concat (map (\<lambda>ss. case (sc_sstype ss, sc_ctl_tx ss) of
     (SsTunMgr, Some tx) \<Rightarrow> if ve_alive env tx then [SubSend tx (CmdTunCfgUpdate c)] else [] | _ \<Rightarrow> []) subs)"

lemma cfg_notices_quiet:
  "fired (cfg_notices env c subs) = [] \<and> new_tasks (cfg_notices env c subs) = [] \<and> sys_after (cfg_notices env c subs) m = m"
  unfolding cfg_notices_def by (induction subs) (auto split: sub_type.split option.split)

lemma notify_cfg_quiet:
  assumes "sv_tuncfg s = Some c"
  shows "notify_subservice_update_cfg env s = Inr (cfg_notices env c (sv_subservices s))"
  using assms by (simp add: notify_subservice_update_cfg_def cfg_notices_def unwrap_def)

lemma download_quiet:
  assumes "sv_tuncfg s \<noteq> None"
  shows "\<exists>b eff. start_upgrade env s url = Inr (s\<lparr>sv_is_upgrading := b\<rparr>, eff) \<and> fired eff = [] \<and>
    (\<forall>t \<in> set (new_tasks eff). \<exists>f p. t = THttp (ForDownload f p)) \<and> (\<forall>m. sys_after eff m = m)"
proof -
  obtain dir eff1 where g: "get_upgrade_target_filepath env = (dir, eff1)" by fastforce
  then have e: "fired eff1 = [] \<and> new_tasks eff1 = [] \<and> (\<forall>m. sys_after eff1 m = m)"
    by (auto simp: get_upgrade_target_filepath_def Let_def split: option.splits if_splits)
  show ?thesis
  proof (cases dir)
    case None
    then show ?thesis using g e by (auto simp: start_upgrade_def intro!: exI [of _ "sv_is_upgrading s"])
  next
    case (Some d)
    obtain cfg where "sv_tuncfg s = Some cfg" using assms by auto
    then have "\<exists>b eff. do_download env s (fst d) (snd d) url = Inr (s\<lparr>sv_is_upgrading := b\<rparr>, eff) \<and> fired eff = [] \<and>
        (\<forall>t \<in> set (new_tasks eff). \<exists>f p. t = THttp (ForDownload f p)) \<and> (\<forall>m. sys_after eff m = m)"
      by (cases "sv_is_upgrading s"; cases "ve_url_ok env url")
        (auto simp: do_download_def Let_def intro: exI [of _ "sv_is_upgrading s"] exI [of _ True] exI [of _ False])
    then show ?thesis using g e Some by (auto simp: start_upgrade_def)
  qed
qed

text \<open>What is left of the queue and the tasks, and what the operation adds, is a good state again.\<close>

definition ok_after ::
  "('v, 'q) sv_env \<Rightarrow> instruction list \<Rightarrow> sv_task list \<Rightarrow> sys_mark set \<Rightarrow> (service \<times> sv_effect list) res \<Rightarrow> bool" where
  "ok_after env q ts m r \<longleftrightarrow>
     (\<exists>s eff. r = Inr (s, eff) \<and> sv_ok env s (q @ fired eff) (ts @ new_tasks eff) (sys_after eff m))"

lemmas ok_defs = sv_ok_def lives_def monitors_def

lemma ok_afterI:
  "r = Inr (s, eff) \<Longrightarrow> sv_ok env s (q @ fired eff) (ts @ new_tasks eff) (sys_after eff m) \<Longrightarrow> ok_after env q ts m r"
  by (auto simp: ok_after_def)

text \<open>Effects that are no life and no monitoring: a service that keeps its state, threads and triggers stays good.\<close>

lemma ok_quiet:
  assumes "sv_ok env s q ts m" "filter life_ins q' = []" "filter monitor_ins q' = []"
    "\<forall>t \<in> set ts'. t = THttp ForReport \<or> (\<exists>f p. t = THttp (ForDownload f p))"
    "sv_state s' = sv_state s" "sv_subservices s' = sv_subservices s" "sv_ins_tx s' = sv_ins_tx s"
    "sv_instruction_trigger s' = sv_instruction_trigger s" "sv_monitor_trigger s' = sv_monitor_trigger s"
    "sv_tuncfg s \<noteq> None \<longrightarrow> sv_tuncfg s' \<noteq> None" "redirects m' = redirects m"
  shows "sv_ok env s' (q @ q') (ts @ ts') m'"
proof -
  have t: "filter life_task ts' = []" "filter monitor_task ts' = []"
    using assms(4) by (auto simp: filter_empty_conv)
  have n: "TDelay i \<notin> set ts'" "TStart tx cfg d \<notin> set ts'" "InStartSubServices \<notin> set q'" for i tx cfg d
    using assms(2,4) by (force simp: filter_empty_conv)+
  show ?thesis
    using assms(1,5-11) unfolding ok_defs by (simp add: assms(2,3) t n)
qed

lemma not_running_if_life:
  assumes "sv_ok env s q ts m" "0 < length (filter life_ins q) + length (filter life_task ts)"
  shows "sv_state s = STATE_STARTING" "sv_subservices s = []" "\<not> sv_monitor_trigger s" "monitors q ts = 0" "\<not> redirects m"
    "length (filter life_ins q) + length (filter life_task ts) = 1"
  using assms by (auto simp: sv_ok_def lives_def split: if_splits)

lemma running_if_monitor:
  assumes "sv_ok env s q ts m" "0 < monitors q ts"
  shows "sv_state s = STATE_RUNNING" "sv_tuncfg s \<noteq> None" "filter life_ins q = []" "filter life_task ts = []" "monitors q ts = 1"
  using assms by (auto simp: sv_ok_def lives_def split: if_splits)

lemma log_ok:
  assumes "sv_ok env s (i # q) ts m" "is_log i"
  shows "ok_after env q ts m (process_instruction env tx s i)"
proof -
  have q: "sv_ok env s q ts m"
    using assms by (cases i) (simp_all add: ok_defs)
  have "ok_after env q ts m (Inr (s\<lparr>sv_acc_log := l\<rparr>, []))" for l
    using ok_quiet [OF q, of "[]" "[]" "s\<lparr>sv_acc_log := l\<rparr>" m] by (simp add: ok_after_def)
  then show ?thesis using assms(2)
    by (cases i) (simp_all add: process_instruction_def do_access_log_def do_dns_add_def)
qed

lemma auth_ok:
  assumes "sv_ok env s (InAuth # q) ts m" "ve_url_ok env server_url"
  shows "ok_after env q ts m (process_instruction env tx s InAuth)"
  using assms by (auto simp: process_instruction_def do_auth_def delay_post_instruction_def ok_after_def ok_defs Let_def)

lemma start_ok:
  assumes "sv_ok env s (InStartSubServices # q) ts m"
  shows "ok_after env q ts m (process_instruction env tx s InStartSubServices)"
proof -
  note quiet = not_running_if_life [OF assms, simplified]
  obtain cfg tx' where c: "sv_tuncfg s = Some cfg" "sv_ins_tx s = Some tx'" using assms by (auto simp: sv_ok_def)
  have "\<forall>i. TDelay i \<in> set ts \<longrightarrow> i = InAuth" "sv_instruction_trigger s" using assms by (simp_all add: sv_ok_def)
  then show ?thesis
    using quiet c
    by (simp add: process_instruction_def do_start_subservices_def ok_after_def ok_defs Let_def redirects_def)
qed

lemma some_log: "\<exists>l. s = s\<lparr>sv_acc_log := l\<rparr>" "\<exists>l. s\<lparr>sv_acc_log := k\<rparr> = s\<lparr>sv_acc_log := l\<rparr>"
  by (rule exI [of _ "sv_acc_log s"], simp) (rule exI, rule refl)

lemma report_quiet:
  assumes "sv_tuncfg s \<noteq> None"
  shows "\<exists>l eff. do_access_report env s = Inr (s\<lparr>sv_acc_log := l\<rparr>, eff) \<and> fired eff = [] \<and>
    (\<forall>t \<in> set (new_tasks eff). t = THttp ForReport) \<and> (\<forall>m. sys_after eff m = m)"
  using assms by (auto simp: do_access_report_def Let_def some_log)

lemma monitor_ok:
  assumes "sv_ok env s (InServerCfgMonitor # q) ts m"
  shows "ok_after env q ts m (process_instruction env tx s InServerCfgMonitor)"
proof -
  have r: "sv_state s = STATE_RUNNING" "sv_tuncfg s \<noteq> None"
    using running_if_monitor [OF assms] by (auto simp: monitors_def)
  have q: "sv_ok env s q ts m" and n: "monitors q ts = 0" using assms r by (auto simp: ok_defs)
  obtain cfg where c: "sv_tuncfg s = Some cfg" using r by auto
  obtain l eff where d: "do_access_report env s = Inr (s\<lparr>sv_acc_log := l\<rparr>, eff)" "fired eff = []"
    "\<forall>t \<in> set (new_tasks eff). t = THttp ForReport" "\<And>m. sys_after eff m = m"
    using report_quiet [OF r(2)] by blast
  have none: "filter monitor_task (new_tasks eff) = []" using d(3) by (auto simp: filter_empty_conv)
  have quiet: "sv_ok env (s\<lparr>sv_acc_log := l\<rparr>) q (ts @ new_tasks eff) m"
    using ok_quiet [OF q, of "[]" "new_tasks eff" "s\<lparr>sv_acc_log := l\<rparr>" m] d(3) by simp
  then have "sv_ok env (s\<lparr>sv_acc_log := l\<rparr>) q (ts @ THttp ForMonitor # new_tasks eff) m"
    using r n none by (simp add: ok_defs)
  then show ?thesis using q c d
    by (auto simp: process_instruction_def do_cfg_monitor_def ok_after_def Let_def)
qed

lemma all_started_ctls:
  assumes "all_started env subs" "c \<in> set subs"
  shows "sc_ctl_tx c \<noteq> None \<and> sc_handler c \<noteq> None"
  using assms all_parts_ctl unfolding all_started_def by fastforce

lemma restore_marks:
  "fired (restore_sys s) = []" "new_tasks (restore_sys s) = []" "\<not> redirects (sys_after (restore_sys s) m)"
  by (auto simp: restore_sys_def redirects_def)

lemma restart_ok:
  assumes "sv_ok env s (InRestart # q) ts m" "\<And>k. \<not> se_dead (ve_sub env) k"
  shows "ok_after env [] ts m (process_instruction env tx s InRestart)"
proof -
  have r: "sv_state s = STATE_RUNNING" "filter life_task ts = []" "filter monitor_task ts = []"
    using running_if_monitor [OF assms(1)] by (auto simp: monitors_def)
  then have a: "all_started env (sv_subservices s)" using assms(1) by (simp add: sv_ok_def)
  then obtain ss eff where c: "cleanup_subservices (ve_sub env) (sv_subservices s) = Inr (ss, eff)"
    using cleanup_ctls [OF assms(2) all_started_ctls [OF a]] by blast
  have n: "TDelay i \<notin> set ts" "TStart tx' cfg d \<notin> set ts" for i tx' cfg d
    using r(2) by (auto simp: filter_empty_conv)
  show ?thesis
    using assms(1) r n c restore_marks
    by (simp add: process_instruction_def do_restart_def sv_stop_def sv_start_def Let_def ok_after_def ok_defs
        fire_instruction_def redirects_def)
qed

lemma tick_ok:
  assumes "sv_ok env s q ts m" "sv_monitor_trigger s" "monitors q ts = 0"
  shows "\<exists>eff. monitor_tick s = Inr eff \<and> sv_ok env s (q @ fired eff) (ts @ new_tasks eff) (sys_after eff m)"
proof -
  have r: "sv_state s = STATE_RUNNING" "sv_ins_tx s \<noteq> None" using assms by (auto simp: sv_ok_def)
  then obtain cfg where "sv_tuncfg s = Some cfg" using assms by (auto simp: sv_ok_def)
  then show ?thesis using assms r by (auto simp: monitor_tick_def fire_simps ok_defs)
qed

lemma sv_ok_out:
  assumes "n < length ts"
  shows "sv_ok env s q ts m \<longleftrightarrow> sv_ok env s q (ts ! n # without n ts) m"
proof -
  have e: "ts = take n ts @ ts ! n # drop (Suc n) ts" by (rule id_take_nth_drop [OF assms])
  have "set ts = set (ts ! n # without n ts)" by (subst e) (auto simp: without_def)
  moreover have "length (filter P ts) = length (filter P (ts ! n # without n ts))" for P
    using without_filter [OF assms, of P] by simp
  ultimately show ?thesis unfolding ok_defs by (simp only:)
qed

lemma life_spent:
  assumes "sv_ok env s q (t # ts) m" "life_task t"
  shows "sv_state s = STATE_STARTING" "filter life_ins q = []" "filter life_task ts = []" "filter monitor_ins q = []"
    "filter monitor_task ts = []" "sv_subservices s = []" "\<not> sv_monitor_trigger s" "\<not> redirects m"
    "sv_ins_tx s \<noteq> None" "sv_instruction_trigger s"
    "TDelay i \<notin> set ts" "TStart tx cfg d \<notin> set ts" "InStartSubServices \<notin> set q"
proof -
  note l = not_running_if_life [OF assms(1)]
  have k: "\<not> monitor_task t" using assms(2) by (cases t rule: life_task.cases) simp_all
  show "sv_state s = STATE_STARTING" "filter life_ins q = []" "filter life_task ts = []" "filter monitor_ins q = []"
    "filter monitor_task ts = []" "sv_subservices s = []" "\<not> sv_monitor_trigger s" "\<not> redirects m"
    "sv_ins_tx s \<noteq> None" "sv_instruction_trigger s"
    using l k assms by (simp_all add: monitors_def sv_ok_def)
  then show "TDelay i \<notin> set ts" "TStart tx cfg d \<notin> set ts" "InStartSubServices \<notin> set q"
    by (auto simp: filter_empty_conv)
qed

lemma reborn:
  assumes "sv_ok env s q (t # ts) m" "life_task t"
    "sv_state s' = sv_state s" "sv_subservices s' = sv_subservices s" "sv_ins_tx s' = sv_ins_tx s"
    "sv_instruction_trigger s' = sv_instruction_trigger s" "sv_monitor_trigger s' = sv_monitor_trigger s"
  shows "(\<And>i. i \<in> set q' \<Longrightarrow> i = InStartSubServices \<and> sv_tuncfg s' \<noteq> None \<or> i = InAuth) \<Longrightarrow>
    (\<And>t. t \<in> set ts' \<Longrightarrow> t = TDelay InAuth \<or> (\<exists>f p. t = THttp (ForDownload f p))) \<Longrightarrow>
    length q' + length (filter life_task ts') = 1 \<Longrightarrow> sv_ok env s' (q @ q') (ts @ ts') m"
proof -
  assume q: "\<And>i. i \<in> set q' \<Longrightarrow> i = InStartSubServices \<and> sv_tuncfg s' \<noteq> None \<or> i = InAuth"
    and t: "\<And>t. t \<in> set ts' \<Longrightarrow> t = TDelay InAuth \<or> (\<exists>f p. t = THttp (ForDownload f p))"
    and n: "length q' + length (filter life_task ts') = 1"
  have "filter life_ins q' = q'" "filter monitor_ins q' = []" "filter monitor_task ts' = []"
    using q t by (force simp: filter_id_conv filter_empty_conv)+
  moreover have "TStart tx cfg d \<notin> set ts'" "TDelay i \<in> set ts' \<Longrightarrow> i = InAuth" for tx cfg d i
    using t by force+
  moreover have "InStartSubServices \<in> set q' \<Longrightarrow> sv_tuncfg s' \<noteq> None" using q by force
  ultimately show ?thesis using n life_spent [OF assms(1,2)] assms(3-7) by (simp add: ok_defs)
qed

lemma delay_ok:
  assumes "sv_ok env s q (t # ts) m" "life_task t"
  shows "sv_ok env s q (ts @ [TDelay InAuth]) m"
  using reborn [OF assms refl refl refl refl refl, of "[]" "[TDelay InAuth]"] by simp

lemma parse_auth_total:
  assumes "json_api_ok (ve_json env)"
  shows "\<exists>rsp. parse_auth_reply env resp = Inr rsp \<and>
    (\<forall>a c. rsp = Some a \<and> ar_tuncfg a = Some c \<longrightarrow> tc_domain_array c \<noteq> None)"
proof (cases "hr_status resp = 200 \<and> hr_body resp \<noteq> None")
  case True
  then obtain body where b: "hr_status resp = 200" "hr_body resp = Some body" by auto
  obtain r where "auth_resp_from_json_str (ve_json env) (ve_lossy env body) = Inr r"
    "\<forall>a c. r = Some a \<and> ar_tuncfg a = Some c \<longrightarrow> tc_domain_array c \<noteq> None"
    using auth_resp_total [OF assms, of "ve_lossy env body"] by blast
  then show ?thesis using b by (simp add: parse_auth_reply_def)
next
  case False
  then show ?thesis by (auto simp: parse_auth_reply_def)
qed

lemma auth_reply_ok:
  assumes ok: "sv_ok env s q (THttp ForAuth # ts) m" and js: "json_api_ok (ve_json env)" and h: "harmless reply"
    and up: "sv_tuncfg s = None \<Longrightarrow> \<not> demands_upgrade env reply"
  shows "ok_after env q ts m (do_auth_reply env s reply)"
proof -
  have life: "life_task (THttp ForAuth)" by simp
  note delay = delay_ok [OF ok life]
  show ?thesis
  proof (cases reply)
    case (Inl e)
    then show ?thesis using h delay
      by (simp add: harmless_def do_auth_reply_def delay_post_instruction_def ok_after_def)
  next
    case (Inr resp)
    obtain rsp where p: "parse_auth_reply env resp = Inr rsp"
      "\<And>a c. rsp = Some a \<Longrightarrow> ar_tuncfg a = Some c \<Longrightarrow> tc_domain_array c \<noteq> None"
      using parse_auth_total [OF js, of resp] by blast
    show ?thesis
    proof (cases rsp)
      case None
      then show ?thesis using Inr p delay by (simp add: do_auth_reply_def delay_post_instruction_def ok_after_def)
    next
      case (Some a)
      consider (err) "ar_error a \<noteq> 0" | (up) "ar_error a = 0" "ar_need_upgrade a \<and> 0 < length (ar_upgrade_url a)"
        | (cfg) c where "ar_error a = 0" "\<not> (ar_need_upgrade a \<and> 0 < length (ar_upgrade_url a))" "ar_tuncfg a = Some c"
        | (none) "ar_error a = 0" "\<not> (ar_need_upgrade a \<and> 0 < length (ar_upgrade_url a))" "ar_tuncfg a = None"
        by (cases "ar_tuncfg a") blast+
      then show ?thesis
      proof cases
        case up
        then have c: "sv_tuncfg s \<noteq> None" using assms(4) Inr Some p(1) by auto
        obtain b eff where d: "start_upgrade env s (ar_upgrade_url a) = Inr (s\<lparr>sv_is_upgrading := b\<rparr>, eff)" "fired eff = []"
          "\<forall>t \<in> set (new_tasks eff). \<exists>f p. t = THttp (ForDownload f p)" "\<forall>m. sys_after eff m = m"
          using download_quiet [OF c, of env "ar_upgrade_url a"] by (elim exE conjE) (rule that)
        have n: "filter life_task (new_tasks eff) = []" using d(3) by (force simp: filter_empty_conv)
        have t: "t = TDelay InAuth \<or> (\<exists>f p. t = THttp (ForDownload f p))" if "t \<in> set (new_tasks eff @ [TDelay InAuth])" for t
          using that d(3) by force
        have "sv_ok env (s\<lparr>sv_is_upgrading := b\<rparr>) (q @ []) (ts @ (new_tasks eff @ [TDelay InAuth])) m"
          by (rule reborn [OF ok life _ _ _ _ _ _ t]) (simp_all add: n)
        then show ?thesis using up d Inr Some p
          by (simp add: do_auth_reply_def auth_accepted_def delay_post_instruction_def ok_after_def)
      next
        case (cfg c)
        then obtain dom where dom: "tc_domain_array c = Some dom" using p(2) [OF Some] by auto
        have tx: "sv_ins_tx s \<noteq> None" using life_spent [OF ok life] by simp
        let ?s = "save_cfg (s\<lparr>sv_domains := Some dom\<rparr>)
          (replace_user_default_dns_server (s\<lparr>sv_domains := Some dom\<rparr>) (c\<lparr>tc_domain_array := None\<rparr>))"
        have "sv_ok env ?s (q @ [InStartSubServices]) (ts @ []) m"
          by (rule reborn [OF ok life]) (simp_all add: save_cfg_def)
        moreover have "sv_ins_tx ?s \<noteq> None" using tx by (simp add: save_cfg_def)
        ultimately show ?thesis using cfg dom Inr Some p(1)
          by (auto simp: do_auth_reply_def auth_accepted_def ok_after_def Let_def fire_simps simp del: not_None_eq)
      qed (use Inr Some p(1) delay in \<open>auto simp: do_auth_reply_def auth_accepted_def delay_post_instruction_def ok_after_def\<close>)
    qed
  qed
qed

lemma start_subservice_total:
  assumes "\<And>k. \<not> se_dead env k"
  shows "\<exists>r eff. start_subservice env tx cfg domains first = Inr (r, eff) \<and> (r = None \<or> r = Some (all_parts env cfg first))"
proof -
  obtain r eff where p: "start_parts env tx cfg domains first = Inr (r, eff)"
    "case r of Inr v \<Rightarrow> v = running eff \<and> v = all_parts env cfg first \<and> \<not> someone_failed eff
     | Inl v \<Rightarrow> v = running eff \<and> someone_failed eff"
    using start_parts_running by blast
  obtain ss eff2 where "cleanup_subservices env (running eff) = Inr (ss, eff2)"
    using cleanup_running [OF assms] by blast
  then show ?thesis using p by (cases r) (auto simp: start_subservice_def)
qed

lemma start_finish_ok:
  assumes ok: "sv_ok env s q (TStart tx cfg d # ts) m" and alive: "\<And>k. \<not> se_dead (ve_sub env) k"
  shows "ok_after env q ts m (do_start_finish env s tx cfg d first)"
proof -
  have life: "life_task (TStart tx cfg d)" by simp
  note spent = life_spent [OF ok life]
  have "\<exists>tx' cfg' d'. TStart tx' cfg' d' \<in> set (TStart tx cfg d # ts)" by force
  then have "sv_tuncfg s \<noteq> None" using ok unfolding sv_ok_def by blast
  then obtain c where c: "sv_tuncfg s = Some c" by blast
  obtain r eff where r: "start_subservice (ve_sub env) tx cfg d first = Inr (r, eff)"
    "r = None \<or> r = Some (all_parts (ve_sub env) cfg first)"
    using start_subservice_total [OF alive] by blast
  from r(2) show ?thesis
  proof
    assume "r = None"
    then show ?thesis using r(1) delay_ok [OF ok life]
      by (simp add: do_start_finish_def delay_post_instruction_def ok_after_def)
  next
    assume v: "r = Some (all_parts (ve_sub env) cfg first)"
    have "all_started env (rev (all_parts (ve_sub env) cfg first))" by (auto simp: all_started_def)
    then show ?thesis using v r(1) c spent
      by (simp add: do_start_finish_def config_sys_def start_monitor_timer_def ok_after_def ok_defs redirects_def)
  qed
qed

lemma monitor_over:
  assumes ok: "sv_ok env s q (THttp ForMonitor # ts) m"
    and same: "sv_state s' = sv_state s" "sv_subservices s' = sv_subservices s" "sv_ins_tx s' = sv_ins_tx s"
      "sv_instruction_trigger s' = sv_instruction_trigger s" "sv_tuncfg s' \<noteq> None"
    and q: "set q' \<subseteq> {InRestart}" "length q' \<le> 1"
    and t: "\<forall>t \<in> set ts'. \<exists>f p. t = THttp (ForDownload f p)"
  shows "sv_ok env s' (q @ q') (ts @ ts') m"
proof -
  have r: "sv_state s = STATE_RUNNING" "filter monitor_ins q = []" "filter monitor_task ts = []"
    using running_if_monitor [OF ok] by (simp_all add: monitors_def)
  have f: "filter life_ins q' = []" "filter life_task ts' = []" "filter monitor_task ts' = []"
    using q t by (force simp: filter_empty_conv)+
  have n: "TDelay i \<notin> set ts'" "TStart tx cfg d \<notin> set ts'" "InStartSubServices \<notin> set q'" for i tx cfg d
    using q t by force+
  have "length (filter monitor_ins q') \<le> 1" using q(2) le_trans length_filter_le by blast
  then show ?thesis using ok same r f n by (simp add: ok_defs)
qed

lemma monitor_cfg_quiet:
  assumes "sv_tuncfg s \<noteq> None"
  shows "\<exists>c eff. monitor_cfg env s tuncfg = Inr (s\<lparr>sv_tuncfg := Some c\<rparr>, eff) \<and> fired eff = [] \<and> new_tasks eff = [] \<and>
    (\<forall>m. sys_after eff m = m)"
proof (cases tuncfg)
  case None
  obtain c where "sv_tuncfg s = Some c" using assms by blast
  then have "s = s\<lparr>sv_tuncfg := Some c\<rparr>" by simp
  then show ?thesis using None by (intro exI [of _ c] exI [of _ "[]"]) (simp add: monitor_cfg_def)
next
  case (Some cfg)
  let ?c = "replace_user_default_dns_server s (cfg\<lparr>tc_domain_array := None\<rparr>)"
  obtain eff where eff: "eff = (case tc_domain_array cfg of
        Some domains \<Rightarrow>
          if 0 < length domains then notify_forwarder_update_domains env (sv_subservices s) domains else []
      | None \<Rightarrow> [])" by blast
  have quiet: "fired eff = []" "new_tasks eff = []" "sys_after eff m = m" for m
    using notify_quiet [of env "sv_subservices s" _ m] unfolding eff by (simp_all split: option.split)
  have "monitor_cfg env s (Some cfg) =
    Inr (s\<lparr>sv_tuncfg := Some ?c\<rparr>, eff @ cfg_notices env ?c (sv_subservices s))"
    using notify_cfg_quiet [of "save_cfg s ?c" ?c env] by (simp add: monitor_cfg_def eff save_cfg_def Let_def)
  then show ?thesis
    using quiet Some
    by (intro exI [of _ ?c] exI [of _ "eff @ cfg_notices env ?c (sv_subservices s)"]) (simp add: cfg_notices_quiet)
qed

lemma monitor_accepted_ok:
  assumes ok: "sv_ok env s q (THttp ForMonitor # ts) m"
  shows "ok_after env q ts m (monitor_accepted env s a)"
proof (cases "ar_error a = 0")
  case False
  have "sv_tuncfg s \<noteq> None" using running_if_monitor [OF ok] by (simp add: monitors_def)
  then show ?thesis using False monitor_over [OF ok refl refl refl refl, of "[]" "[]"]
    by (simp add: monitor_accepted_def ok_after_def)
next
  case no_error: True
  have tc: "sv_tuncfg s \<noteq> None" and tx: "sv_ins_tx s \<noteq> None"
    using running_if_monitor [OF ok] ok by (simp_all add: monitors_def sv_ok_def del: not_None_eq)
  obtain c eff where u: "monitor_cfg env s (ar_tuncfg a) = Inr (s\<lparr>sv_tuncfg := Some c\<rparr>, eff)" "fired eff = []"
    "new_tasks eff = []" "\<forall>m. sys_after eff m = m"
    using monitor_cfg_quiet [OF tc, of env "ar_tuncfg a"] by (elim exE conjE) (rule that)
  let ?s = "s\<lparr>sv_tuncfg := Some c\<rparr>"
  show ?thesis
  proof (cases "ar_need_upgrade a \<and> 0 < length (ar_upgrade_url a)")
    case True
    obtain b eff2 where d: "start_upgrade env ?s (ar_upgrade_url a) = Inr (?s\<lparr>sv_is_upgrading := b\<rparr>, eff2)" "fired eff2 = []"
      "\<forall>t \<in> set (new_tasks eff2). \<exists>f p. t = THttp (ForDownload f p)" "\<forall>m. sys_after eff2 m = m"
      using download_quiet [of ?s env "ar_upgrade_url a", simplified] by (elim exE conjE) (rule that)
    have "sv_ok env (?s\<lparr>sv_is_upgrading := b\<rparr>) (q @ []) (ts @ new_tasks eff2) m"
      by (rule monitor_over [OF ok _ _ _ _ _ _ _ d(3)]) simp_all
    then show ?thesis using True no_error u d by (simp add: monitor_accepted_def ok_after_def)
  next
    case False
    have "monitor_accepted env s a = Inr (?s, eff @ (if ar_restart a then fire_instruction ?s InRestart else []))"
      using False no_error u(1) by (auto simp: monitor_accepted_def)
    then show ?thesis
      using monitor_over [OF ok, of ?s "[InRestart]" "[]"] monitor_over [OF ok, of ?s "[]" "[]"] u(2-) tx
      by (simp add: ok_after_def fire_simps del: not_None_eq)
  qed
qed

lemma monitor_reply_ok:
  assumes "sv_ok env s q (THttp ForMonitor # ts) m" "json_api_ok (ve_json env)" "harmless reply"
  shows "ok_after env q ts m (do_cfg_monitor_reply env s reply)"
proof -
  have "sv_tuncfg s \<noteq> None" using running_if_monitor [OF assms(1)] by (simp add: monitors_def)
  then have over: "sv_ok env s q ts m"
    using monitor_over [OF assms(1) refl refl refl refl, of "[]" "[]"] by simp
  show ?thesis
  proof (cases reply)
    case (Inl e)
    then show ?thesis using assms(3) over by (simp add: harmless_def do_cfg_monitor_reply_def ok_after_def)
  next
    case (Inr resp)
    obtain rsp where p: "parse_auth_reply env resp = Inr rsp" using parse_auth_total [OF assms(2), of resp] by blast
    have quiet: "ok_after env q ts m (Inr (s, []))" using over by (simp add: ok_after_def)
    show ?thesis using Inr p quiet monitor_accepted_ok [OF assms(1)]
      by (simp add: do_cfg_monitor_reply_def split: option.split)
  qed
qed

lemma drop_quiet_task:
  assumes "sv_ok env s q (t # ts) m" "t = THttp ForReport \<or> t = THttp (ForDownload f p)"
  shows "sv_ok env s q ts m"
  using assms by (elim disjE) (simp_all add: ok_defs)

lemma download_reply_ok:
  assumes "sv_ok env s q (THttp (ForDownload f p) # ts) m" "harmless reply"
  shows "ok_after env q ts m (do_download_reply s f p created written reply)"
proof -
  have q: "sv_ok env (s\<lparr>sv_is_upgrading := b\<rparr>) q ts m" for b
    using ok_quiet [OF drop_quiet_task [OF assms(1)], of f p "[]" "[]" "s\<lparr>sv_is_upgrading := b\<rparr>" m] by simp
  show ?thesis
  proof (cases reply)
    case (Inl e)
    then show ?thesis using assms(2) q by (simp add: harmless_def do_download_reply_def ok_after_def)
  next
    case (Inr resp)
    let ?eff = "if hr_status resp = 200 then case hr_body resp of
          Some body \<Rightarrow> if created \<and> written then [Sys (WriteFile f body), Sys (MakeExecutable f), Sys (RestartScript p)] else []
        | None \<Rightarrow> [] else []"
    have "fired ?eff = []" "new_tasks ?eff = []" "sys_after ?eff m = m" by (simp_all split: option.split)
    moreover have "do_download_reply s f p created written reply = Inr (s\<lparr>sv_is_upgrading := False\<rparr>, ?eff)"
      using Inr by (simp only: do_download_reply_def match_result_simps)
    ultimately show ?thesis using q [of False] by (simp only: ok_after_def) (metis append_Nil2)
  qed
qed

lemma delayed_ok:
  assumes "sv_ok env s q (TDelay i # ts) m"
  shows "ok_after env q ts m (Inr (s, fire_instruction s i))"
proof -
  have i: "i = InAuth" using assms by (simp add: sv_ok_def)
  have life: "life_task (TDelay i)" by simp
  have "sv_ok env s (q @ [InAuth]) (ts @ []) m"
    by (rule reborn [OF assms life]) simp_all
  then show ?thesis using life_spent(9) [OF assms life] i by (simp add: ok_after_def fire_simps del: not_None_eq)
qed

section \<open>Every event\<close>

definition sv_env_ok :: "('v, 'q) sv_env \<Rightarrow> bool" where
  "sv_env_ok env \<longleftrightarrow> ve_url_ok env server_url \<and> json_api_ok (ve_json env) \<and> (\<forall>k. \<not> se_dead (ve_sub env) k)"

definition world_ok :: "('v, 'q) sv_env \<Rightarrow> world \<Rightarrow> bool" where
  "world_ok env w \<longleftrightarrow> sv_ok env (w_service w) (w_queue w) (w_tasks w) (w_sys w)"

lemma settle_ok:
  assumes "ok_after env q ts (w_sys w) r"
  shows "\<exists>w'. and_then r (\<lambda>r. Inr (settle w q ts r)) = Inr w' \<and> world_ok env w'"
  using assms by (auto simp: ok_after_def world_ok_def settle_def)

lemma instruction_ok:
  assumes "sv_env_ok env" "sv_ok env s (i # q) ts m"
  shows "ok_after env (if i = InRestart then [] else q) ts m (process_instruction env tx s i)"
proof (cases i)
  case InRestart
  then show ?thesis using assms restart_ok [of env s q ts m tx] by (simp add: sv_env_ok_def)
qed (use assms log_ok [OF assms(2)] in \<open>auto simp: sv_env_ok_def intro: auth_ok start_ok monitor_ok\<close>)

lemma task_ok:
  assumes "sv_env_ok env" "sv_ok env s q (t # ts) m" "harmless (oc_reply oc)"
    "t = THttp ForAuth \<Longrightarrow> sv_tuncfg s = None \<Longrightarrow> \<not> demands_upgrade env (oc_reply oc)"
  shows "ok_after env q ts m (run_task env s t oc)"
proof (cases t)
  case (THttp p)
  then show ?thesis
  proof (cases p)
    case ForReport
    have "ok_after env q ts m (Inr (s, []))"
      using drop_quiet_task [OF assms(2)] THttp ForReport by (simp add: ok_after_def)
    then show ?thesis using THttp ForReport assms(3) by (auto simp: harmless_def match_result_def split: sum.splits)
  qed (use assms THttp in \<open>auto simp: sv_env_ok_def intro: auth_reply_ok monitor_reply_ok download_reply_ok\<close>)
qed (use assms in \<open>auto simp: sv_env_ok_def intro: delayed_ok start_finish_ok\<close>)

lemma event_ok:
  assumes "sv_env_ok env" "world_ok env w" "sv_enabled env w e"
  shows "\<exists>w'. sv_step env w e = Inr w' \<and> world_ok env w'"
proof (cases e)
  case (EvInstr tx)
  then obtain i q where q: "w_queue w = i # q" using assms(3) by (cases "w_queue w") simp_all
  then have "sv_ok env (w_service w) (i # q) (w_tasks w) (w_sys w)" using assms(2) by (simp add: world_ok_def)
  from settle_ok [OF instruction_ok [OF assms(1) this]] show ?thesis using EvInstr q by simp
next
  case (EvTask n oc)
  then have n: "n < length (w_tasks w)" "harmless (oc_reply oc)"
    "w_tasks w ! n = THttp ForAuth \<Longrightarrow> sv_tuncfg (w_service w) = None \<Longrightarrow> \<not> demands_upgrade env (oc_reply oc)"
    using assms(3) by simp_all
  have "sv_ok env (w_service w) (w_queue w) (w_tasks w ! n # without n (w_tasks w)) (w_sys w)"
    using assms(2) sv_ok_out [OF n(1), of env] by (simp add: world_ok_def)
  from settle_ok [OF task_ok [OF assms(1) this n(2,3)]] show ?thesis using EvTask n(1) by simp
next
  case EvTick
  obtain eff where "monitor_tick (w_service w) = Inr eff"
    "sv_ok env (w_service w) (w_queue w @ fired eff) (w_tasks w @ new_tasks eff) (sys_after eff (w_sys w))"
    using tick_ok assms(2,3) EvTick unfolding world_ok_def by fastforce
  then show ?thesis using EvTick by (simp add: world_ok_def settle_def)
next
  case (EvLog i)
  then have "filter life_ins [i] = []" "filter monitor_ins [i] = []" using assms(3) by (cases i; simp)+
  then have "sv_ok env (w_service w) (w_queue w @ [i]) (w_tasks w @ []) (w_sys w)"
    using assms(2) by (intro ok_quiet) (auto simp: world_ok_def)
  then show ?thesis using EvLog by (simp add: world_ok_def)
qed

lemma boot_fresh:
  "\<exists>w0. boot tx uuid hardcore_dns = Inr w0 \<and> world_ok env w0 \<and> w_queue w0 = [InAuth] \<and> w_tasks w0 = [] \<and>
    \<not> sv_is_upgrading (w_service w0) \<and> sv_tuncfg (w_service w0) = None"
proof -
  obtain s where s: "service_new uuid hardcore_dns = Inr s" "sv_state s = STATE_STOPPED" "sv_subservices s = []"
    "\<not> sv_monitor_trigger s" "\<not> sv_is_upgrading s" "sv_tuncfg s = None"
    by (cases "hardcore_dns = []"; cases "colon \<in> set hardcore_dns") (auto simp: service_new_def STATE_STOPPED_def)
  then show ?thesis
    by (simp add: boot_def sv_start_def fire_instruction_def settle_def world_ok_def ok_defs redirects_def Let_def)
qed

lemma reaches_ok:
  assumes "sv_reaches env w0 w" "sv_env_ok env" "world_ok env w0"
  shows "world_ok env w"
  using assms
proof (induction rule: sv_reaches.induct)
  case (event w e w')
  then show ?case using event_ok [of env w e] by auto
qed

lemma all_parts_not_empty: "all_parts env cfg first \<noteq> []"
proof -
  have "length (all_parts env cfg first) = length (part_types env cfg)" by (simp add: all_parts_def)
  then show ?thesis by (auto simp: part_types_def)
qed

text \<open>
  C15: The service has one life. It comes up, and whatever then happens, as often as it is restarted and
  whatever replies its requests get, exactly one of these exists: a pending authentication (as an
  instruction, a request or a delay), a pending start, or the running threads. It never starts a second
  set of threads and never stops trying. Connections and datagrams are redirected to it exactly while all
  its threads run, and the state says so. No event panics. (Excluded: a panic inside a request or of a
  thread, and an upgrade demanded before there is a configuration, see \<open>upgrade_at_first_auth_panics\<close>.)
\<close>

theorem service_one_life:
  assumes "sv_env_ok env"
  shows "\<exists>w0. boot tx uuid hardcore_dns = Inr w0 \<and> (\<forall>w. sv_reaches env w0 w \<longrightarrow>
    lives (w_service w) (w_queue w) (w_tasks w) = 1 \<and>
    (sv_state (w_service w) = STATE_RUNNING \<longleftrightarrow> all_started env (sv_subservices (w_service w))) \<and>
    (sv_state (w_service w) \<noteq> STATE_RUNNING \<longrightarrow> sv_subservices (w_service w) = []) \<and>
    (redirects (w_sys w) \<longleftrightarrow> sv_state (w_service w) = STATE_RUNNING) \<and>
    (\<forall>e. sv_enabled env w e \<longrightarrow> (\<exists>w'. sv_step env w e = Inr w')))"
proof -
  obtain w0 where w0: "boot tx uuid hardcore_dns = Inr w0" "world_ok env w0" using boot_fresh by blast
  have none: "\<not> all_started env []" using all_parts_not_empty by (auto simp: all_started_def)
  have "lives (w_service w) (w_queue w) (w_tasks w) = 1 \<and>
    (sv_state (w_service w) = STATE_RUNNING \<longleftrightarrow> all_started env (sv_subservices (w_service w))) \<and>
    (sv_state (w_service w) \<noteq> STATE_RUNNING \<longrightarrow> sv_subservices (w_service w) = []) \<and>
    (redirects (w_sys w) \<longleftrightarrow> sv_state (w_service w) = STATE_RUNNING) \<and>
    (\<forall>e. sv_enabled env w e \<longrightarrow> (\<exists>w'. sv_step env w e = Inr w'))" if "sv_reaches env w0 w" for w
  proof -
    have ok: "world_ok env w" by (rule reaches_ok [OF that assms w0(2)])
    have step: "\<forall>e. sv_enabled env w e \<longrightarrow> (\<exists>w'. sv_step env w e = Inr w')" using event_ok [OF assms ok] by blast
    show ?thesis using ok none step
      by (cases "sv_state (w_service w) = STATE_RUNNING") (simp_all add: world_ok_def sv_ok_def)
  qed
  then show ?thesis using w0(1) by blast
qed

text \<open>Examples: threads that all start, and a service on them; \<open>b\<close> is whether the server demands an upgrade.\<close>

definition ok_sub_env :: "(nat \<times> socket_addr \<times> nat) list sub_env" where
  "ok_sub_env = sample_sub_env\<lparr>se_bind_tcp := (\<lambda>_ _. True)\<rparr>"

lemma ok_starts:
  "to_future (start_one_tunmgr ok_sub_env tx cfg n k) = Some (ctl_of SsTunMgr k)"
  "to_future (start_reqmgr ok_sub_env stubs k) = Some (ctl_of SsRegMgr k)"
  "to_future (start_udpx ok_sub_env stubs k) = Some (ctl_of SsUdpX k)"
  subgoal by (rule tunmgr_starts) (simp add: ok_sub_env_def sample_sub_env_def)
  subgoal by (simp add: start_reqmgr_def to_future_def req_mgr_init_def req_server_start_def ok_sub_env_def ctl_of_def)
  subgoal by (simp add: start_udpx_def to_future_def udpx_mgr_init_def x_server_start_def ok_sub_env_def sample_sub_env_def
    ctl_of_def Let_def)
  done

lemma ok_forwarder:
  "to_future (start_forwarder ok_sub_env tx cfg domains k) = Some (ctl_of SsForwarder k)"
proof -
  obtain m e where m: "new_domap sample_env domains = Inr (m, e)" using new_domap_ok [of sample_env domains] by blast
  have all: "\<exists>es. dns_connect_all sample_env fw t ns = Inr es" for fw t ns
    by (induction ns) (auto simp: dns_connect_def sample_env_def Let_def)
  obtain lr where lr: "lr_new (e_parse_addr sample_env) a = Inr lr" for a
    by (simp add: lr_new_def sample_env_def)
  obtain fw where fw: "forwarder_new sample_env tx cfg domains = Inr (fw, e)"
    using m lr by (simp add: forwarder_new_def Let_def)
  let ?fw = "fw\<lparr>fw_keepalive_trigger := True\<rparr>"
  obtain es where "dns_connect_all sample_env ?fw 9 [0..<fw_capacity fw] = Inr es" using all by blast
  then have "\<exists>fw' eff. forwarder_init sample_env fw = Inr (fw', eff, True)"
    by (simp add: forwarder_init_def us_start_def lr_start_def on_dns_udp_created_def sample_env_def Let_def)
  then show ?thesis using fw
    by (auto simp: start_forwarder_def ok_sub_env_def sample_sub_env_def to_future_def ctl_of_def)
qed

lemma ok_start:
  assumes "tc_xport_url cfg = []"
  shows "\<exists>eff. start_subservice ok_sub_env tx cfg domains first = Inr (Some (all_parts ok_sub_env cfg first), eff)"
proof -
  have c: "se_cpus ok_sub_env = 2" by (simp add: ok_sub_env_def sample_sub_env_def)
  have "\<exists>v eff. start_parts ok_sub_env tx cfg domains first = Inr (Inr v, eff)"
    using assms ok_starts ok_forwarder
    by (simp add: start_parts_def start_tunmgr_def c upt_rec numeral_eq_Suc Let_def ctl_of_def)
  then show ?thesis using start_parts_running [of ok_sub_env tx cfg domains first]
    by (auto simp: start_subservice_def)
qed

definition sample_json :: "bool \<Rightarrow> unit json_api" where
  "sample_json b = \<lparr>js_parse = (\<lambda>_. Some ()), js_index = (\<lambda>v _. v), js_is_object = (\<lambda>_. True),
     js_is_string = (\<lambda>_. False), js_as_str = (\<lambda>_. if b then Some (lit ''http://up'') else None),
     js_as_bool = (\<lambda>_. if b then Some True else None), js_as_i64 = (\<lambda>_. None), js_as_u64 = (\<lambda>_. None),
     js_as_array = (\<lambda>_. None)\<rparr>"

definition sample_sv_env :: "bool \<Rightarrow> (unit, (nat \<times> socket_addr \<times> nat) list) sv_env" where
  "sample_sv_env b = \<lparr>ve_version = lit ''0.1'', ve_arch = lit ''arm'', ve_macs = None, ve_show_mac = id,
     ve_exe = [lit ''b'', lit ''lproxy-cv''], ve_exists = (\<lambda>_. True), ve_can_create = (\<lambda>_. False),
     ve_url_ok = (\<lambda>_. True), ve_lossy = id, ve_json = sample_json b, ve_pb = (\<lambda>_. []), ve_show_ip = (\<lambda>_. []),
     ve_alive = (\<lambda>_. True), ve_sub = ok_sub_env\<rparr>"

definition sample_outcome :: outcome where
  "sample_outcome = \<lparr>oc_reply = Inr \<lparr>hr_status = 200, hr_header = None, hr_body = Some []\<rparr>, oc_created = True,
     oc_written = True, oc_first = 0\<rparr>"

lemma sample_sv_env_ok: "sv_env_ok (sample_sv_env b)"
  by (simp add: sv_env_ok_def sample_sv_env_def json_api_ok_def sample_json_def ok_sub_env_def sample_sub_env_def)

lemma sample_boot:
  "boot 7 [] [] = Inr \<lparr>w_service = \<lparr>sv_state = STATE_STARTING, sv_subservices = [], sv_ins_tx = Some 7, sv_tuncfg = None,
       sv_monitor_trigger = False, sv_instruction_trigger = True, sv_domains = None, sv_is_upgrading = False, sv_uuid = [],
       sv_default_dns_server = DEFAULT_DNS_SERVER, sv_user_specify_dns_server = False, sv_acc_log = acc_log_new\<rparr>,
     w_queue = [InAuth], w_tasks = [], w_sys = {}\<rparr>"
  by (simp add: boot_def service_new_def sv_start_def STATE_STOPPED_def settle_def fire_instruction_def Let_def)

lemma sample_auth:
  assumes "w_queue w = [InAuth]" "w_tasks w = []" "\<not> sv_is_upgrading (w_service w)"
  shows "sv_step (sample_sv_env b) w (EvInstr tx) = Inr (w\<lparr>w_queue := [], w_tasks := [THttp ForAuth]\<rparr>)"
  using assms by (simp add: process_instruction_def do_auth_def sample_sv_env_def settle_def Let_def)

lemma sample_reply: "parse_auth_reply (sample_sv_env b) \<lparr>hr_status = 200, hr_header = None, hr_body = Some []\<rparr> =
    auth_resp_from_json_str (sample_json b) []"
  by (simp add: parse_auth_reply_def sample_sv_env_def)

lemma service_one_life_witness:
  "\<exists>w0 w. boot 7 [] [] = Inr w0 \<and> sv_reaches (sample_sv_env False) w0 w \<and> sv_state (w_service w) = STATE_RUNNING \<and>
     all_started (sample_sv_env False) (sv_subservices (w_service w)) \<and> redirects (w_sys w)"
proof -
  let ?env = "sample_sv_env False"
  obtain w0 where w0: "boot 7 [] [] = Inr w0" "w_queue w0 = [InAuth]" "w_tasks w0 = []" "sv_ins_tx (w_service w0) = Some 7"
    "\<not> sv_is_upgrading (w_service w0)" "\<not> sv_user_specify_dns_server (w_service w0)" "sv_tuncfg (w_service w0) = None"
    by (simp add: sample_boot)
  let ?w1 = "w0\<lparr>w_queue := [], w_tasks := [THttp ForAuth]\<rparr>"
  have s1: "sv_step ?env w0 (EvInstr 7) = Inr ?w1" by (rule sample_auth) (use w0 in simp_all)
  obtain w2 c where w2: "sv_step ?env ?w1 (EvTask 0 sample_outcome) = Inr w2" "w_queue w2 = [InStartSubServices]"
    "w_tasks w2 = []" "sv_tuncfg (w_service w2) = Some c" "tc_xport_url c = []" "sv_ins_tx (w_service w2) = Some 7"
    using w0
    by (simp add: sample_outcome_def do_auth_reply_def sample_reply auth_resp_from_json_str_def sample_json_def
      tun_cfg_from_json_def or_default_def dns_server_from_json_def DEFAULT_DNS_SERVER_def lit_def colon_def Let_def
      auth_accepted_def settle_def fire_instruction_def save_cfg_def replace_user_default_dns_server_def without_def)
  obtain w3 where w3: "sv_step ?env w2 (EvInstr 7) = Inr w3" "w_queue w3 = []" "\<exists>d. w_tasks w3 = [TStart 7 c d]"
    "sv_tuncfg (w_service w3) = Some c"
    using w2 by (simp add: process_instruction_def do_start_subservices_def settle_def Let_def)
  then obtain d where d: "w_tasks w3 = [TStart 7 c d]" by blast
  have sub: "ve_sub ?env = ok_sub_env" by (simp add: sample_sv_env_def)
  obtain eff where "start_subservice ok_sub_env 7 c d 0 = Inr (Some (all_parts ok_sub_env c 0), eff)"
    using ok_start [OF w2(5)] by blast
  then obtain w4 where w4: "sv_step ?env w3 (EvTask 0 sample_outcome) = Inr w4" "sv_state (w_service w4) = STATE_RUNNING"
    using w3(4) d by (simp add: sample_outcome_def do_start_finish_def sub config_sys_def start_monitor_timer_def settle_def)
  have "sv_reaches ?env w0 w4"
  proof (rule sv_reaches.event [OF sv_reaches.event [OF sv_reaches.event [OF sv_reaches.event [OF sv_reaches.started _ s1]
      _ w2(1)] _ w3(1)] _ w4(1)])
    show "sv_enabled ?env ?w1 (EvTask 0 sample_outcome)"
      by (simp add: sample_outcome_def harmless_def sample_reply auth_resp_from_json_str_def sample_json_def
        tun_cfg_from_json_def or_default_def dns_server_from_json_def DEFAULT_DNS_SERVER_def lit_def colon_def Let_def)
  qed (use w0 w2 d in \<open>simp_all add: sample_outcome_def harmless_def\<close>)
  moreover note service_one_life [OF sample_sv_env_ok [of False], of 7 "[]" "[]"]
  ultimately show ?thesis using w0(1) w4(2) by auto
qed

text \<open>
  C37: An upgrade demanded in the reply to the first authentication is fatal. The service has no configuration
  yet, but the download takes the DNS server from it: the service panics instead of upgrading, and it
  does so after every start, as the server demands the upgrade again.
\<close>

theorem upgrade_at_first_auth_panics:
  assumes "parse_auth_reply env resp = Inr (Some a)" "ar_error a = 0" "ar_need_upgrade a" "ar_upgrade_url a \<noteq> []"
    "ve_url_ok env (ar_upgrade_url a)" "fst (get_upgrade_target_filepath env) \<noteq> None" "ve_url_ok env server_url"
    "oc_reply oc = Inr resp"
  shows "\<exists>w0 w. boot tx uuid hardcore_dns = Inr w0 \<and> sv_step env w0 (EvInstr tx2) = Inr w \<and> w_tasks w = [THttp ForAuth] \<and>
    sv_step env w (EvTask 0 oc) = Inl Panicked"
proof -
  obtain dir eff where t: "get_upgrade_target_filepath env = (Some dir, eff)"
    using assms(6) by (cases "get_upgrade_target_filepath env") auto
  obtain w0 where w0: "boot tx uuid hardcore_dns = Inr w0" "w_queue w0 = [InAuth]" "w_tasks w0 = []"
    "\<not> sv_is_upgrading (w_service w0)" "sv_tuncfg (w_service w0) = None"
    using boot_fresh by blast
  then have s: "sv_step env w0 (EvInstr tx2) = Inr (w0\<lparr>w_queue := [], w_tasks := [THttp ForAuth]\<rparr>)"
    using assms(7) by (simp add: process_instruction_def do_auth_def settle_def Let_def)
  have "sv_step env (w0\<lparr>w_queue := [], w_tasks := [THttp ForAuth]\<rparr>) (EvTask 0 oc) = Inl Panicked"
    using assms(1-5,8) t w0 by (simp add: do_auth_reply_def auth_accepted_def start_upgrade_def do_download_def)
  then show ?thesis using w0(1) s by auto
qed

lemma upgrade_at_first_auth_panics_witness:
  "\<exists>w0 w. boot 7 [] [] = Inr w0 \<and> sv_step (sample_sv_env True) w0 (EvInstr 7) = Inr w \<and> w_tasks w = [THttp ForAuth] \<and>
    sv_step (sample_sv_env True) w (EvTask 0 sample_outcome) = Inl Panicked"
proof -
  obtain a where "parse_auth_reply (sample_sv_env True) \<lparr>hr_status = 200, hr_header = None, hr_body = Some []\<rparr> = Inr (Some a)"
    "ar_error a = 0" "ar_need_upgrade a" "ar_upgrade_url a \<noteq> []"
    by (simp add: sample_reply auth_resp_from_json_str_def sample_json_def tun_cfg_from_json_def or_default_def
      dns_server_from_json_def DEFAULT_DNS_SERVER_def lit_def colon_def Let_def)
  then show ?thesis
    by (rule upgrade_at_first_auth_panics)
      (simp_all add: sample_sv_env_def get_upgrade_target_filepath_def lit_def sample_outcome_def Let_def)
qed
end
