(* ===== verification/Firewall.thy ===== *)
theory Firewall imports Service begin
text \<open>
  The shell commands of \<^verbatim>\<open>service/iptable_rule.rs\<close>, \<^verbatim>\<open>ip_rules.rs\<close>, \<^verbatim>\<open>ipset.rs\<close> and \<^verbatim>\<open>uci.rs\<close>, and what they do
  to the chains of the kernel's mangle tables when \<^verbatim>\<open>config_sys\<close> and \<^verbatim>\<open>restore_sys\<close> run them.
\<close>

section \<open>Commands\<close>

datatype ip_family = IPv4 | IPv6

record nf_rule =
  nr_match :: string
  nr_jump :: string
  nr_args :: string

datatype nf_op = NfNew | NfAppend nf_rule | NfInsert nf_rule | NfDelete nf_rule | NfFlush | NfRemove

text \<open>An \<^verbatim>\<open>iptables\<close> command on a chain of the mangle table of a family.\<close>

datatype ipt_cmd = Ipt (ic_family: ip_family) (ic_chain: string) (ic_op: nf_op)

definition rule_text :: "nf_rule \<Rightarrow> string" where
  "rule_text r = (if nr_match r = [] then [] else '' '' @ nr_match r) @ '' -j '' @ nr_jump r
     @ (if nr_args r = [] then [] else '' '' @ nr_args r)"

fun op_text :: "string \<Rightarrow> nf_op \<Rightarrow> string" where
  "op_text c NfNew = ''-N '' @ c"
| "op_text c (NfAppend r) = ''-A '' @ c @ rule_text r"
| "op_text c (NfInsert r) = ''-I '' @ c @ rule_text r"
| "op_text c (NfDelete r) = ''-D '' @ c @ rule_text r"
| "op_text c NfFlush = ''-F '' @ c"
| "op_text c NfRemove = ''-X '' @ c"

fun cmd_text :: "ipt_cmd \<Rightarrow> string" where
  "cmd_text (Ipt f c e) = (case f of IPv4 \<Rightarrow> ''iptables'' | IPv6 \<Rightarrow> ''ip6tables'') @ '' -t mangle '' @ op_text c e"

definition script_text :: "ipt_cmd list \<Rightarrow> string" where
  "script_text cs = concat (map (\<lambda>c. cmd_text c @ '';'') cs)"

section \<open>The scripts\<close>

abbreviation "prerouting \<equiv> ''PREROUTING''"
abbreviation "lproxy_tcp \<equiv> ''LPROXY_TCP''"
abbreviation "divert \<equiv> ''DIVERT''"

definition tproxy :: "ip_family \<Rightarrow> string \<Rightarrow> nf_rule" where
  "tproxy f proto = \<lparr>nr_match = ''-p '' @ proto, nr_jump = ''TPROXY'', nr_args = ''--on-port 5000 --on-ip ''
     @ (case f of IPv4 \<Rightarrow> ''127.0.0.1'' | IPv6 \<Rightarrow> ''::1'') @ '' --tproxy-mark 0x01/0x01''\<rparr>"

definition in_set :: "string \<Rightarrow> nf_rule" where
  "in_set s = \<lparr>nr_match = ''-m set --match-set '' @ s @ '' dst'', nr_jump = lproxy_tcp, nr_args = []\<rparr>"

definition all_to_lproxy :: nf_rule where
  "all_to_lproxy = \<lparr>nr_match = [], nr_jump = lproxy_tcp, nr_args = []\<rparr>"

definition socket_to_divert :: nf_rule where
  "socket_to_divert = \<lparr>nr_match = ''-m socket'', nr_jump = divert, nr_args = []\<rparr>"

definition set_mark :: nf_rule where
  "set_mark = \<lparr>nr_match = [], nr_jump = ''MARK'', nr_args = ''--set-mark 1''\<rparr>"

definition accept :: nf_rule where
  "accept = \<lparr>nr_match = [], nr_jump = ''ACCEPT'', nr_args = []\<rparr>"

definition return_for :: "string \<Rightarrow> nf_rule" where
  "return_for net = \<lparr>nr_match = ''-d '' @ net, nr_jump = ''RETURN'', nr_args = []\<rparr>"

definition unset_iptables_rules :: "ipt_cmd list" where
  "unset_iptables_rules =
     [Ipt IPv4 prerouting (NfDelete (in_set ''LPROXY'')),
      Ipt IPv4 prerouting (NfDelete (in_set ''LPROXYN'')),
      Ipt IPv4 prerouting (NfDelete socket_to_divert),
      Ipt IPv6 prerouting (NfDelete (in_set ''LPROXY6'')),
      Ipt IPv6 prerouting (NfDelete socket_to_divert),
      Ipt IPv6 lproxy_tcp NfFlush, Ipt IPv6 lproxy_tcp NfRemove,
      Ipt IPv6 divert NfFlush, Ipt IPv6 divert NfRemove]"

definition set_iptables_script :: "ipt_cmd list" where
  "set_iptables_script =
     [Ipt IPv4 lproxy_tcp NfNew,
      Ipt IPv4 lproxy_tcp (NfAppend (tproxy IPv4 ''tcp'')),
      Ipt IPv4 lproxy_tcp (NfAppend (tproxy IPv4 ''udp'')),
      Ipt IPv4 prerouting (NfInsert (in_set ''LPROXYN'')),
      Ipt IPv4 prerouting (NfInsert (in_set ''LPROXY'')),
      Ipt IPv4 divert NfNew,
      Ipt IPv4 divert (NfAppend set_mark),
      Ipt IPv4 divert (NfAppend accept),
      Ipt IPv4 prerouting (NfInsert socket_to_divert),
      Ipt IPv6 lproxy_tcp NfNew,
      Ipt IPv6 lproxy_tcp (NfAppend (tproxy IPv6 ''tcp'')),
      Ipt IPv6 lproxy_tcp (NfAppend (tproxy IPv6 ''udp'')),
      Ipt IPv6 prerouting (NfInsert (in_set ''LPROXY6'')),
      Ipt IPv6 divert NfNew,
      Ipt IPv6 divert (NfAppend set_mark),
      Ipt IPv6 divert (NfAppend accept),
      Ipt IPv6 prerouting (NfInsert socket_to_divert)]"

definition set_iptables_rules :: "ipt_cmd list" where
  "set_iptables_rules = unset_iptables_rules @ set_iptables_script"

definition unset_iptables_rules_for_global :: "ipt_cmd list" where
  "unset_iptables_rules_for_global =
     [Ipt IPv4 prerouting (NfDelete all_to_lproxy),
      Ipt IPv4 prerouting (NfDelete socket_to_divert),
      Ipt IPv4 divert NfFlush, Ipt IPv4 divert NfRemove,
      Ipt IPv4 lproxy_tcp NfFlush, Ipt IPv4 lproxy_tcp NfRemove]"

definition local_nets :: "string list" where
  "local_nets = [''0.0.0.0/8'', ''10.0.0.0/8'', ''127.0.0.0/8'', ''169.254.0.0/16'', ''172.16.0.0/12'', ''192.168.0.0/16'',
     ''224.0.0.0/4'', ''240.0.0.0/4'']"

definition set_global_script :: "ipt_cmd list" where
  "set_global_script =
     Ipt IPv4 lproxy_tcp NfNew # map (\<lambda>net. Ipt IPv4 lproxy_tcp (NfAppend (return_for net))) local_nets @
     [Ipt IPv4 lproxy_tcp (NfAppend (tproxy IPv4 ''tcp'')),
      Ipt IPv4 lproxy_tcp (NfAppend (tproxy IPv4 ''udp'')),
      Ipt IPv4 prerouting (NfInsert all_to_lproxy),
      Ipt IPv4 divert NfNew,
      Ipt IPv4 divert (NfAppend set_mark),
      Ipt IPv4 divert (NfAppend accept),
      Ipt IPv4 prerouting (NfInsert socket_to_divert)]"

definition set_iptables_rules_for_global :: "ipt_cmd list" where
  "set_iptables_rules_for_global = unset_iptables_rules_for_global @ set_global_script"

lemma unset_global_text:
  "script_text unset_iptables_rules_for_global =
     ''iptables -t mangle -D PREROUTING -j LPROXY_TCP;'' @
     ''iptables -t mangle -D PREROUTING -m socket -j DIVERT;'' @
     ''iptables -t mangle -F DIVERT;'' @
     ''iptables -t mangle -X DIVERT;'' @
     ''iptables -t mangle -F LPROXY_TCP;'' @
     ''iptables -t mangle -X LPROXY_TCP;''"
  by (simp add: script_text_def unset_iptables_rules_for_global_def rule_text_def all_to_lproxy_def socket_to_divert_def)

lemma unset_text:
  "script_text unset_iptables_rules =
     ''iptables -t mangle -D PREROUTING -m set --match-set LPROXY dst -j LPROXY_TCP;'' @
     ''iptables -t mangle -D PREROUTING -m set --match-set LPROXYN dst -j LPROXY_TCP;'' @
     ''iptables -t mangle -D PREROUTING -m socket -j DIVERT;'' @
     ''ip6tables -t mangle -D PREROUTING -m set --match-set LPROXY6 dst -j LPROXY_TCP;'' @
     ''ip6tables -t mangle -D PREROUTING -m socket -j DIVERT;'' @
     ''ip6tables -t mangle -F LPROXY_TCP;'' @
     ''ip6tables -t mangle -X LPROXY_TCP;'' @
     ''ip6tables -t mangle -F DIVERT;'' @
     ''ip6tables -t mangle -X DIVERT;''"
  by (simp add: script_text_def unset_iptables_rules_def rule_text_def in_set_def socket_to_divert_def)

section \<open>What runs for each command of the service\<close>

fun sys_cmds :: "sys_cmd \<Rightarrow> ipt_cmd list" where
  "sys_cmds SetIptables = set_iptables_rules"
| "sys_cmds SetIptablesGlobal = set_iptables_rules_for_global"
| "sys_cmds UnsetIptables = unset_iptables_rules"
| "sys_cmds UnsetIptablesGlobal = unset_iptables_rules_for_global"
| "sys_cmds _ = []"

fun effect_cmds :: "sv_effect \<Rightarrow> ipt_cmd list" where
  "effect_cmds (Sys c) = sys_cmds c"
| "effect_cmds _ = []"

text \<open>A failing command is ignored, and the next one runs.\<close>

definition run_effects :: "(ipt_cmd \<Rightarrow> 'w \<Rightarrow> 'w) \<Rightarrow> sv_effect list \<Rightarrow> 'w \<Rightarrow> 'w" where
  "run_effects run effs w = fold run (concat (map effect_cmds effs)) w"

section \<open>What the commands do\<close>

text \<open>
  The documented behaviour of \<^verbatim>\<open>iptables\<close> on a table of chains. A command that fails changes nothing: making a
  chain that exists, a rule of a chain that does not exist or for a target that does not, removing a chain
  that has rules or is the target of one.
\<close>

type_synonym nf_table = "string \<Rightarrow> nf_rule list option"

definition target_ok :: "nf_table \<Rightarrow> nf_rule \<Rightarrow> bool" where
  "target_ok t r \<longleftrightarrow> nr_jump r \<in> {''TPROXY'', ''MARK'', ''ACCEPT'', ''RETURN''} \<or> t (nr_jump r) \<noteq> None"

definition unreferenced :: "nf_table \<Rightarrow> string \<Rightarrow> bool" where
  "unreferenced t c \<longleftrightarrow> (\<forall>c' rs. t c' = Some rs \<longrightarrow> (\<forall>r \<in> set rs. nr_jump r \<noteq> c))"

fun op_run :: "nf_op \<Rightarrow> string \<Rightarrow> nf_table \<Rightarrow> nf_table" where
  "op_run NfNew c t = (if t c = None then t(c \<mapsto> []) else t)"
| "op_run (NfAppend r) c t = (case t c of Some rs \<Rightarrow> if target_ok t r then t(c \<mapsto> rs @ [r]) else t | None \<Rightarrow> t)"
| "op_run (NfInsert r) c t = (case t c of Some rs \<Rightarrow> if target_ok t r then t(c \<mapsto> r # rs) else t | None \<Rightarrow> t)"
| "op_run (NfDelete r) c t = (case t c of Some rs \<Rightarrow> t(c \<mapsto> remove1 r rs) | None \<Rightarrow> t)"
| "op_run NfFlush c t = (case t c of Some rs \<Rightarrow> t(c \<mapsto> []) | None \<Rightarrow> t)"
| "op_run NfRemove c t = (if t c = Some [] \<and> unreferenced t c then t(c := None) else t)"

definition netfilter_ok :: "('w \<Rightarrow> ip_family \<Rightarrow> nf_table) \<Rightarrow> (ipt_cmd \<Rightarrow> 'w \<Rightarrow> 'w) \<Rightarrow> bool" where
  "netfilter_ok view run \<longleftrightarrow>
     (\<forall>f c e w. view (run (Ipt f c e) w) = (view w)(f := op_run e c (view w f)))"

definition cmd_run :: "ipt_cmd \<Rightarrow> nf_table \<Rightarrow> nf_table" where
  "cmd_run c = op_run (ic_op c) (ic_chain c)"

lemma run_view:
  assumes "netfilter_ok view run"
  shows "view (fold run cs w) f = fold cmd_run (filter (\<lambda>c. ic_family c = f) cs) (view w f)"
proof (induction cs arbitrary: w)
  case (Cons c cs)
  obtain g ch e where c: "c = Ipt g ch e" by (cases c)
  have "view (run c w) = (view w)(g := op_run e ch (view w g))" using assms by (simp add: netfilter_ok_def c)
  then show ?case using Cons.IH [of "run c w"] by (simp add: c cmd_run_def)
qed simp

text \<open>A table is clean when it has no chain of the program's and no rule that leads to one.\<close>

definition clean :: "nf_table \<Rightarrow> nf_rule list \<Rightarrow> bool" where
  "clean t pre \<longleftrightarrow> t prerouting = Some pre \<and> t lproxy_tcp = None \<and> t divert = None \<and>
     (\<forall>c rs. t c = Some rs \<longrightarrow> (\<forall>r \<in> set rs. nr_jump r \<noteq> lproxy_tcp \<and> nr_jump r \<noteq> divert))"

text \<open>A clean table with the three chains that the scripts change.\<close>

definition with_ours :: "nf_table \<Rightarrow> nf_rule list \<Rightarrow> nf_rule list option \<Rightarrow> nf_rule list option \<Rightarrow> nf_table" where
  "with_ours t p l d = t(prerouting \<mapsto> p, lproxy_tcp := l, divert := d)"

lemma with_ours_clean: "clean t pre \<Longrightarrow> with_ours t pre None None = t"
  by (auto simp: with_ours_def clean_def fun_eq_iff)

definition leads_to :: "string \<Rightarrow> nf_rule list \<Rightarrow> bool" where
  "leads_to c rs \<longleftrightarrow> (\<exists>r \<in> set rs. nr_jump r = c)"

lemma leads_to_simps [simp]:
  "leads_to c [] = False" "leads_to c (r # rs) = (nr_jump r = c \<or> leads_to c rs)"
  "leads_to c (rs @ rs') = (leads_to c rs \<or> leads_to c rs')"
  by (auto simp: leads_to_def)

lemma clean_pre: "clean t pre \<Longrightarrow> \<not> leads_to lproxy_tcp pre \<and> \<not> leads_to divert pre"
  by (auto simp: clean_def leads_to_def)

lemma remove1_foreign: "\<not> leads_to c rs \<Longrightarrow> nr_jump r = c \<Longrightarrow> remove1 r rs = rs"
  by (auto simp: leads_to_def intro: remove1_idem)

lemma with_ours_simps [simp]:
  "with_ours t p l d prerouting = Some p" "with_ours t p l d lproxy_tcp = l" "with_ours t p l d divert = d"
  "(with_ours t p l d)(prerouting \<mapsto> p') = with_ours t p' l d" "(with_ours t p l d)(lproxy_tcp := l') = with_ours t p l' d"
  "(with_ours t p l d)(divert := d') = with_ours t p l d'"
  by (auto simp: with_ours_def fun_eq_iff)

definition quiet :: "string \<Rightarrow> nf_rule list option \<Rightarrow> bool" where
  "quiet c x \<longleftrightarrow> (case x of None \<Rightarrow> True | Some rs \<Rightarrow> \<not> leads_to c rs)"

lemma quiet_simps [simp]: "quiet c None" "quiet c (Some rs) \<longleftrightarrow> \<not> leads_to c rs"
  by (simp_all add: quiet_def)

lemma unreferenced_quiet: "unreferenced t c \<longleftrightarrow> (\<forall>c'. quiet c (t c'))"
proof -
  have "quiet c (t c') \<longleftrightarrow> (\<forall>rs. t c' = Some rs \<longrightarrow> (\<forall>r \<in> set rs. nr_jump r \<noteq> c))" for c'
    by (cases "t c'") (auto simp: leads_to_def)
  then show ?thesis by (simp add: unreferenced_def)
qed

lemma unreferenced_ours:
  assumes "clean t pre" "c = lproxy_tcp \<or> c = divert"
  shows "unreferenced (with_ours t p l d) c \<longleftrightarrow> \<not> leads_to c p \<and> quiet c l \<and> quiet c d"
proof -
  have "unreferenced t c" using assms unfolding unreferenced_def clean_def by metis
  then have t: "quiet c (t c')" for c' by (simp add: unreferenced_quiet)
  have "quiet c (with_ours t p l d c')" if "\<not> leads_to c p" "quiet c l" "quiet c d" for c'
    using that t [of c'] unfolding with_ours_def fun_upd_def by simp
  moreover have "\<not> leads_to c p \<and> quiet c l \<and> quiet c d" if "\<forall>c'. quiet c (with_ours t p l d c')"
    using that [rule_format, of prerouting] that [rule_format, of lproxy_tcp] that [rule_format, of divert]
    unfolding with_ours_simps(1-3) by simp
  ultimately show ?thesis unfolding unreferenced_quiet by blast
qed

lemmas cmds_defs = cmd_run_def target_ok_def unset_iptables_rules_def set_iptables_script_def set_iptables_rules_def
  unset_iptables_rules_for_global_def set_global_script_def set_iptables_rules_for_global_def local_nets_def

definition listed_v4 :: "nf_table \<Rightarrow> nf_rule list \<Rightarrow> nf_table" where
  "listed_v4 t pre = with_ours t (socket_to_divert # in_set ''LPROXY'' # in_set ''LPROXYN'' # pre)
      (Some [tproxy IPv4 ''tcp'', tproxy IPv4 ''udp'']) (Some [set_mark, accept])"

definition listed_v6 :: "nf_table \<Rightarrow> nf_rule list \<Rightarrow> nf_table" where
  "listed_v6 t pre = with_ours t (socket_to_divert # in_set ''LPROXY6'' # pre)
      (Some [tproxy IPv6 ''tcp'', tproxy IPv6 ''udp'']) (Some [set_mark, accept])"

definition global_v4 :: "nf_table \<Rightarrow> nf_rule list \<Rightarrow> nf_table" where
  "global_v4 t pre = with_ours t (socket_to_divert # all_to_lproxy # pre)
      (Some (map return_for local_nets @ [tproxy IPv4 ''tcp'', tproxy IPv4 ''udp''])) (Some [set_mark, accept])"

definition family_run :: "ip_family \<Rightarrow> ipt_cmd list \<Rightarrow> nf_table \<Rightarrow> nf_table" where
  "family_run f cs t = fold cmd_run (filter (\<lambda>c. ic_family c = f) cs) t"

lemma family_run_append: "family_run f (cs @ ds) t = family_run f ds (family_run f cs t)"
  by (simp add: family_run_def)

lemmas rule_defs = in_set_def socket_to_divert_def all_to_lproxy_def tproxy_def set_mark_def accept_def return_for_def

lemma tables_set:
  assumes "clean t pre"
  shows "family_run IPv4 set_iptables_rules t = listed_v4 t pre" "family_run IPv6 set_iptables_rules t = listed_v6 t pre"
    "family_run IPv4 set_iptables_rules_for_global t = global_v4 t pre" "family_run IPv6 set_iptables_rules_for_global t = t"
proof -
  have t: "t = with_ours t pre None None" using with_ours_clean [OF assms] by simp
  note eval = family_run_def cmds_defs unreferenced_ours [OF assms] remove1_foreign [of lproxy_tcp] remove1_foreign [of divert]
    rule_defs listed_v4_def listed_v6_def global_v4_def
  show "family_run IPv4 set_iptables_rules t = listed_v4 t pre"
    by (subst t) (use clean_pre [OF assms] in \<open>simp add: eval\<close>)
  show "family_run IPv6 set_iptables_rules t = listed_v6 t pre"
    by (subst t) (use clean_pre [OF assms] in \<open>simp add: eval\<close>)
  show "family_run IPv4 set_iptables_rules_for_global t = global_v4 t pre"
    by (subst t) (use clean_pre [OF assms] in \<open>simp add: eval\<close>)
  show "family_run IPv6 set_iptables_rules_for_global t = t"
    by (simp add: family_run_def set_iptables_rules_for_global_def unset_iptables_rules_for_global_def set_global_script_def local_nets_def)
qed

lemma tables_unset:
  assumes "clean t pre"
  shows "family_run IPv4 (unset_iptables_rules @ unset_iptables_rules_for_global) (listed_v4 t pre) = t"
    "family_run IPv6 (unset_iptables_rules @ unset_iptables_rules_for_global) (listed_v6 t pre) = t"
    "family_run IPv4 (unset_iptables_rules @ unset_iptables_rules_for_global) (global_v4 t pre) = t"
    "family_run IPv6 (unset_iptables_rules @ unset_iptables_rules_for_global) t = t"
proof -
  have t: "with_ours t pre None None = t" by (rule with_ours_clean [OF assms])
  note eval = family_run_def cmds_defs unreferenced_ours [OF assms] remove1_foreign [of lproxy_tcp] remove1_foreign [of divert]
    rule_defs listed_v4_def listed_v6_def global_v4_def t
  show "family_run IPv4 (unset_iptables_rules @ unset_iptables_rules_for_global) (listed_v4 t pre) = t"
    using clean_pre [OF assms] by (simp add: eval)
  show "family_run IPv6 (unset_iptables_rules @ unset_iptables_rules_for_global) (listed_v6 t pre) = t"
    using clean_pre [OF assms] by (simp add: eval)
  show "family_run IPv4 (unset_iptables_rules @ unset_iptables_rules_for_global) (global_v4 t pre) = t"
    using clean_pre [OF assms] by (simp add: eval)
  have "family_run IPv6 (unset_iptables_rules @ unset_iptables_rules_for_global) (with_ours t pre None None) = with_ours t pre None None"
    using clean_pre [OF assms] by (simp add: family_run_def cmds_defs unreferenced_ours [OF assms] remove1_foreign [of lproxy_tcp]
      remove1_foreign [of divert] rule_defs)
  then show "family_run IPv6 (unset_iptables_rules @ unset_iptables_rules_for_global) t = t" by (simp add: t)
qed

lemma tables_again:
  assumes "clean t pre"
  shows "family_run IPv4 set_iptables_rules (listed_v4 t pre) =
      with_ours t (socket_to_divert # in_set ''LPROXY'' # in_set ''LPROXYN'' # pre)
        (Some [tproxy IPv4 ''tcp'', tproxy IPv4 ''udp'', tproxy IPv4 ''tcp'', tproxy IPv4 ''udp''])
        (Some [set_mark, accept, set_mark, accept])"
    "family_run IPv4 set_iptables_rules (global_v4 t pre) =
      with_ours t (socket_to_divert # in_set ''LPROXY'' # in_set ''LPROXYN'' # all_to_lproxy # pre)
        (Some (map return_for local_nets @ [tproxy IPv4 ''tcp'', tproxy IPv4 ''udp'', tproxy IPv4 ''tcp'', tproxy IPv4 ''udp'']))
        (Some [set_mark, accept, set_mark, accept])"
    "family_run IPv6 set_iptables_rules (listed_v6 t pre) = listed_v6 t pre"
proof -
  note eval = family_run_def cmds_defs unreferenced_ours [OF assms] remove1_foreign [of lproxy_tcp] remove1_foreign [of divert]
    rule_defs listed_v4_def listed_v6_def global_v4_def
  show "family_run IPv4 set_iptables_rules (listed_v4 t pre) =
      with_ours t (socket_to_divert # in_set ''LPROXY'' # in_set ''LPROXYN'' # pre)
        (Some [tproxy IPv4 ''tcp'', tproxy IPv4 ''udp'', tproxy IPv4 ''tcp'', tproxy IPv4 ''udp''])
        (Some [set_mark, accept, set_mark, accept])"
    using clean_pre [OF assms] by (simp add: eval)
  show "family_run IPv4 set_iptables_rules (global_v4 t pre) =
      with_ours t (socket_to_divert # in_set ''LPROXY'' # in_set ''LPROXYN'' # all_to_lproxy # pre)
        (Some (map return_for local_nets @ [tproxy IPv4 ''tcp'', tproxy IPv4 ''udp'', tproxy IPv4 ''tcp'', tproxy IPv4 ''udp'']))
        (Some [set_mark, accept, set_mark, accept])"
    using clean_pre [OF assms] by (simp add: eval)
  show "family_run IPv6 set_iptables_rules (listed_v6 t pre) = listed_v6 t pre"
    using clean_pre [OF assms] by (simp add: eval)
qed

section \<open>Properties\<close>

lemma config_view:
  assumes "netfilter_ok view run" "sv_tuncfg s = Some cfg"
  shows "\<exists>eff. config_sys s = Inr eff \<and> (\<forall>w f. view (run_effects run eff w) f =
    family_run f (if tc_work_as_global cfg then set_iptables_rules_for_global else set_iptables_rules) (view w f))"
  using assms by (auto simp: config_sys_def run_effects_def run_view [OF assms(1)] family_run_def)

lemma restore_view:
  assumes "netfilter_ok view run"
  shows "view (run_effects run (restore_sys s) w) f = family_run f (unset_iptables_rules @ unset_iptables_rules_for_global) (view w f)"
  by (simp add: restore_sys_def run_effects_def run_view [OF assms] family_run_def)

text \<open>
  C39: On a system without rules of the program's, starting the service sets up the interception of its mode:
  packets of a local socket are diverted first, then those for the listed sets, or all but those for local
  networks, go to the transparent proxy, all ahead of the rules that were there; the IPv6 table is left
  alone in global mode. Stopping it, by then configured in whatever way, leaves every chain as it was.
\<close>

theorem config_then_restore:
  assumes "netfilter_ok view run" "\<And>f. clean (view w f) (pre f)" "sv_tuncfg s = Some cfg"
  shows "\<exists>eff. config_sys s = Inr eff \<and>
    view (run_effects run eff w) IPv4 prerouting = Some (socket_to_divert #
      (if tc_work_as_global cfg then [all_to_lproxy] else [in_set ''LPROXY'', in_set ''LPROXYN'']) @ pre IPv4) \<and>
    view (run_effects run eff w) IPv4 lproxy_tcp = Some (
      (if tc_work_as_global cfg then map return_for local_nets else []) @ [tproxy IPv4 ''tcp'', tproxy IPv4 ''udp'']) \<and>
    view (run_effects run eff w) IPv6 prerouting = Some (
      (if tc_work_as_global cfg then [] else [socket_to_divert, in_set ''LPROXY6'']) @ pre IPv6) \<and>
    view (run_effects run (restore_sys s2) (run_effects run eff w)) = view w"
proof -
  note set4 = tables_set(1,3) [OF assms(2) [of IPv4]] and set6 = tables_set(2,4) [OF assms(2) [of IPv6]]
  note un4 = tables_unset(1,3) [OF assms(2) [of IPv4]] and un6 = tables_unset(2,4) [OF assms(2) [of IPv6]]
  obtain eff where e: "config_sys s = Inr eff" "\<And>w f. view (run_effects run eff w) f =
    family_run f (if tc_work_as_global cfg then set_iptables_rules_for_global else set_iptables_rules) (view w f)"
    using config_view [OF assms(1,3)] by blast
  have "view (run_effects run (restore_sys s2) (run_effects run eff w)) f = view w f" for f
    unfolding restore_view [OF assms(1)] e(2) by (cases f) (simp_all add: set4 set6 un4 un6)
  moreover have "view w IPv6 prerouting = Some (pre IPv6)" using assms(2) [of IPv6] by (simp add: clean_def)
  ultimately show ?thesis using e
    by (intro exI [of _ eff]) (simp add: set4 set6 fun_eq_iff listed_v4_def listed_v6_def global_v4_def)
qed

definition empty_table :: nf_table where
  "empty_table c = (if c = prerouting then Some [] else None)"

lemma clean_empty: "clean empty_table []"
  by (simp add: clean_def empty_table_def)

definition table_run :: "ipt_cmd \<Rightarrow> (ip_family \<Rightarrow> nf_table) \<Rightarrow> ip_family \<Rightarrow> nf_table" where
  "table_run c v = v(ic_family c := cmd_run c (v (ic_family c)))"

lemma table_run_ok: "netfilter_ok (\<lambda>v. v) table_run"
  by (simp add: netfilter_ok_def table_run_def cmd_run_def)

definition configured :: "bool \<Rightarrow> service" where
  "configured g = (projr (service_new [] []))\<lparr>sv_tuncfg := Some (sample_cfg\<lparr>tc_work_as_global := g\<rparr>)\<rparr>"

lemma config_then_restore_witness:
  "\<exists>eff. config_sys (configured True) = Inr eff \<and>
    run_effects table_run eff (\<lambda>_. empty_table) IPv4 prerouting = Some [socket_to_divert, all_to_lproxy] \<and>
    run_effects table_run (restore_sys (configured False)) (run_effects table_run eff (\<lambda>_. empty_table)) = (\<lambda>_. empty_table)"
proof -
  have "sv_tuncfg (configured True) = Some (sample_cfg\<lparr>tc_work_as_global := True\<rparr>)" by (simp add: configured_def)
  from config_then_restore [where view = "\<lambda>v. v", OF table_run_ok clean_empty this, of "configured False"] show ?thesis
    by auto
qed

text \<open>
  C40: A service that was killed leaves its rules, and the next start does not clean all of them: in the mode
  of listed sets only the IPv6 chains are emptied. The IPv4 chains then hold every rule once more, and if
  the killed one was in global mode, the rule that sends all packets to the proxy is still there.
\<close>

theorem rules_survive_a_crash:
  assumes "netfilter_ok view run" "\<And>f. clean (view w f) (pre f)"
    "sv_tuncfg s = Some cfg" "sv_tuncfg s2 = Some cfg2" "\<not> tc_work_as_global cfg2"
  shows "\<exists>eff eff2. config_sys s = Inr eff \<and> config_sys s2 = Inr eff2 \<and>
    (let v = view (run_effects run eff2 (run_effects run eff w)) IPv4 in
      (tc_work_as_global cfg \<longrightarrow> (\<exists>rs. v prerouting = Some rs \<and> all_to_lproxy \<in> set rs)) \<and>
      (\<not> tc_work_as_global cfg \<longrightarrow>
         v lproxy_tcp = Some [tproxy IPv4 ''tcp'', tproxy IPv4 ''udp'', tproxy IPv4 ''tcp'', tproxy IPv4 ''udp'']) \<and>
      v divert = Some [set_mark, accept, set_mark, accept])"
proof -
  note set4 = tables_set(1,3) [OF assms(2) [of IPv4]] and again4 = tables_again(1,2) [OF assms(2) [of IPv4]]
  obtain eff where e: "config_sys s = Inr eff" "\<And>w f. view (run_effects run eff w) f =
    family_run f (if tc_work_as_global cfg then set_iptables_rules_for_global else set_iptables_rules) (view w f)"
    using config_view [OF assms(1,3)] by blast
  obtain eff2 where e2: "config_sys s2 = Inr eff2" "\<And>w f. view (run_effects run eff2 w) f = family_run f set_iptables_rules (view w f)"
    using config_view [OF assms(1,4)] assms(5) by auto
  show ?thesis
    by (intro exI [of _ eff] exI [of _ eff2]) (simp add: e e2 set4 again4 Let_def)
qed

lemma rules_survive_a_crash_witness:
  "\<exists>eff eff2 rs. config_sys (configured True) = Inr eff \<and> config_sys (configured False) = Inr eff2 \<and>
    run_effects table_run eff2 (run_effects table_run eff (\<lambda>_. empty_table)) IPv4 prerouting = Some rs \<and> all_to_lproxy \<in> set rs"
  using rules_survive_a_crash [where view = "\<lambda>v. v", OF table_run_ok clean_empty,
      where s = "configured True" and cfg = "sample_cfg\<lparr>tc_work_as_global := True\<rparr>"
        and ?s2.0 = "configured False" and ?cfg2.0 = "sample_cfg\<lparr>tc_work_as_global := False\<rparr>"]
  by (auto simp: configured_def Let_def)

section \<open>The shell\<close>

text \<open>\<^verbatim>\<open>do_bash_cmd\<close>: the shell cannot be started, or the command succeeds or fails; no caller looks at the result.\<close>

definition do_bash_cmd :: "(str \<Rightarrow> bool option) \<Rightarrow> str \<Rightarrow> bool res" where
  "do_bash_cmd sh arg = (case sh arg of Some ok \<Rightarrow> Inr ok | None \<Rightarrow> Inl IoError)"

definition unset_ip_rules :: "str list" where
  "unset_ip_rules = [lit (''ip route del local 0.0.0.0/0 dev lo table 100;'' @
     ''ip -6 route del local 0.0.0.0/0 dev lo table 100;'' @
     ''ip -6 rule del fwmark 1 table 100;'' @
     ''ip rule del fwmark 1 table 100'')]"

definition set_ip_rules :: "str list" where
  "set_ip_rules = unset_ip_rules @ [lit (''ip route add local 0.0.0.0/0 dev lo table 100;'' @
     ''ip -6 route add local 0.0.0.0/0 dev lo table 100;'' @
     ''ip -6 rule add fwmark 1 table 100;'' @
     ''ip rule add fwmark 1 table 100'')]"

definition set_ipset :: "str list" where
  "set_ipset = [lit (''ipset -N LPROXY iphash;ipset -N LPROXY6 iphash family inet6;ipset -N LPROXYN nethash;'' @
     ''ipset -F LPROXY;ipset -F LPROXY6;ipset -F LPROXYN'')]"

definition unset_ipset :: "str list" where
  "unset_ipset = [lit ''ipset -X LPROXY;ipset -X LPROXY6;ipset -X LPROXYN'']"

definition set_uci_dnsmasq_to_default :: "str \<Rightarrow> str list" where
  "set_uci_dnsmasq_to_default dns_server =
     [lit ''uci -q delete dhcp.@dnsmasq[0].server;uci -q add_list dhcp.@dnsmasq[0].server='' @ [34] @ dns_server @ [34]
      @ lit '';uci -q set dhcp.@dnsmasq[0].noresolv='' @ [39, 49, 39] @ lit '';uci commit dhcp;/etc/init.d/dnsmasq restart'']"

definition set_uci_dnsmasq_to_me :: "str list" where
  "set_uci_dnsmasq_to_me =
     [lit ''uci -q delete dhcp.@dnsmasq[0].server;uci -q add_list dhcp.@dnsmasq[0].server='' @ [34] @ LOCAL_SERVER
      @ lit ''#'' @ dec_digits (unat LOCAL_DNS_SERVER_PORT) @ [34] @ lit '';uci commit dhcp;/etc/init.d/dnsmasq restart'']"

text \<open>What is given to the shell, call by call.\<close>

fun sys_shell :: "sys_cmd \<Rightarrow> str list" where
  "sys_shell SetIptables = [lit (script_text unset_iptables_rules), lit (script_text set_iptables_script)]"
| "sys_shell SetIptablesGlobal = [lit (script_text unset_iptables_rules_for_global), lit (script_text set_global_script)]"
| "sys_shell UnsetIptables = [lit (script_text unset_iptables_rules)]"
| "sys_shell UnsetIptablesGlobal = [lit (script_text unset_iptables_rules_for_global)]"
| "sys_shell SetIpRules = set_ip_rules"
| "sys_shell UnsetIpRules = unset_ip_rules"
| "sys_shell SetIpset = set_ipset"
| "sys_shell UnsetIpset = unset_ipset"
| "sys_shell (UciToDefault dns) = set_uci_dnsmasq_to_default dns"
| "sys_shell UciToMe = set_uci_dnsmasq_to_me"
| "sys_shell _ = []"

lemma sys_shell_scripts:
  "c \<in> {SetIptables, SetIptablesGlobal, UnsetIptables, UnsetIptablesGlobal} \<Longrightarrow>
   concat (sys_shell c) = lit (script_text (sys_cmds c))"
  by (auto simp: lit_def script_text_def set_iptables_rules_def set_iptables_rules_for_global_def)
end
