(* ===== verification/Program.thy ===== *)
theory Program imports Service begin
text \<open>\<^verbatim>\<open>src/main.rs\<close>: the command line, the version number, and the start of the service under a lock.\<close>

definition VERSION :: str where "VERSION = lit ''0.1.10''"

text \<open>\<^verbatim>\<open>str::parse::<usize>\<close> on a machine of 64 bits.\<close>

definition parse_usize :: "str \<Rightarrow> u64 option" where
  "parse_usize s =
     (let ds = (if s \<noteq> [] \<and> hd s = 43 then tl s else s) in
      if ds = [] \<or> \<not> list_all (\<lambda>d. 48 \<le> d \<and> d \<le> 57) ds then None
      else if digits_value ds < 2 ^ 64 then Some (word_of_nat (digits_value ds)) else None)"

fun version_loop :: "u64 \<Rightarrow> str list \<Rightarrow> u64 res" where
  "version_loop u [] = Inr u"
| "version_loop u (s # ss) = and_then (unwrap (parse_usize s)) (\<lambda>uu. version_loop (or (push_bit 8 u) uu) ss)"

definition to_version_number :: "str \<Rightarrow> u64 res" where
  "to_version_number ver = version_loop 0 (split_on dot ver)"

section \<open>The command line\<close>

datatype main_start = Exit nat str | Serve str str

definition parse_args :: "str list \<Rightarrow> main_start res" where
  "parse_args args =
     (let uuid = (if 2 < length args \<and> args ! 1 = lit ''-u'' then args ! 2 else []);
          hardcore_dns = (if 4 < length args \<and> args ! 3 = lit ''-d'' then args ! 4 else [])
      in if 1 < length args \<and> args ! 1 = lit ''-v'' then Inr (Exit 0 VERSION)
         else if 1 < length args \<and> args ! 1 = lit ''-vn'' then
           and_then (to_version_number VERSION) (\<lambda>n. Inr (Exit 0 (dec_digits (unat n))))
         else if uuid = [] then Inr (Exit 1 (lit ''please specify the uuid with -u''))
         else Inr (Serve uuid hardcore_dns))"

text \<open>
  What the system answers: opening the lock file, locking it, opening the file of the process number, writing it.
\<close>

record main_files =
  mf_open_lock :: bool
  mf_try_lock :: bool
  mf_open_pid :: bool
  mf_write_pid :: bool

text \<open>The service as it is when \<^verbatim>\<open>main\<close> starts to wait for the signal; \<open>None\<close> when it returns before.\<close>

definition main_serve :: "main_files \<Rightarrow> chan \<Rightarrow> str list \<Rightarrow> (service \<times> sv_effect list) option res" where
  "main_serve files tx args =
     and_then (parse_args args) (\<lambda>start.
     case start of
       Exit _ _ \<Rightarrow> Inr None
     | Serve uuid hardcore_dns \<Rightarrow>
         if \<not> mf_open_lock files then Inr None
         else if \<not> mf_try_lock files then Inr None
         else if \<not> mf_open_pid files then Inr None
         else if \<not> mf_write_pid files then Inr None
         else
           and_then (service_new uuid hardcore_dns) (\<lambda>s.
           and_then (sv_start tx s) (\<lambda>r. Inr (Some r))))"

section \<open>Properties\<close>

lemma parse_usize_digits:
  assumes "n < 2 ^ 64"
  shows "parse_usize (dec_digits n) = Some (word_of_nat n)"
proof -
  have ne: "dec_digits n \<noteq> []" by (subst dec_digits.simps) simp
  have range: "48 \<le> d \<and> d \<le> 57" if "d \<in> set (dec_digits n)" for d
    using dec_digits_range [OF that] by (simp add: word_le_nat_alt)
  then have "48 \<le> hd (dec_digits n)" using ne hd_in_set by blast
  then have "hd (dec_digits n) \<noteq> 43" by (auto simp: word_le_nat_alt)
  then show ?thesis using ne range assms by (simp add: parse_usize_def dec_digits_value list_all_iff Let_def)
qed

definition version_text :: "nat list \<Rightarrow> str" where
  "version_text parts = join_on dot (map dec_digits parts)"

definition version_value :: "nat \<Rightarrow> nat list \<Rightarrow> nat" where
  "version_value u parts = foldl (\<lambda>n a. 256 * n + a) u parts"

lemma version_value_Cons: "version_value u (a # as) = version_value (256 * u + a) as"
  by (simp add: version_value_def)

lemma shift_or:
  assumes "a < 256"
  shows "or (push_bit 8 (word_of_nat n :: u64)) (word_of_nat a) = word_of_nat (256 * n + a)"
proof -
  have "take_bit 8 a = a" using assms by (simp add: take_bit_eq_mod)
  then have b: "bit a k \<Longrightarrow> k < 8" for k by (metis bit_take_bit_iff)
  have "and (push_bit 8 n) a = 0" by (auto simp: bit_eq_iff bit_simps dest!: b)
  then have "push_bit 8 n + a = or (push_bit 8 n) a" by (rule disjunctive_add_eq_or)
  then have "word_of_nat (push_bit 8 n + a) = (or (push_bit 8 (word_of_nat n)) (word_of_nat a) :: u64)"
    by (simp add: of_nat_or_eq push_bit_of_nat)
  then show ?thesis by (simp add: push_bit_eq_mult mult.commute)
qed

lemma version_loop_value:
  "\<forall>a \<in> set parts. a < 256 \<Longrightarrow>
   version_loop (word_of_nat u) (map dec_digits parts) = Inr (word_of_nat (version_value u parts))"
proof (induction parts arbitrary: u)
  case (Cons a parts)
  then show ?case using Cons.IH [of "256 * u + a"]
    by (simp add: parse_usize_digits shift_or version_value_Cons)
qed (simp add: version_value_def)

lemma version_value_bound:
  "\<forall>a \<in> set parts. a < 256 \<Longrightarrow> version_value u parts < (u + 1) * 256 ^ length parts"
proof (induction parts arbitrary: u)
  case (Cons a parts)
  have "version_value u (a # parts) < (256 * u + a + 1) * 256 ^ length parts"
    using Cons.IH [of "256 * u + a"] Cons.prems by (simp add: version_value_Cons)
  also have "\<dots> \<le> (256 * (u + 1)) * 256 ^ length parts" using Cons.prems by (intro mult_right_mono) auto
  finally show ?case by (simp add: algebra_simps)
qed (simp add: version_value_def)

lemma version_value_less:
  "length as = length bs \<Longrightarrow> \<forall>a \<in> set as. a < 256 \<Longrightarrow> \<forall>b \<in> set bs. b < 256 \<Longrightarrow>
   version_value u as < version_value v bs \<longleftrightarrow> u < v \<or> u = v \<and> (as, bs) \<in> lex {(x, y). x < y}"
proof (induction as bs arbitrary: u v rule: list_induct2)
  case (Cons a as b bs)
  have lt: "256 * u + a < 256 * v + b \<longleftrightarrow> u < v \<or> u = v \<and> a < b" using Cons.prems by auto
  have "(256 * u + a) div 256 = u" "(256 * v + b) div 256 = v" using Cons.prems by simp_all
  then have eq: "256 * u + a = 256 * v + b \<longleftrightarrow> u = v \<and> a = b" by (metis add_left_cancel)
  show ?case using Cons.IH [of "256 * u + a" "256 * v + b"] Cons.prems Cons.hyps lt eq by (auto simp: version_value_Cons)
qed (simp add: version_value_def)

lemma version_number_value:
  assumes "parts \<noteq> []" "length parts \<le> 8" "\<forall>a \<in> set parts. a < 256"
  shows "\<exists>v. to_version_number (version_text parts) = Inr v \<and> unat v = version_value 0 parts"
proof -
  have "dot \<notin> set (dec_digits n)" for n using dec_digits_range [of dot n] by (auto simp: dot_def)
  then have "split_on dot (version_text parts) = map dec_digits parts"
    unfolding version_text_def using assms(1) by (intro split_join) auto
  moreover have "version_value 0 parts < 2 ^ 64"
  proof -
    have "version_value 0 parts < 256 ^ length parts" using version_value_bound [OF assms(3), of 0] by simp
    also have "\<dots> \<le> 256 ^ 8" using assms(2) by (intro power_increasing) simp_all
    finally show ?thesis by simp
  qed
  ultimately show ?thesis using version_loop_value [OF assms(3), of 0]
    by (simp add: to_version_number_def unat_of_nat_less)
qed

text \<open>
  Version numbers are ordered as the versions are: for two versions of the same number of parts, at most eight
  and each below 256, \<^verbatim>\<open>-vn\<close> prints numbers that compare as the parts do, from the first that differs.
\<close>

theorem version_order:
  assumes "as \<noteq> []" "length as \<le> 8" "length bs = length as" "\<forall>a \<in> set as. a < 256" "\<forall>b \<in> set bs. b < 256"
  shows "\<exists>v w. to_version_number (version_text as) = Inr v \<and> to_version_number (version_text bs) = Inr w \<and>
    (v < w \<longleftrightarrow> (as, bs) \<in> lex {(x, y). x < y})"
proof -
  obtain v where v: "to_version_number (version_text as) = Inr v" "unat v = version_value 0 as"
    using version_number_value assms by blast
  obtain w where w: "to_version_number (version_text bs) = Inr w" "unat w = version_value 0 bs"
    using version_number_value [of bs] assms by (metis length_0_conv)
  show ?thesis using v w version_value_less [OF assms(3) [symmetric] assms(4,5), of 0 0] by (simp add: word_less_nat_alt)
qed

lemma version_order_witness:
  "\<exists>v w. to_version_number (version_text [0, 1, 9]) = Inr v \<and> to_version_number (version_text [0, 1, 10]) = Inr w \<and> v < w"
  using version_order [of "[0, 1, 9]" "[0, 1, 10]"] by simp

lemma VERSION_parts: "VERSION = version_text [0, 1, 10]"
  by (simp add: VERSION_def version_text_def dec_digits.simps lit_def dot_def)

lemma parse_args_serve:
  "parse_args args = Inr (Serve uuid dns) \<longleftrightarrow> 2 < length args \<and> args ! 1 = lit ''-u'' \<and> args ! 2 = uuid \<and> uuid \<noteq> [] \<and>
     dns = (if 4 < length args \<and> args ! 3 = lit ''-d'' then args ! 4 else [])"
  by (auto simp: parse_args_def Let_def lit_def and_then_Inr_iff)

lemma parse_args_total: "\<exists>r. parse_args args = Inr r"
proof -
  obtain v where "to_version_number VERSION = Inr v" using version_number_value [of "[0, 1, 10]"] by (auto simp: VERSION_parts)
  then show ?thesis by (auto simp: parse_args_def Let_def)
qed

lemma service_new_total:
  "\<exists>s. service_new uuid dns = Inr s \<and> sv_uuid s = uuid \<and> sv_state s = STATE_STOPPED \<and> sv_user_specify_dns_server s = (dns \<noteq> [])"
  by (cases "dns = []"; cases "colon \<in> set dns") (auto simp: service_new_def STATE_STOPPED_def)

text \<open>
  The service starts exactly when \<^verbatim>\<open>-u\<close> comes first with an identifier that is not empty and the lock and
  the process number's file are had, so that no second process serves; it then starts with that identifier,
  and with a DNS server of the user's exactly if \<^verbatim>\<open>-d\<close> comes next with one. No command line makes it panic.
\<close>

theorem serves_under_lock:
  shows "\<exists>r. main_serve files tx args = Inr r \<and>
    (r \<noteq> None \<longleftrightarrow> 2 < length args \<and> args ! 1 = lit ''-u'' \<and> args ! 2 \<noteq> [] \<and>
       mf_open_lock files \<and> mf_try_lock files \<and> mf_open_pid files \<and> mf_write_pid files) \<and>
    (\<forall>s eff. r = Some (s, eff) \<longrightarrow> sv_uuid s = args ! 2 \<and> sv_state s = STATE_STARTING \<and>
       (sv_user_specify_dns_server s \<longleftrightarrow> 4 < length args \<and> args ! 3 = lit ''-d'' \<and> args ! 4 \<noteq> []))"
proof -
  obtain start where start: "parse_args args = Inr start" using parse_args_total by blast
  show ?thesis
  proof (cases start)
    case (Exit code printed)
    then show ?thesis using start parse_args_serve [of args] by (auto simp: main_serve_def)
  next
    case (Serve uuid dns)
    note a = start [unfolded Serve parse_args_serve]
    obtain s where s: "service_new uuid dns = Inr s" "sv_uuid s = uuid" "sv_state s = STATE_STOPPED"
      "sv_user_specify_dns_server s = (dns \<noteq> [])" using service_new_total by blast
    then show ?thesis using start Serve a by (auto simp: main_serve_def sv_start_def Let_def)
  qed
qed

lemma serves_under_lock_witness:
  "\<exists>s eff. main_serve \<lparr>mf_open_lock = True, mf_try_lock = True, mf_open_pid = True, mf_write_pid = True\<rparr> 3
      [lit ''lproxy-cv'', lit ''-u'', lit ''me''] = Inr (Some (s, eff)) \<and> sv_uuid s = lit ''me''"
  using serves_under_lock [of "\<lparr>mf_open_lock = True, mf_try_lock = True, mf_open_pid = True, mf_write_pid = True\<rparr>" 3
      "[lit ''lproxy-cv'', lit ''-u'', lit ''me'']"]
  by (auto simp: lit_def)
end
