(* ===== verification/Spec2Isabelle.thy ===== *)
theory Spec2Isabelle
  imports Tun_Recovery Wire_Type Keep_Alive Udp_Path Forwarder_Run Service_Run Firewall Program
begin

text \<open>
  A model of \<^verbatim>\<open>lproxy-cv\<close>, the client of a transparent proxy written in Rust, and the theorems that make
  it correct. All source files named here are under \<^verbatim>\<open>src/src/\<close>.

  \<^bold>\<open>The program.\<close> A service starts three groups of parts, each on its own thread, that talk through
  channels. (1) The \<^emph>\<open>tunnel manager\<close> keeps a fixed number of connections to a relay and multiplexes
  intercepted TCP connections and UDP flows over them. (2) The \<^emph>\<open>DNS forwarder\<close> answers the DNS questions
  of the local network: names on the list of proxied domains are asked through tunnels of its own, others
  of a local server, and the addresses found are entered in kernel IP sets so that later connections to
  them are intercepted. (3) The \<^emph>\<open>reverse tunnel\<close> lets the relay reach services on this machine.

  \<^bold>\<open>Theories and sources.\<close>
  \<^item> \<^verbatim>\<open>Prelude\<close>: machine integers, byte strings, the result type, codecs, decimal digits.
  \<^item> \<^verbatim>\<open>Net_Addr\<close>: the addresses of \<^verbatim>\<open>std::net\<close>. \<^verbatim>\<open>Config\<close>: \<^verbatim>\<open>config/mod.rs\<close>, \<^verbatim>\<open>config/tuncfg.rs\<close>.
  \<^item> \<^verbatim>\<open>Dns_Buffer\<close>, \<^verbatim>\<open>Dns_Packet\<close>: \<^verbatim>\<open>dns/dnspacket.rs\<close>. \<^verbatim>\<open>Domain_Map\<close>: \<^verbatim>\<open>dns/domap.rs\<close>.
    \<^verbatim>\<open>Netlink\<close>: \<^verbatim>\<open>dns/netlink.rs\<close>.
  \<^item> \<^verbatim>\<open>Lws_Msg\<close>, \<^verbatim>\<open>Lws_Framed\<close>: \<^verbatim>\<open>lws/*.rs\<close>, the transports and the upgrade handshake.
  \<^item> \<^verbatim>\<open>Tun_Wire\<close>, \<^verbatim>\<open>Reqq\<close>, \<^verbatim>\<open>Tunnel\<close>, \<^verbatim>\<open>Req_Serv\<close>, \<^verbatim>\<open>Tun_Mgr\<close>: \<^verbatim>\<open>tunnels/*.rs\<close>, from the message header up
    to the manager of all tunnels.
  \<^item> \<^verbatim>\<open>X_Port\<close>: \<^verbatim>\<open>xport/*.rs\<close>.
  \<^item> \<^verbatim>\<open>Dns_Tunnel\<close>, \<^verbatim>\<open>Resolver\<close>, \<^verbatim>\<open>Forwarder\<close>: \<^verbatim>\<open>dns/dnstunnel.rs\<close>, \<^verbatim>\<open>dns/lresolver.rs\<close> with
    \<^verbatim>\<open>dns/udpserv.rs\<close>, and \<^verbatim>\<open>dns/forwarder.rs\<close> with \<^verbatim>\<open>dns/dnstunbuilder.rs\<close>.
  \<^item> \<^verbatim>\<open>Udp_X\<close>: \<^verbatim>\<open>udpx/*.rs\<close>. \<^verbatim>\<open>Req_Mgr\<close>: \<^verbatim>\<open>requests/*.rs\<close> and \<^verbatim>\<open>serve_sock\<close> of \<^verbatim>\<open>tunnels/reqserv.rs\<close>.
    \<^verbatim>\<open>My_Dns\<close>: \<^verbatim>\<open>dns/mydns.rs\<close>. \<^verbatim>\<open>Http\<close>: \<^verbatim>\<open>htp/http.rs\<close>. \<^verbatim>\<open>Acc_Log\<close>: \<^verbatim>\<open>service/acclog.rs\<close>.
  \<^item> \<^verbatim>\<open>Sub_Service\<close>: \<^verbatim>\<open>service/subservice.rs\<close>, the threads and their commands. \<^verbatim>\<open>Service\<close>:
    \<^verbatim>\<open>service/service.rs\<close>, one function per operation; \<^verbatim>\<open>Service_Run\<close>: the service with its queue of
    instructions, its spawned tasks and the rules it sets on the system, as one machine.
  \<^item> \<^verbatim>\<open>Firewall\<close>: the scripts of \<^verbatim>\<open>service/iptable_rule.rs\<close>, \<^verbatim>\<open>ip_rules.rs\<close>, \<^verbatim>\<open>ipset.rs\<close> and \<^verbatim>\<open>uci.rs\<close>, and the
    chains they leave. \<^verbatim>\<open>Program\<close>: \<^verbatim>\<open>main.rs\<close>.
  \<^item> \<^verbatim>\<open>Ledger\<close>: the abstract specification of a pool of tunnels that redials. \<^verbatim>\<open>Tun_Mgr_Run\<close> and
    \<^verbatim>\<open>Forwarder_Run\<close> prove that both managers, with their builders and timers, refine it.
  \<^item> \<^verbatim>\<open>Tun_Conn\<close>: \<^verbatim>\<open>tunnels/tunbuilder.rs\<close>, \<^verbatim>\<open>dns/dnstunbuilder.rs\<close> and \<^verbatim>\<open>xport/xtunserv.rs\<close>, the tasks that
    dial a connection and serve it. \<^verbatim>\<open>Tun_Net\<close>: the tunnel manager together with all its tasks;
    \<^verbatim>\<open>Tun_Recovery\<close>: how that system gets all its tunnels back.
  \<^item> \<^verbatim>\<open>Req_Life\<close>: the futures of \<^verbatim>\<open>tunnels/reqserv.rs\<close> and \<^verbatim>\<open>xport/xreqserv.rs\<close> that carry a proxied
    connection until its slot is released. \<^verbatim>\<open>Wire_Type\<close>: the message types these futures and the tunnels
    of \<^verbatim>\<open>Tunnel\<close> and \<^verbatim>\<open>X_Port\<close> exchange.
  \<^item> \<^verbatim>\<open>Keep_Alive\<close>: the interval timers of \<^verbatim>\<open>tunnels/tunmgr.rs\<close>, \<^verbatim>\<open>dns/forwarder.rs\<close> and
    \<^verbatim>\<open>xport/xtunnel.rs\<close>, together with the managers they drive.
  \<^item> \<^verbatim>\<open>Sockets\<close>: \<^verbatim>\<open>udpx/mod.rs\<close>, \<^verbatim>\<open>udpx/recvmsg.c\<close>, and the sockets made by \<^verbatim>\<open>udpx/udpserv.rs\<close>,
    \<^verbatim>\<open>udpx/udpsock.rs\<close>, \<^verbatim>\<open>udpx/ustub.rs\<close> and \<^verbatim>\<open>dns/netlink.rs\<close>, over a kernel that is a parameter.
    \<^verbatim>\<open>Udp_Path\<close>: a datagram from the listener's socket to the tunnel, and its answer back.

  \<^bold>\<open>Conventions.\<close> A struct is a record with the code's fields, a method a function from the state to the
  new state. What a method sends on a channel or does to a socket is the list of effects it returns. A
  \<^verbatim>\<open>Result::Err\<close>, a panic (index out of range, \<^verbatim>\<open>unwrap\<close>), an unsigned subtraction below zero that is
  then used as a length, and running out of fuel are the \<open>Inl\<close> values of \<open>'a res\<close>, so every panic of
  the code is a branch of the model. Integers keep their width and wrap, as the release profile
  compiles them; lengths are natural numbers. \<^verbatim>\<open>Rc<RefCell<T>>\<close> objects shared by several owners are kept
  in the slot of the owner that frees them. A method that reads the clock takes the time as argument.

  \<^bold>\<open>Interfaces.\<close> Each contract between components is a locale interpreted on the code's model:
  \<open>wire_codec\<close> (readers of a wire form), \<open>domain_filter\<close> (a set of names), \<open>buf_mut\<close> (a buffer that
  may be written by a socket), \<open>slot_pool\<close> (handles that are revoked), \<open>two_generations\<close> (the resolver's
  memo), \<open>redialling\<close> (refinement of the ledger), \<open>stream_carrier\<close> (the owner of a proxied connection).

  \<^bold>\<open>Parameters.\<close> What is not in the repository is an argument: the live channels, the socket's answers
  (an arbitrary reader), the kernel's sockets (\<open>sock_api\<close>, with the laws \<open>kernel_ok\<close> of the manual pages
  and a concrete instance), the readiness of the runtime's reactor, URL, IP address and JSON parsers, lossy UTF-8 decoding,
  \<^verbatim>\<open>sort_by\<close> (only that it permutes), and the byte order of the machine.

  \<^bold>\<open>What is proved.\<close> Round trips of the DNS codec and of UDP datagrams over a tunnel; that the received
  byte stream determines the delivered frames however it is cut, inside the buffer's allocation; that a
  request slot's handle is valid exactly from allocation to release, for every history; that data
  reaches only its owner and a request is closed once; the tunnels' keep-alive and round-trip estimates;
  that every tunnel index is open, being dialled or queued, exactly once, in every reachable state, and
  that the managers refine the ledger, and the dialling tasks do what the tunnel manager expects of them; that a proxied connection's bytes are
  carried whole and its slot released once; that the ends of a tunnel send only messages of
  their declared types and take all of these without a panic; that a pool whose dialling succeeds has all its tunnels open again, and that a
  relay which falls silent is disconnected after at most seven ticks of the keep-alive timer; that a UDP
  datagram reaches the tunnel with its destination and the answer comes from the address asked, on sockets
  that are set up for it; that stopping the service leaves the firewall as it was; routing of DNS questions and of their answers, with the memo's
  window of validity; that the netlink messages are the documented wire form; and on which inputs the
  code panics or does not return, each with a concrete input.

  \<^bold>\<open>Loops and fuel.\<close> Loops over data are structural or have a measure. A loop that only the environment
  ends is a \<open>partial_function\<close> into \<open>option\<close>, and its theorems state that it returns. The reader
  of compressed names follows pointers without a bound: it takes fuel, more fuel than the name has
  steps never changes the result, and a pointer to itself exhausts every fuel.

  \<^bold>\<open>Not modelled.\<close> \<^verbatim>\<open>service/cv.rs\<close> is generated by the protobuf compiler; the records it declares are the
  arguments of \<open>Config\<close> and \<open>Acc_Log\<close>. The log output of every file, \<^verbatim>\<open>service/mod.rs\<close> and the build
  script have no state of the program. How the runtime paces the items of a channel into a socket, and
  TCP and TLS of the dialling tasks, are represented by their outcomes. Timers are events: when one fires
  is the environment's, except for the keep-alive timers, whose ticks are counted.
\<close>

end
